(* ===== verification/Prelude.thy ===== *)
theory Prelude
  imports Main "HOL-Library.Word"
begin

text \<open>
  Shared material of the development: the machine-integer types of the Rust code, the
  outcome type of a fallible routine, and the generic lemmas on lists and words that the
  component theories use.
\<close>

section \<open>Machine integers\<close>

type_synonym u8 = "8 word"
type_synonym u16 = "16 word"
type_synonym u32 = "32 word"

abbreviation u16_MAX :: u16 where
  "u16_MAX \<equiv> 65535"

text \<open>
  \<open>u16_of n\<close> is the Rust cast \<open>n as u16\<close> of a \<open>usize\<close>: it keeps the low 16 bits.
\<close>

definition u16_of :: "nat \<Rightarrow> u16" where
  "u16_of n = word_of_nat n"

named_theorems seq_arith
  \<open>facts that turn wrapping 16-bit arithmetic into linear arithmetic over nat\<close>

lemma unat_u16_lt: "unat (x :: u16) < 65536"
proof -
  have "unat x < 2 ^ LENGTH(16)" by (rule unsigned_less)
  then show ?thesis by simp
qed

lemma unat_u16_of: "n < 65536 \<Longrightarrow> unat (u16_of n) = n"
  by (simp add: u16_of_def unat_of_nat)

lemma unat_u16_sub [seq_arith]:
  "unat (x - y :: u16) = (if unat y \<le> unat x then unat x - unat y else 65536 + unat x - unat y)"
  using unat_u16_lt [of x] unat_u16_lt [of y] by (auto simp: unat_sub_if')

lemma unat_u16_add [seq_arith]:
  "unat (x + y :: u16) = (if unat x + unat y < 65536 then unat x + unat y else unat x + unat y - 65536)"
  using unat_u16_lt [of x] unat_u16_lt [of y] by (auto simp: unat_plus_if')

lemma u16_eq_iff_unat: "(x :: u16) = y \<longleftrightarrow> unat x = unat y"
  by (simp add: word_unat_eq_iff)

lemmas u16_order [seq_arith] = word_less_nat_alt word_le_nat_alt

end
