(* ===== verification/Wrapping.thy ===== *)
theory Wrapping
  imports Prelude
begin

text \<open>
  Sequence-number arithmetic of \<open>mini_udp/src/ring_buffer.rs\<close>: the functions
  \<open>wrapping_range\<close> and \<open>wrapping_gt\<close>, with the facts that make them an order on
  16-bit sequence numbers that wrap around.
\<close>

section \<open>The functions\<close>

text \<open>
  \<open>fn wrapping_range(start, end)\<close>: the numbers from \<open>start\<close> up to, but excluding, \<open>end\<close>,
  wrapping at \<open>u16::MAX\<close>. The iterator is modelled by the list of its items.
\<close>

definition wrapping_range :: "u16 \<Rightarrow> u16 \<Rightarrow> u16 list" where
  "wrapping_range start end =
     (let len = end - start
      in map (\<lambda>i. start + word_of_nat i) [0..<unat len])"

text \<open>
  \<open>fn wrapping_gt(x, y, max_dif)\<close>: is \<open>x\<close> newer than \<open>y\<close>, where two numbers at most
  \<open>max_dif\<close> apart across the wrap-around are compared in wrap-around order and all others
  as plain unsigned numbers.
\<close>

definition wrapping_gt :: "u16 \<Rightarrow> u16 \<Rightarrow> u16 \<Rightarrow> bool" where
  "wrapping_gt x y max_dif =
     (if u16_MAX - x < max_dif \<and> y \<le> x \<and> u16_MAX - x + y < max_dif then False
      else if u16_MAX - y < max_dif \<and> x \<le> y \<and> u16_MAX - y + x < max_dif then True
      else x > y)"

section \<open>Order facts\<close>

text \<open>\<open>ahead x y\<close>: how many steps of \<open>wrapping_add(1)\<close> lead from \<open>y\<close> to \<open>x\<close>.\<close>

definition ahead :: "u16 \<Rightarrow> u16 \<Rightarrow> nat" where
  "ahead x y = unat (x - y)"

lemma ahead_lt: "ahead x y < 65536"
  by (simp add: ahead_def unat_u16_lt)

lemma ahead_self [simp]: "ahead x x = 0"
  by (simp add: ahead_def)

lemma ahead_0_iff: "ahead x y = 0 \<longleftrightarrow> x = y"
  by (simp add: ahead_def unat_eq_0)

lemma wrapping_gt_newer:
  assumes "0 < ahead x y" "ahead x y \<le> unat d" "unat d < 32768"
  shows "wrapping_gt x y d"
  using assms unat_u16_lt [of x] unat_u16_lt [of y]
  unfolding wrapping_gt_def ahead_def
  by (auto simp: seq_arith split: if_splits)

lemma wrapping_gt_not_older:
  assumes "ahead y x \<le> unat d" "unat d < 32768"
  shows "\<not> wrapping_gt x y d"
  using assms unat_u16_lt [of x] unat_u16_lt [of y]
  unfolding wrapping_gt_def ahead_def
  by (auto simp: seq_arith split: if_splits)

lemma wrapping_gt_far:
  assumes "unat d < ahead x y" "unat d < ahead y x"
  shows "wrapping_gt x y d \<longleftrightarrow> y < x"
  using assms unat_u16_lt [of x] unat_u16_lt [of y]
  unfolding wrapping_gt_def ahead_def
  by (auto simp: seq_arith split: if_splits)

lemma wrapping_gt_self [simp]: "\<not> wrapping_gt x x d"
  by (auto simp: wrapping_gt_def)

section \<open>Distances\<close>

lemma ahead_cancel: "ahead w i = ahead w j \<Longrightarrow> i = j"
  by (simp add: ahead_def u16_eq_iff_unat [symmetric])

lemma ahead_Suc: "i \<noteq> w + 1 \<Longrightarrow> ahead (w + 1) i = Suc (ahead w i)"
  using unat_u16_lt [of w] unat_u16_lt [of i]
  by (auto simp: ahead_def seq_arith u16_eq_iff_unat split: if_splits)

lemma ahead_sum: "unat i + ahead w i = unat w \<or> unat i + ahead w i = unat w + 65536"
  using unat_u16_lt [of w] unat_u16_lt [of i]
  by (auto simp: ahead_def seq_arith)

lemma ahead_flip: "x \<noteq> y \<Longrightarrow> ahead x y + ahead y x = 65536"
  using unat_u16_lt [of x] unat_u16_lt [of y]
  by (auto simp: ahead_def seq_arith u16_eq_iff_unat)

lemma ahead_trans:
  "ahead x y + ahead y z < 65536 \<Longrightarrow> ahead x z = ahead x y + ahead y z"
  using unat_u16_lt [of x] unat_u16_lt [of y] unat_u16_lt [of z]
  by (auto simp: ahead_def seq_arith split: if_splits)

lemma ahead_trans_wrap:
  "65536 \<le> ahead x y + ahead y z \<Longrightarrow> ahead x z = ahead x y + ahead y z - 65536"
  using unat_u16_lt [of x] unat_u16_lt [of y] unat_u16_lt [of z]
  by (auto simp: ahead_def seq_arith split: if_splits)

lemma ahead_offset: "k < 65536 \<Longrightarrow> ahead w (w - word_of_nat k) = k"
  by (simp add: ahead_def unat_of_nat)

lemma ahead_plus: "k < 65536 \<Longrightarrow> ahead (w + word_of_nat k) w = k"
  by (simp add: ahead_def unat_of_nat)

lemma minus_ahead: "w - word_of_nat (ahead w i) = i"
  by (simp add: ahead_def)

lemma plus_ahead: "w + word_of_nat (ahead i w) = i"
  by (simp add: ahead_def)

lemma slot_sum:
  assumes "n dvd 65536"
  shows "(unat i + ahead w i) mod n = unat w mod n"
proof -
  have "(unat w + 65536) mod n = unat w mod n"
    using assms by (metis dvd_eq_mod_eq_0 mod_add_right_eq add_0_right)
  then show ?thesis using ahead_sum [of i w] by metis
qed

lemma nat_mod_add_cancel:
  assumes "((c::nat) + a) mod n = (c + b) mod n"
  shows "a mod n = b mod n"
proof -
  have "(int c + int a) mod int n = (int c + int b) mod int n"
    using assms by (metis of_nat_add zmod_int)
  then have "(int c + int a - int c) mod int n = (int c + int b - int c) mod int n"
    by (rule mod_diff_cong) simp
  then show ?thesis by (simp flip: of_nat_mod)
qed

lemma slot_inj:
  assumes n: "n dvd 65536" and lt: "ahead w i < n" "ahead w j < n"
    and eq: "unat i mod n = unat j mod n"
  shows "i = j"
proof -
  have "(unat i + ahead w i) mod n = (unat j + ahead w j) mod n"
    using slot_sum [OF n] by metis
  then have "(unat j + ahead w i) mod n = (unat j + ahead w j) mod n"
    using eq by (metis mod_add_left_eq)
  then have "ahead w i mod n = ahead w j mod n"
    by (rule nat_mod_add_cancel)
  then show ?thesis using lt by (simp add: ahead_cancel)
qed

section \<open>Ranges\<close>

lemma length_wrapping_range [simp]: "length (wrapping_range s e) = ahead e s"
  by (simp add: wrapping_range_def ahead_def)

lemma set_wrapping_range: "set (wrapping_range s e) = {i. ahead i s < ahead e s}"
proof -
  have "i \<in> set (wrapping_range s e)" if "ahead i s < ahead e s" for i
    using that plus_ahead [of s i]
    by (force simp: wrapping_range_def ahead_def [symmetric] Let_def image_iff)
  moreover have "ahead i s < ahead e s" if "i \<in> set (wrapping_range s e)" for i
    using that ahead_lt [of e s]
    by (auto simp: wrapping_range_def ahead_def [symmetric] Let_def ahead_plus)
  ultimately show ?thesis by auto
qed

lemma distinct_wrapping_range: "distinct (wrapping_range s e)"
proof -
  have "inj_on (\<lambda>i. s + word_of_nat i) {0..<ahead e s}"
    using ahead_lt [of e s]
    by (intro inj_onI) (metis ahead_plus atLeastLessThan_iff order.strict_trans)
  then show ?thesis
    by (simp add: wrapping_range_def ahead_def Let_def distinct_map)
qed

section \<open>The window tests of insert\<close>

text \<open>
  For a ring of at most 8192 items the two disjunctions of comparisons in \<open>insert\<close>
  are exact tests on the distance from the newest number.
\<close>

lemma u16_sizes:
  assumes "0 < N" "N \<le> 8192"
  shows "unat (u16_of N) = N" "unat (u16_of N - 1) = N - 1" "unat (u16_of N * 2) = 2 * N"
proof -
  show n: "unat (u16_of N) = N" using assms by (simp add: unat_u16_of)
  show "unat (u16_of N - 1) = N - 1" using assms n by (simp add: seq_arith)
  show "unat (u16_of N * 2) = 2 * N"
    using unat_u16_add [of "u16_of N" "u16_of N"] assms n by (simp add: mult.commute)
qed

lemma ahead_diff: "ahead x y \<le> ahead x z \<Longrightarrow> ahead y z = ahead x z - ahead x y"
  using unat_u16_lt [of x] unat_u16_lt [of y] unat_u16_lt [of z]
  by (auto simp: ahead_def seq_arith split: if_splits)

lemma ahead_diff': "ahead y z \<le> ahead x z \<Longrightarrow> ahead x y = ahead x z - ahead y z"
  using unat_u16_lt [of x] unat_u16_lt [of y] unat_u16_lt [of z]
  by (auto simp: ahead_def seq_arith split: if_splits)

lemma ahead_minus [simp]: "ahead w (w - c) = unat c" "ahead (w + c) w = unat c"
  by (simp_all add: ahead_def)

lemma ahead_between:
  assumes "a \<le> i" "i \<le> b"
  shows "ahead i a \<le> ahead b a"
  using assms by (simp add: ahead_def seq_arith)

lemma insert_far:
  assumes N: "0 < N" "N \<le> 8192"
  shows "wrapping_gt (w - (u16_of N - 1)) i (u16_of N * 2)
     \<or> wrapping_gt i (w + (u16_of N - 1)) (u16_of N * 2)
     \<longleftrightarrow> N \<le> ahead w i \<and> N \<le> ahead i w" (is "wrapping_gt ?a i ?d \<or> wrapping_gt i ?b ?d \<longleftrightarrow> _")
proof -
  note sizes = u16_sizes [OF N]
  have wa: "ahead w ?a = N - 1" and bw: "ahead ?b w = N - 1" by (simp_all add: sizes)
  have ba: "ahead ?b ?a = 2 * N - 2"
    using ahead_trans [of ?b w ?a] N wa bw by simp
  show ?thesis
  proof (cases "ahead w i < N \<or> ahead i w < N")
    case True
    then have "ahead i ?a \<le> 2 * N \<and> ahead ?b i \<le> 2 * N"
    proof
      assume "ahead w i < N"
      then show ?thesis
        using ahead_diff' [of i ?a w] ahead_diff [of w i ?a] ahead_trans [of ?b w i] wa bw N by auto
    next
      assume "ahead i w < N"
      then show ?thesis
        using ahead_trans [of i w ?a] ahead_diff' [of i w ?b] wa bw N by auto
    qed
    then show ?thesis
      using True sizes N wrapping_gt_not_older [of i ?a ?d] wrapping_gt_not_older [of ?b i ?d]
      by auto
  next
    case False
    then have ai: "ahead ?a i = ahead w i - (N - 1)" and ib: "ahead i ?b = ahead i w - (N - 1)"
      using ahead_diff [of w ?a i] ahead_diff' [of ?b w i] wa bw by auto
    show ?thesis
    proof (cases "ahead ?a i \<le> 2 * N \<or> ahead i ?b \<le> 2 * N")
      case True
      then show ?thesis
        using False N sizes wrapping_gt_newer [of ?a i ?d] wrapping_gt_newer [of i ?b ?d]
          ai ib by auto
    next
      case far: False
      have "w \<noteq> i" using False N by auto
      then have "ahead w i + ahead i w = 65536" by (rule ahead_flip)
      then have ia: "ahead i ?a = ahead i w + (N - 1)"
        using ahead_trans [of i w ?a] wa far ai by auto
      have "\<not> (?a \<le> i \<and> i \<le> ?b)"
        using ahead_between [of ?a i ?b] ia ba False N by auto
      moreover have "ahead ?b i = ahead w i + (N - 1)"
        using ahead_trans [of ?b w i] bw far ib False \<open>ahead w i + ahead i w = 65536\<close> by auto
      ultimately show ?thesis
        using far ib ai ia sizes wrapping_gt_far [of ?d ?a i] wrapping_gt_far [of ?d i ?b]
        by (simp add: not_le del: wrapping_gt_self) linarith
    qed
  qed
qed

lemma insert_near:
  assumes N: "0 < N" "N \<le> 8192" and near: "ahead w i < N \<or> ahead i w < N"
  shows "wrapping_gt (w + 1) i (u16_of N) \<and> wrapping_gt i (w - u16_of N) (u16_of N)
     \<longleftrightarrow> ahead w i < N" (is "wrapping_gt ?b i ?n \<and> wrapping_gt i ?a ?n \<longleftrightarrow> _")
proof -
  note sizes = u16_sizes [OF N]
  have wa: "ahead w ?a = N" and bw: "ahead ?b w = 1" by (simp_all add: sizes)
  show ?thesis
  proof (cases "ahead w i < N")
    case True
    then have "ahead ?b i = Suc (ahead w i)" "ahead i ?a = N - ahead w i"
      using ahead_trans [of ?b w i] ahead_diff [of w i ?a] N wa bw by simp_all
    then show ?thesis
      using True N sizes wrapping_gt_newer [of ?b i ?n] wrapping_gt_newer [of i ?a ?n] by simp
  next
    case False
    then have i: "ahead i w < N" "i \<noteq> w" using near N by auto
    then have "ahead i ?b = ahead i w - 1"
      using ahead_diff' [of ?b w i] bw ahead_0_iff [of i w] by simp
    then have "\<not> wrapping_gt ?b i ?n"
      using i N sizes wrapping_gt_not_older [of i ?b ?n] by simp
    then show ?thesis using False by simp
  qed
qed

end
