(* ===== verification/Store.thy ===== *)
theory Store
  imports Wrapping
begin

text \<open>
  The contract between the packet caches and the code that acknowledges packets: a store
  of items under 16-bit sequence numbers that remembers at most \<open>cap\<close> numbers behind the
  newest one (\<open>seq_store\<close>), and one whose numbers can be listed (\<open>seq_window\<close>). The
  lemmas of the loops that remove or list entries are proved here, from the laws only; the
  ring buffer interprets both locales.
\<close>

locale seq_store =
  fixes inv :: "'r \<Rightarrow> bool"
    and lookup :: "'r \<Rightarrow> u16 \<Rightarrow> 'a option"
    and head :: "'r \<Rightarrow> u16"
    and cap :: "'r \<Rightarrow> nat"
    and remove :: "'r \<Rightarrow> u16 \<Rightarrow> 'a option \<times> 'r"
  assumes inv_remove: "inv r \<Longrightarrow> inv (snd (remove r i))"
    and lookup_remove: "inv r \<Longrightarrow> lookup (snd (remove r i)) j = (if j = i then None else lookup r j)"
    and head_remove: "head (snd (remove r i)) = head r"
    and lookup_near: "inv r \<Longrightarrow> lookup r i \<noteq> None \<Longrightarrow> ahead (head r) i < cap r"
begin

lemma remove_if_step:
  "inv r \<Longrightarrow> inv (if b then snd (remove r i) else r)"
  "inv r \<Longrightarrow> lookup (if b then snd (remove r i) else r) j = (if b \<and> j = i then None else lookup r j)"
  "head (if b then snd (remove r i) else r) = head r"
  by (simp_all add: inv_remove lookup_remove head_remove)

lemma remove_if_loop:
  assumes "inv r"
  shows "inv (fold (\<lambda>k r. if P k then snd (remove r (f k)) else r) ks r)"
    and "head (fold (\<lambda>k r. if P k then snd (remove r (f k)) else r) ks r) = head r"
    and "lookup (fold (\<lambda>k r. if P k then snd (remove r (f k)) else r) ks r) j =
      (if \<exists>k\<in>set ks. P k \<and> f k = j then None else lookup r j)"
  using assms by (induction ks arbitrary: r) (auto simp: inv_remove lookup_remove head_remove)

lemma remove_loop:
  assumes "inv r"
  shows "lookup (fold (\<lambda>i r. snd (remove r i)) is r) j = (if j \<in> set is then None else lookup r j)"
  using remove_if_loop(3) [OF assms, of "\<lambda>_. True" "\<lambda>i. i" "is" j] by simp

end

locale seq_window = seq_store +
  fixes numbers :: "'r \<Rightarrow> u16 list"
  assumes set_numbers: "inv r \<Longrightarrow> set (numbers r) = {i. lookup r i \<noteq> None}"
    and distinct_numbers: "distinct (numbers r)"
begin

lemma numbers_near: "inv r \<Longrightarrow> i \<in> set (numbers r) \<Longrightarrow> ahead (head r) i < cap r"
  using lookup_near by (auto simp: set_numbers)

lemma number_at:
  "inv r \<Longrightarrow> n < cap r \<Longrightarrow> n < 65536 \<Longrightarrow>
   (\<exists>i\<in>set (numbers r). ahead (head r) i = n) \<longleftrightarrow> lookup r (head r - word_of_nat n) \<noteq> None"
  using minus_ahead [of "head r"] ahead_offset [of n "head r"] by (force simp: set_numbers)

end

end
