(* ===== verification/Ring.thy ===== *)
theory Ring
  imports Store
begin

text \<open>
  \<open>struct RingBuffer<T, NUM_ITEMS>\<close> of \<open>mini_udp/src/ring_buffer.rs\<close>: the cache of
  reliably sent and received packets, addressed by 16-bit sequence numbers. The array
  length is the constant \<open>NUM_ITEMS\<close> of the Rust type. A number is live while it is
  among the \<open>NUM_ITEMS\<close> newest ones; the lemmas say what \<open>get\<close> returns for every
  number after every operation.
\<close>

section \<open>The data type and its operations\<close>

record 'a ring =
  newest :: u16
  items :: "'a option list"

definition num_items :: "'a ring \<Rightarrow> nat" where
  "num_items r = length (items r)"

text \<open>
  \<open>Default::default\<close>: \<open>None\<close> where one of the two assertions (or the remainder by zero)
  panics.
\<close>

definition rb_new :: "nat \<Rightarrow> 'a ring option" where
  "rb_new n =
     (if n < unat u16_MAX then
        if n \<noteq> 0 \<and> u16_MAX mod u16_of n = u16_of n - 1
        then Some \<lparr>newest = u16_MAX, items = replicate n None\<rparr>
        else None
      else None)"

definition rb_get :: "'a ring \<Rightarrow> u16 \<Rightarrow> 'a option" where
  "rb_get r index =
     (let i = unat (newest r - index)
      in if i < num_items r then items r ! (unat index mod num_items r) else None)"

text \<open>\<open>push\<close> returns the number given to the item.\<close>

definition rb_push :: "'a ring \<Rightarrow> 'a \<Rightarrow> u16 \<times> 'a ring" where
  "rb_push r item =
     (let i = newest r + 1
      in (i, r\<lparr>newest := i, items := (items r)[unat i mod num_items r := Some item]\<rparr>))"

definition rb_take :: "'a ring \<Rightarrow> u16 \<Rightarrow> 'a option \<times> 'a ring" where
  "rb_take r index =
     (let i = unat (newest r - index)
      in if i < num_items r
         then (items r ! (unat index mod num_items r),
               r\<lparr>items := (items r)[unat index mod num_items r := None]\<rparr>)
         else (None, r))"

text \<open>\<open>get_mut\<close> followed by a store through the reference it returns.\<close>

definition rb_set :: "'a ring \<Rightarrow> u16 \<Rightarrow> 'a \<Rightarrow> 'a ring" where
  "rb_set r index v =
     (let i = unat (newest r - index)
      in if i < num_items r \<and> items r ! (unat index mod num_items r) \<noteq> None
         then r\<lparr>items := (items r)[unat index mod num_items r := Some v]\<rparr>
         else r)"

text \<open>The loop \<open>for i in range { self.take(i); }\<close> of \<open>insert\<close>.\<close>

definition rb_purge :: "u16 list \<Rightarrow> 'a ring \<Rightarrow> 'a ring" where
  "rb_purge is r = fold (\<lambda>i r. snd (rb_take r i)) is r"

definition rb_insert :: "'a ring \<Rightarrow> u16 \<Rightarrow> 'a \<Rightarrow> 'a ring" where
  "rb_insert r index item =
     (let n = u16_of (num_items r);
          prev_oldest = newest r - (n - 1)
      in if wrapping_gt prev_oldest index (n * 2)
            \<or> wrapping_gt index (newest r + (n - 1)) (n * 2)
         then r\<lparr>newest := index,
                items := (map (\<lambda>_. None) (items r))[unat index mod num_items r := Some item]\<rparr>
         else if wrapping_gt (newest r + 1) index n \<and> wrapping_gt index (newest r - n) n
         then r\<lparr>items := (items r)[unat index mod num_items r := Some item]\<rparr>
         else (let r' = rb_purge (wrapping_range (newest r - (n - 1)) (index - (n - 1))) r
               in r'\<lparr>newest := index,
                     items := (items r')[unat index mod num_items r' := Some item]\<rparr>))"

definition rb_push_will_override :: "'a ring \<Rightarrow> bool" where
  "rb_push_will_override r =
     (let i = newest r + 1 in items r ! (unat i mod num_items r) \<noteq> None)"

definition rb_newest_index :: "'a ring \<Rightarrow> u16" where
  "rb_newest_index r = newest r"

definition rb_next_index :: "'a ring \<Rightarrow> u16" where
  "rb_next_index r = newest r + 1"

definition rb_len :: "'a ring \<Rightarrow> nat" where
  "rb_len r = length (filter (\<lambda>i. i \<noteq> None) (items r))"

definition rb_is_empty :: "'a ring \<Rightarrow> bool" where
  "rb_is_empty r \<longleftrightarrow> rb_len r = 0"

section \<open>Well-formed rings\<close>

text \<open>
  The sizes the operations are correct for: divisors of \<open>2^16\<close> (the assertions of
  \<open>Default\<close>), small enough that \<open>wrapping_gt\<close> can tell the newer of two numbers of
  neighbouring windows.
\<close>

definition rb_wf :: "'a ring \<Rightarrow> bool" where
  "rb_wf r \<longleftrightarrow> 0 < num_items r \<and> num_items r dvd 65536 \<and> num_items r \<le> 8192"

abbreviation live :: "'a ring \<Rightarrow> u16 \<Rightarrow> bool" where
  "live r i \<equiv> ahead (newest r) i < num_items r"

lemma rb_wfD:
  assumes "rb_wf r"
  shows "0 < num_items r" "num_items r dvd 65536" "num_items r \<le> 8192"
  using assms by (auto simp: rb_wf_def)

lemma num_items_simps [simp]:
  "num_items (r\<lparr>newest := w\<rparr>) = num_items r"
  "num_items (r\<lparr>items := xs\<rparr>) = length xs"
  by (simp_all add: num_items_def)

lemma length_items [simp]: "length (items r) = num_items r"
  by (simp add: num_items_def)

lemma rb_get_alt:
  "rb_get r i = (if live r i then items r ! (unat i mod num_items r) else None)"
  by (simp add: rb_get_def ahead_def Let_def)

lemma rb_get_not_live: "\<not> live r i \<Longrightarrow> rb_get r i = None"
  by (simp add: rb_get_alt)

lemma slot_lt: "rb_wf r \<Longrightarrow> unat i mod num_items r < num_items r"
  by (simp add: rb_wf_def)

lemma live_slot_eq:
  "rb_wf r \<Longrightarrow> live r i \<Longrightarrow> live r j \<Longrightarrow>
   unat i mod num_items r = unat j mod num_items r \<longleftrightarrow> i = j"
  using slot_inj [of "num_items r" "newest r" i j] by (auto simp: rb_wf_def)

section \<open>Shape of the results\<close>

lemma num_items_push [simp]: "num_items (snd (rb_push r x)) = num_items r"
  by (simp add: rb_push_def Let_def)

lemma num_items_take [simp]: "num_items (snd (rb_take r i)) = num_items r"
  by (simp add: rb_take_def Let_def)

lemma num_items_set [simp]: "num_items (rb_set r i v) = num_items r"
  by (simp add: rb_set_def Let_def)

lemma newest_take [simp]: "newest (snd (rb_take r i)) = newest r"
  by (simp add: rb_take_def Let_def)

lemma newest_set [simp]: "newest (rb_set r i v) = newest r"
  by (simp add: rb_set_def Let_def)

lemma rb_purge_simps [simp]:
  "rb_purge [] r = r"
  "rb_purge (i # is) r = rb_purge is (snd (rb_take r i))"
  by (simp_all add: rb_purge_def)

lemma num_items_purge [simp]: "num_items (rb_purge is r) = num_items r"
  by (induction "is" arbitrary: r) simp_all

lemma newest_purge [simp]: "newest (rb_purge is r) = newest r"
  by (induction "is" arbitrary: r) simp_all

lemma num_items_insert [simp]: "num_items (rb_insert r i x) = num_items r"
  by (simp add: rb_insert_def Let_def)

lemma newest_push [simp]: "newest (snd (rb_push r x)) = newest r + 1" "fst (rb_push r x) = newest r + 1"
  by (simp_all add: rb_push_def Let_def)

lemma rb_wf_preserved [simp]:
  "rb_wf (snd (rb_push r x)) \<longleftrightarrow> rb_wf r"
  "rb_wf (snd (rb_take r i)) \<longleftrightarrow> rb_wf r"
  "rb_wf (rb_set r i x) \<longleftrightarrow> rb_wf r"
  "rb_wf (rb_insert r i x) \<longleftrightarrow> rb_wf r"
  "rb_wf (rb_purge is r) \<longleftrightarrow> rb_wf r"
  by (simp_all add: rb_wf_def)

section \<open>What get returns after each operation\<close>

lemma fst_rb_take: "fst (rb_take r i) = rb_get r i"
  by (simp add: rb_take_def rb_get_def Let_def)

lemma rb_get_take:
  assumes "rb_wf r"
  shows "rb_get (snd (rb_take r i)) j = (if j = i then None else rb_get r j)"
  using assms live_slot_eq [OF assms, of i j] slot_lt [OF assms]
  by (auto simp: rb_get_alt rb_take_def Let_def ahead_def [symmetric] nth_list_update)

lemma rb_get_set:
  assumes "rb_wf r"
  shows "rb_get (rb_set r i v) j = (if j = i \<and> rb_get r i \<noteq> None then Some v else rb_get r j)"
  using assms live_slot_eq [OF assms, of i j] slot_lt [OF assms]
  by (auto simp: rb_get_alt rb_set_def Let_def ahead_def [symmetric] nth_list_update)

interpretation ring: seq_store rb_wf rb_get newest num_items rb_take
proof
  show "ahead (newest r) i < num_items r" if "rb_get r i \<noteq> None" for r :: "'a ring" and i
    using that rb_get_not_live by metis
qed (simp_all add: rb_get_take)

lemma rb_get_purge:
  "rb_wf r \<Longrightarrow> rb_get (rb_purge is r) j = (if j \<in> set is then None else rb_get r j)"
  unfolding rb_purge_def by (rule ring.remove_loop)

lemma rb_get_push:
  assumes "rb_wf r"
  shows "rb_get (snd (rb_push r x)) j =
    (if j = newest r + 1 then Some x
     else if ahead (newest r) j < num_items r - 1 then rb_get r j else None)"
proof -
  let ?r = "snd (rb_push r x)" and ?w = "newest r + 1"
  have "j = ?w" if "live ?r j" "unat j mod num_items r = unat ?w mod num_items r"
    using that assms live_slot_eq [of ?r j ?w] by (simp add: rb_wf_def)
  then show ?thesis using slot_lt [OF assms]
    by (auto simp: rb_get_alt rb_push_def Let_def nth_list_update ahead_Suc)
qed

text \<open>Storing an item under a live number, and under a number that becomes the newest one.\<close>

lemma rb_get_store:
  assumes "rb_wf r" and live: "ahead w i < num_items r"
  shows "rb_get (r\<lparr>newest := w, items := (items r)[unat i mod num_items r := Some x]\<rparr>) j =
    (if j = i then Some x
     else if ahead w j < num_items r then items r ! (unat j mod num_items r) else None)"
  using assms slot_inj [of "num_items r" w i j] slot_lt [OF assms(1)]
  by (auto simp: rb_get_alt nth_list_update rb_wf_def)

section \<open>Insertion\<close>

lemma slot_minus:
  assumes "rb_wf r"
  shows "unat (j - u16_of (num_items r)) mod num_items r = unat j mod num_items r"
proof -
  have "unat j = unat (j - u16_of (num_items r)) + num_items r
      \<or> unat j + 65536 = unat (j - u16_of (num_items r)) + num_items r"
    using assms u16_sizes [of "num_items r"] unat_u16_lt [of j]
    by (auto simp: seq_arith rb_wf_def)
  moreover have "(unat j + 65536) mod num_items r = unat j mod num_items r"
    using assms by (metis rb_wfD(2) dvd_eq_mod_eq_0 mod_add_right_eq add_0_right)
  ultimately show ?thesis by (metis mod_add_self2)
qed

lemma rb_insert_cases:
  assumes "rb_wf r"
  shows "rb_insert r i x =
    (if live r i then r\<lparr>items := (items r)[unat i mod num_items r := Some x]\<rparr>
     else if ahead i (newest r) < num_items r
     then (let r' = rb_purge (wrapping_range (newest r - (u16_of (num_items r) - 1))
                                (i - (u16_of (num_items r) - 1))) r
           in r'\<lparr>newest := i, items := (items r')[unat i mod num_items r := Some x]\<rparr>)
     else r\<lparr>newest := i, items := (replicate (num_items r) None)[unat i mod num_items r := Some x]\<rparr>)"
  using insert_far [of "num_items r" "newest r" i] insert_near [of "num_items r" "newest r" i]
    rb_wfD [OF assms]
  by (auto simp: rb_insert_def Let_def map_replicate_const)

lemma newest_insert:
  "rb_wf r \<Longrightarrow> newest (rb_insert r i x) = (if live r i then newest r else i)"
  by (simp add: rb_insert_cases Let_def)

lemma purged_slot:
  assumes wf: "rb_wf r" and new: "\<not> live r i" "ahead i (newest r) < num_items r"
    and j: "ahead i j < num_items r"
    and r': "r' = rb_purge (wrapping_range (newest r - (u16_of (num_items r) - 1))
               (i - (u16_of (num_items r) - 1))) r"
  shows "items r' ! (unat j mod num_items r) = rb_get r j"
proof -
  let ?N = "num_items r" and ?w = "newest r"
  let ?n = "u16_of ?N" and ?s = "newest r - (u16_of (num_items r) - 1)"
  note sizes = u16_sizes [OF rb_wfD(1,3) [OF wf]]
  have len: "ahead (i - (?n - 1)) ?s = ahead i ?w" by (simp add: ahead_def)
  have ws: "ahead ?w ?s = ?N - 1" by (simp add: sizes)
  have get': "rb_get r' m = (if ahead m ?s < ahead i ?w then None else rb_get r m)" for m
    using wf by (simp add: r' rb_get_purge set_wrapping_range len)
  have "?w \<noteq> i" using new(1) rb_wfD(1) [OF wf] by auto
  show ?thesis
  proof (cases "live r j")
    case True
    have "ahead i j = ahead i ?w + ahead ?w j"
      using True new ahead_trans [of i ?w j] rb_wfD(3) [OF wf] by simp
    then have "\<not> ahead j ?s < ahead i ?w"
      using ahead_diff' [of ?s j ?w] ahead_diff [of ?w j ?s] True ws j by simp
    then show ?thesis
      using get' [of j] True by (simp add: rb_get_alt r')
  next
    case False
    let ?m = "j - ?n"
    have "ahead j ?m = ?N" by (simp add: sizes)
    have jw: "ahead i j < ahead i ?w"
      using False ahead_diff [of i ?w j] j by (cases "ahead i ?w \<le> ahead i j") auto
    then have "ahead j ?w = ahead i ?w - ahead i j"
      using ahead_diff [of i j ?w] by simp
    then have "ahead ?w ?m = ?N - (ahead i ?w - ahead i j)"
      using ahead_diff [of j ?w ?m] \<open>ahead j ?m = ?N\<close> new by simp
    moreover from this have "ahead ?m ?s = ?N - 1 - (?N - (ahead i ?w - ahead i j))"
      using ahead_diff [of ?w ?m ?s] ws jw new by simp
    ultimately have "live r ?m" "ahead ?m ?s < ahead i ?w"
      using jw new by auto
    then have "items r' ! (unat ?m mod ?N) = None"
      using get' [of ?m] by (simp add: rb_get_alt r')
    then show ?thesis using False slot_minus [OF wf] by (simp add: rb_get_alt)
  qed
qed

lemma rb_get_insert:
  assumes wf: "rb_wf r"
  shows "rb_get (rb_insert r i x) j =
    (if j = i then Some x
     else if live r i \<or> ahead i (newest r) < num_items r \<and> ahead i j < num_items r
     then rb_get r j else None)"
proof (cases "live r i")
  case True
  then show ?thesis
    using rb_get_store [OF wf, of "newest r" i x j] by (simp add: rb_insert_cases [OF wf] rb_get_alt)
next
  case False
  let ?r = "rb_purge (wrapping_range (newest r - (u16_of (num_items r) - 1))
               (i - (u16_of (num_items r) - 1))) r"
  have "?thesis" if "ahead i (newest r) < num_items r"
    using that False wf rb_get_store [of ?r i i x j] purged_slot [OF wf False that, of j ?r]
    by (simp add: rb_insert_cases Let_def rb_wfD(1))
  moreover have "?thesis" if "\<not> ahead i (newest r) < num_items r"
    using that False wf slot_lt [OF wf] slot_inj [of "num_items r" i i j]
    by (auto simp: rb_insert_cases rb_get_alt nth_list_update rb_wf_def)
  ultimately show ?thesis by blast
qed

section \<open>Construction\<close>

lemma dvd_power2: "(n::nat) dvd 2 ^ k \<Longrightarrow> \<exists>j \<le> k. n = 2 ^ j"
proof (induction k arbitrary: n)
  case (Suc k)
  show ?case
  proof (cases "even n")
    case True
    then obtain m where m: "n = 2 * m" by blast
    then obtain j where "j \<le> k" "m = 2 ^ j" using Suc.IH [of m] Suc.prems by auto
    then show ?thesis using m by (intro exI [of _ "Suc j"]) simp
  next
    case False
    then have "coprime n 2" by simp
    then have "n dvd 2 ^ k" using Suc.prems by (simp add: coprime_dvd_mult_right_iff)
    then show ?thesis using Suc.IH [of n] le_Suc_eq by blast
  qed
qed simp

lemma rb_new_Some_iff:
  "rb_new n = Some r \<longleftrightarrow>
   0 < n \<and> n < 65535 \<and> n dvd 65536 \<and> r = \<lparr>newest = u16_MAX, items = replicate n None\<rparr>"
proof -
  have "u16_MAX mod u16_of n = u16_of n - 1 \<longleftrightarrow> n dvd 65536" if n: "0 < n" "n < 65535"
  proof -
    have un: "unat (u16_of n) = n" using n by (simp add: unat_u16_of)
    have "u16_MAX mod u16_of n = u16_of n - 1 \<longleftrightarrow> 65535 mod n = n - 1"
      using n un by (simp add: u16_eq_iff_unat unat_mod unat_u16_sub)
    also have "\<dots> \<longleftrightarrow> n dvd Suc 65535"
      using n mod_Suc [of 65535 n] by (auto simp: dvd_eq_mod_eq_0)
    finally show ?thesis by simp
  qed
  then show ?thesis by (auto simp: rb_new_def)
qed

lemma rb_wf_new: "rb_new n = Some r \<Longrightarrow> n \<le> 8192 \<Longrightarrow> rb_wf r"
  by (auto simp: rb_new_Some_iff rb_wf_def num_items_def)

lemma rb_get_new: "rb_new n = Some r \<Longrightarrow> rb_get r i = None"
  by (auto simp: rb_new_Some_iff rb_get_alt num_items_def)

section \<open>Pushing over the oldest entry\<close>

lemma rb_push_will_override_iff:
  assumes "rb_wf r"
  shows "rb_push_will_override r \<longleftrightarrow> rb_get r (newest r - (u16_of (num_items r) - 1)) \<noteq> None"
proof -
  let ?o = "newest r - (u16_of (num_items r) - 1)"
  have "newest r + 1 - u16_of (num_items r) = ?o" by simp
  then have "unat ?o mod num_items r = unat (newest r + 1) mod num_items r"
    using slot_minus [OF assms, of "newest r + 1"] by metis
  moreover have "live r ?o" using u16_sizes [OF rb_wfD(1,3) [OF assms]] rb_wfD [OF assms] by simp
  ultimately show ?thesis by (simp add: rb_push_will_override_def Let_def rb_get_alt)
qed

lemma rb_get_push_free:
  assumes "rb_wf r" "\<not> rb_push_will_override r"
  shows "rb_get (snd (rb_push r x)) j = (if j = newest r + 1 then Some x else rb_get r j)"
proof (cases "ahead (newest r) j = num_items r - 1")
  case True
  then have "j = newest r - (u16_of (num_items r) - 1)"
    using u16_sizes(2) [OF rb_wfD(1,3) [OF assms(1)]] ahead_cancel [of "newest r"] by simp
  then have "rb_get r j = None" using assms by (simp add: rb_push_will_override_iff)
  then show ?thesis using True by (simp add: rb_get_push [OF assms(1)])
next
  case False
  then have "ahead (newest r) j < num_items r - 1 \<or> \<not> live r j" by linarith
  then show ?thesis using rb_get_not_live [of r j] by (auto simp: rb_get_push [OF assms(1)])
qed

end
