(* ===== verification/RingIter.thy ===== *)
theory RingIter
  imports Ring
begin

text \<open>
  The iterators of \<open>mini_udp/src/ring_buffer.rs\<close> (\<open>Iter\<close>, \<open>IterMut\<close>, \<open>IterValues\<close>,
  \<open>IterValuesMut\<close>, \<open>IterKeys\<close>) with their \<open>size_hint\<close>, and \<open>retain\<close>. All five iterators
  run the same loop over a position and a ring and differ in the part of the entry they
  return. A loop over an iterator is modelled by the list of the items it yields, which is
  the chronological list of the live entries; \<open>retain\<close> is a traversal of that list.
\<close>

section \<open>Iterators\<close>

record 'a rb_iter =
  pos :: u16
  ring_of :: "'a ring"

text \<open>\<open>fn iter\<close> and its four siblings: start at the oldest possible entry.\<close>

definition rb_iter :: "'a ring \<Rightarrow> 'a rb_iter" where
  "rb_iter r = \<lparr>pos = newest r - (u16_of (num_items r) - 1), ring_of = r\<rparr>"

text \<open>The loop of \<open>next\<close>: every number looked at advances the position.\<close>

fun iter_scan :: "u16 list \<Rightarrow> 'a rb_iter \<Rightarrow> (u16 \<times> 'a) option \<times> 'a rb_iter" where
  "iter_scan [] it = (None, it)"
| "iter_scan (i # is) it =
     (let it' = it\<lparr>pos := pos it + 1\<rparr>
      in case rb_get (ring_of it) i of
           Some item \<Rightarrow> (Some (i, item), it')
         | None \<Rightarrow> iter_scan is it')"

definition iter_next :: "'a rb_iter \<Rightarrow> (u16 \<times> 'a) option \<times> 'a rb_iter" where
  "iter_next it = iter_scan (wrapping_range (pos it) (newest (ring_of it) + 1)) it"

definition values_next :: "'a rb_iter \<Rightarrow> 'a option \<times> 'a rb_iter" where
  "values_next it = (case iter_next it of (x, it') \<Rightarrow> (map_option snd x, it'))"

definition keys_next :: "'a rb_iter \<Rightarrow> u16 option \<times> 'a rb_iter" where
  "keys_next it = (case iter_next it of (x, it') \<Rightarrow> (map_option fst x, it'))"

text \<open>\<open>size_hint\<close>; the \<open>saturating_sub\<close> of Rust is subtraction of \<open>nat\<close>.\<close>

definition size_hint :: "'a rb_iter \<Rightarrow> nat \<times> nat option" where
  "size_hint it =
     (let r = ring_of it; len = rb_len r
      in if len = 0 \<or> wrapping_gt (pos it - 1) (newest r) (u16_of (num_items r))
         then (0, Some 0)
         else (let unvisited = unat (newest r - pos it + 1)
               in (len - (num_items r - unvisited), Some (min unvisited len))))"

section \<open>Scanning\<close>

lemma wrapping_range_unfold:
  "wrapping_range s e = (if s = e then [] else s # wrapping_range (s + 1) e)"
proof (cases "s = e")
  case False
  then have "ahead e s = Suc (ahead e (s + 1))"
    using unat_u16_lt [of s] unat_u16_lt [of e]
    by (auto simp: ahead_def seq_arith u16_eq_iff_unat split: if_splits)
  then have "[0..<ahead e s] = 0 # map Suc [0..<ahead e (s + 1)]"
    by (simp add: map_Suc_upt upt_conv_Cons del: upt_Suc)
  then show ?thesis
    using False by (simp add: wrapping_range_def ahead_def [symmetric] Let_def ac_simps)
qed (simp add: wrapping_range_def)

lemma iter_scan_ring [simp]: "ring_of (snd (iter_scan is it)) = ring_of it"
  by (induction "is" it rule: iter_scan.induct) (auto simp: Let_def split: option.splits)

lemma iter_next_ring [simp]: "ring_of (snd (iter_next it)) = ring_of it"
  by (simp add: iter_next_def)

text \<open>One call of \<open>next\<close>: the first live entry at or after the position.\<close>

lemma iter_next_unfold:
  "iter_next it =
    (if pos it = newest (ring_of it) + 1 then (None, it)
     else (case rb_get (ring_of it) (pos it) of
             Some item \<Rightarrow> (Some (pos it, item), it\<lparr>pos := pos it + 1\<rparr>)
           | None \<Rightarrow> iter_next (it\<lparr>pos := pos it + 1\<rparr>)))"
  by (subst iter_next_def, subst wrapping_range_unfold)
     (auto simp: iter_next_def Let_def split: option.splits)

lemma ahead_step: "s \<noteq> e \<Longrightarrow> ahead e (s + 1) < ahead e s"
  using unat_u16_lt [of s] unat_u16_lt [of e]
  by (auto simp: ahead_def seq_arith u16_eq_iff_unat split: if_splits)

lemma iter_next_pos:
  "iter_next it = (Some x, it') \<Longrightarrow>
   ahead (newest (ring_of it) + 1) (pos it') < ahead (newest (ring_of it) + 1) (pos it)"
proof (induction "ahead (newest (ring_of it) + 1) (pos it)" arbitrary: it rule: less_induct)
  case less
  show ?case
  proof (cases "pos it = newest (ring_of it) + 1")
    case True
    then show ?thesis using less.prems by (subst (asm) iter_next_unfold) simp
  next
    case False
    then show ?thesis
      using less.prems less.hyps [of "it\<lparr>pos := pos it + 1\<rparr>"] ahead_step [OF False]
      by (subst (asm) iter_next_unfold) (auto split: option.splits)
  qed
qed

text \<open>At the end \<open>next\<close> leaves the position just after the newest entry.\<close>

lemma iter_next_end: "iter_next it = (None, it') \<Longrightarrow> pos it' = newest (ring_of it) + 1"
proof (induction "ahead (newest (ring_of it) + 1) (pos it)" arbitrary: it rule: less_induct)
  case less
  show ?case
  proof (cases "pos it = newest (ring_of it) + 1")
    case True
    then show ?thesis using less.prems by (subst (asm) iter_next_unfold) simp
  next
    case False
    then show ?thesis
      using less.prems less.hyps [of "it\<lparr>pos := pos it + 1\<rparr>"] ahead_step [OF False]
      by (subst (asm) iter_next_unfold) (auto split: option.splits)
  qed
qed

section \<open>Loops over an iterator\<close>

function iter_collect :: "'a rb_iter \<Rightarrow> (u16 \<times> 'a) list" where
  "iter_collect it =
     (case iter_next it of (None, _) \<Rightarrow> [] | (Some x, it') \<Rightarrow> x # iter_collect it')"
  by pat_completeness auto
termination
proof (relation "measure (\<lambda>it. ahead (newest (ring_of it) + 1) (pos it))", goal_cases)
  case (2 it o' it' x)
  then have "iter_next it = (Some x, it')" by simp
  then show ?case
    using iter_next_pos [of it x it'] iter_next_ring [of it] by simp
qed simp

declare iter_collect.simps [simp del]

text \<open>The entries seen by \<open>for (i, v) in ring.iter()\<close>, and the numbers by \<open>ring.keys()\<close>.\<close>

definition rb_entries :: "'a ring \<Rightarrow> (u16 \<times> 'a) list" where
  "rb_entries r = iter_collect (rb_iter r)"

definition rb_keys :: "'a ring \<Rightarrow> u16 list" where
  "rb_keys r = map fst (rb_entries r)"

definition rb_values :: "'a ring \<Rightarrow> 'a list" where
  "rb_values r = map snd (rb_entries r)"

section \<open>retain\<close>

text \<open>
  The closure may change the item and its captured state \<open>'s\<close>; \<open>None\<close> is a panic inside
  it.
\<close>

fun retain_loop ::
  "(u16 \<Rightarrow> 'a \<Rightarrow> 's \<Rightarrow> (bool \<times> 'a \<times> 's) option) \<Rightarrow> u16 list \<Rightarrow> 'a ring \<Rightarrow> 's \<Rightarrow> ('a ring \<times> 's) option"
where
  "retain_loop f [] r s = Some (r, s)"
| "retain_loop f (index # is) r s =
     (let i = unat (newest r - index); slice_index = unat index mod num_items r
      in if i < num_items r then
           (case items r ! slice_index of
              None \<Rightarrow> retain_loop f is r s
            | Some v \<Rightarrow>
                (case f index v s of
                   None \<Rightarrow> None
                 | Some (keep, v', s') \<Rightarrow>
                     retain_loop f is
                       (r\<lparr>items := (items r)[slice_index := if keep then Some v' else None]\<rparr>) s'))
         else retain_loop f is r s)"

definition rb_retain ::
  "(u16 \<Rightarrow> 'a \<Rightarrow> 's \<Rightarrow> (bool \<times> 'a \<times> 's) option) \<Rightarrow> 'a ring \<Rightarrow> 's \<Rightarrow> ('a ring \<times> 's) option" where
  "rb_retain f r s =
     retain_loop f (wrapping_range (newest r - (u16_of (num_items r) - 1)) (newest r + 1)) r s"

section \<open>What the loops see\<close>

definition live_in :: "'a ring \<Rightarrow> u16 list \<Rightarrow> (u16 \<times> 'a) list" where
  "live_in r is = List.map_filter (\<lambda>i. map_option (Pair i) (rb_get r i)) is"

lemma live_in_simps [simp]:
  "live_in r [] = []"
  "live_in r (i # is) = (case rb_get r i of None \<Rightarrow> live_in r is | Some v \<Rightarrow> (i, v) # live_in r is)"
  by (auto simp: live_in_def List.map_filter_def split: option.splits)

lemma live_in_append [simp]: "live_in r (is @ js) = live_in r is @ live_in r js"
  by (induction "is") (auto split: option.splits)

lemma iter_collect_eq:
  "iter_collect it = live_in (ring_of it) (wrapping_range (pos it) (newest (ring_of it) + 1))"
proof (induction "ahead (newest (ring_of it) + 1) (pos it)" arbitrary: it rule: less_induct)
  case less
  show ?case
  proof (cases "pos it = newest (ring_of it) + 1")
    case True
    then show ?thesis
      by (subst iter_collect.simps, subst iter_next_unfold) (simp add: wrapping_range_unfold)
  next
    case False
    let ?it = "it\<lparr>pos := pos it + 1\<rparr>"
    have IH: "iter_collect ?it = live_in (ring_of it) (wrapping_range (pos it + 1) (newest (ring_of it) + 1))"
      using less.hyps [of ?it] ahead_step [OF False] by simp
    have "iter_collect it =
      (case rb_get (ring_of it) (pos it) of None \<Rightarrow> iter_collect ?it
       | Some v \<Rightarrow> (pos it, v) # iter_collect ?it)"
      using False
      by (subst iter_collect.simps, subst iter_next_unfold)
         (simp add: iter_collect.simps [of ?it] split: option.splits)
    then show ?thesis
      using False by (subst wrapping_range_unfold) (simp add: IH split: option.splits)
  qed
qed

text \<open>The numbers of a ring's window, oldest first.\<close>

definition window :: "'a ring \<Rightarrow> u16 list" where
  "window r = wrapping_range (newest r - (u16_of (num_items r) - 1)) (newest r + 1)"

lemma rb_entries_eq: "rb_entries r = live_in r (window r)"
  by (simp add: rb_entries_def rb_iter_def iter_collect_eq window_def)

lemma rb_keys_eq: "rb_keys r = filter (\<lambda>i. rb_get r i \<noteq> None) (window r)"
proof -
  have "map fst (live_in r is) = filter (\<lambda>i. rb_get r i \<noteq> None) is" for "is"
    by (induction "is") (auto split: option.splits)
  then show ?thesis by (simp add: rb_keys_def rb_entries_eq)
qed

lemma ahead_window:
  assumes "rb_wf r"
  shows "ahead (newest r + 1) (newest r - (u16_of (num_items r) - 1)) = num_items r"
proof -
  have "ahead (newest r + 1) (newest r) = 1" by simp
  moreover have "ahead (newest r) (newest r - (u16_of (num_items r) - 1)) = num_items r - 1"
    using u16_sizes [OF rb_wfD(1,3) [OF assms]] by simp
  ultimately show ?thesis
    using ahead_trans [of "newest r + 1" "newest r" "newest r - (u16_of (num_items r) - 1)"]
      rb_wfD [OF assms] by simp
qed

lemma length_window: "rb_wf r \<Longrightarrow> length (window r) = num_items r"
  by (simp add: window_def ahead_window)

lemma distinct_window: "distinct (window r)"
  by (simp add: window_def distinct_wrapping_range)

lemma set_window:
  assumes "rb_wf r"
  shows "set (window r) = {i. live r i}"
proof -
  let ?s = "newest r - (u16_of (num_items r) - 1)"
  have s: "ahead (newest r) ?s = num_items r - 1"
    using u16_sizes [OF rb_wfD(1,3) [OF assms]] by simp
  have "live r i" if "ahead i ?s < num_items r" for i
  proof -
    have "ahead i ?s \<le> ahead (newest r) ?s" using that s by linarith
    then show ?thesis using s that by (simp add: ahead_diff' [of i ?s "newest r"])
  qed
  moreover have "ahead i ?s < num_items r" if "live r i" for i
  proof -
    have "ahead (newest r) i \<le> ahead (newest r) ?s" using that s by linarith
    then show ?thesis using s that by (simp add: ahead_diff [of "newest r" i ?s])
  qed
  ultimately have "ahead i ?s < num_items r \<longleftrightarrow> live r i" for i by blast
  then show ?thesis
    by (simp add: window_def set_wrapping_range ahead_window [OF assms])
qed

lemma set_rb_keys: "rb_wf r \<Longrightarrow> set (rb_keys r) = {i. rb_get r i \<noteq> None}"
  using rb_get_not_live [of r] by (fastforce simp: rb_keys_eq set_window)

lemma distinct_rb_keys: "distinct (rb_keys r)"
  by (simp add: rb_keys_eq distinct_window)

interpretation ring_window: seq_window rb_wf rb_get newest num_items rb_take rb_keys
  by unfold_locales (simp_all add: set_rb_keys distinct_rb_keys)

lemma map_of_live_in: "map_of (live_in r is) i = (if i \<in> set is then rb_get r i else None)"
  by (induction "is") (auto split: option.splits)

lemma map_of_rb_entries:
  assumes "rb_wf r"
  shows "map_of (rb_entries r) i = rb_get r i"
  using rb_get_not_live [of r i] by (auto simp: rb_entries_eq map_of_live_in set_window [OF assms])

lemma sorted_wrapping_range:
  "sorted_wrt (\<lambda>i j. ahead i s < ahead j s) (wrapping_range s e)"
proof -
  have "ahead (s + word_of_nat i) s < ahead (s + word_of_nat j) s" if "i < j" "j < ahead e s" for i j
    using that ahead_lt [of e s] by (subst (1 2) ahead_plus) simp_all
  then show ?thesis
    by (auto simp: wrapping_range_def ahead_def [symmetric] Let_def sorted_wrt_iff_nth_less)
qed

text \<open>The entries come oldest first.\<close>

lemma sorted_window:
  assumes "rb_wf r"
  shows "sorted_wrt (\<lambda>i j. ahead (newest r) j < ahead (newest r) i) (window r)"
proof -
  let ?s = "newest r - (u16_of (num_items r) - 1)"
  have s: "ahead (newest r) ?s = num_items r - 1"
    using u16_sizes [OF rb_wfD(1,3) [OF assms]] by simp
  have "sorted_wrt (\<lambda>i j. ahead i ?s < ahead j ?s) (window r)"
    by (simp add: window_def sorted_wrapping_range)
  then show ?thesis
  proof (rule sorted_wrt_mono_rel [rotated])
    fix i j assume "i \<in> set (window r)" "j \<in> set (window r)" and lt: "ahead i ?s < ahead j ?s"
    then have "live r i" "live r j" by (simp_all add: set_window [OF assms])
    then show "ahead (newest r) j < ahead (newest r) i"
      using ahead_diff [of "newest r" i ?s] ahead_diff [of "newest r" j ?s] s lt by auto
  qed
qed

lemma sorted_rb_keys:
  "rb_wf r \<Longrightarrow> sorted_wrt (\<lambda>i j. ahead (newest r) j < ahead (newest r) i) (rb_keys r)"
  by (simp add: rb_keys_eq sorted_window sorted_wrt_filter)

section \<open>Counting\<close>

lemma slots_of_live:
  assumes "rb_wf r"
  shows "bij_betw (\<lambda>i. unat i mod num_items r) {i. rb_get r i \<noteq> None}
           {k. k < num_items r \<and> items r ! k \<noteq> None}"
proof (rule bij_betwI')
  fix i j assume "i \<in> {i. rb_get r i \<noteq> None}" "j \<in> {i. rb_get r i \<noteq> None}"
  then show "(unat i mod num_items r = unat j mod num_items r) \<longleftrightarrow> i = j"
    using live_slot_eq [OF assms, of i j] by (auto simp: rb_get_alt split: if_splits)
next
  fix i assume "i \<in> {i. rb_get r i \<noteq> None}"
  then show "unat i mod num_items r \<in> {k. k < num_items r \<and> items r ! k \<noteq> None}"
    using slot_lt [OF assms] by (auto simp: rb_get_alt split: if_splits)
next
  fix k assume k: "k \<in> {k. k < num_items r \<and> items r ! k \<noteq> None}"
  let ?slot = "\<lambda>i. unat i mod num_items r"
  have "inj_on ?slot (set (window r))"
    using live_slot_eq [OF assms] by (auto simp: set_window [OF assms] intro!: inj_onI)
  then have "card (?slot ` set (window r)) = num_items r"
    using length_window [OF assms] by (simp add: card_image distinct_card distinct_window)
  moreover have "?slot ` set (window r) \<subseteq> {..<num_items r}"
    using slot_lt [OF assms] by auto
  ultimately have "?slot ` set (window r) = {..<num_items r}"
    by (simp add: card_subset_eq)
  then obtain i where "i \<in> set (window r)" "k = ?slot i" using k by blast
  then show "\<exists>i\<in>{i. rb_get r i \<noteq> None}. k = ?slot i"
    using k by (auto simp: rb_get_alt set_window [OF assms])
qed

lemma rb_len_card:
  assumes "rb_wf r"
  shows "rb_len r = card {i. rb_get r i \<noteq> None}"
  using bij_betw_same_card [OF slots_of_live [OF assms]]
  by (simp add: rb_len_def length_filter_conv_card)

lemma length_rb_keys: "rb_wf r \<Longrightarrow> length (rb_keys r) = rb_len r"
  using distinct_card [OF distinct_rb_keys, of r] by (simp add: set_rb_keys rb_len_card)

lemma length_rb_entries: "rb_wf r \<Longrightarrow> length (rb_entries r) = rb_len r"
  using length_rb_keys [of r] by (simp add: rb_keys_def)

lemma rb_is_empty_iff: "rb_wf r \<Longrightarrow> rb_is_empty r \<longleftrightarrow> (\<forall>i. rb_get r i = None)"
proof -
  assume wf: "rb_wf r"
  have "finite {i. rb_get r i \<noteq> None}" by simp
  then show ?thesis using rb_len_card [OF wf] by (simp add: rb_is_empty_def card_eq_0_iff)
qed

lemma rb_len_le: "rb_len r \<le> num_items r"
  using length_filter_le [of "\<lambda>i. i \<noteq> None" "items r"] by (simp add: rb_len_def)

section \<open>size hint\<close>

text \<open>The positions an iterator can have: between its start and the end of the window.\<close>

definition iter_wf :: "'a rb_iter \<Rightarrow> bool" where
  "iter_wf it \<longleftrightarrow> rb_wf (ring_of it)
     \<and> ahead (newest (ring_of it) + 1) (pos it) \<le> num_items (ring_of it)"

lemma iter_wf_start: "rb_wf r \<Longrightarrow> iter_wf (rb_iter r)"
  by (simp add: iter_wf_def rb_iter_def ahead_window)

lemma iter_wf_end: "iter_wf it \<Longrightarrow> iter_next it = (None, it') \<Longrightarrow> iter_wf it'"
  using iter_next_end [of it it'] iter_next_ring [of it] by (simp add: iter_wf_def)

lemma iter_wf_next: "iter_wf it \<Longrightarrow> iter_next it = (Some x, it') \<Longrightarrow> iter_wf it'"
  using iter_next_pos [of it x it'] iter_next_ring [of it] by (simp add: iter_wf_def)

lemma window_split:
  assumes "ahead e p \<le> ahead e s"
  shows "wrapping_range s e = wrapping_range s p @ wrapping_range p e"
proof -
  let ?k = "ahead p s"
  have le: "?k \<le> ahead e s" and sub: "ahead e p = ahead e s - ?k"
    using ahead_diff [OF assms] assms by simp_all
  have "wrapping_range s e = map (\<lambda>i. s + word_of_nat i) [0..<?k] @ map (\<lambda>i. s + word_of_nat i) [?k..<ahead e s]"
    using le upt_add_eq_append [of 0 ?k "ahead e s - ?k"]
    by (simp add: wrapping_range_def ahead_def [symmetric] Let_def flip: map_append)
  moreover have "map (\<lambda>i. s + word_of_nat i) [?k..<ahead e s] = wrapping_range p e"
  proof -
    have "[?k..<ahead e s] = map (\<lambda>i. i + ?k) [0..<ahead e p]"
      using le sub by (simp add: map_add_upt)
    moreover have "s + word_of_nat (i + ?k) = p + word_of_nat i" for i
      using plus_ahead [of s p] by (simp add: algebra_simps)
    ultimately show ?thesis
      by (simp add: wrapping_range_def ahead_def [symmetric] Let_def)
  qed
  ultimately show ?thesis by (simp add: wrapping_range_def ahead_def [symmetric] Let_def)
qed

lemma length_live_in_le: "length (live_in r is) \<le> length is"
  by (induction "is") (auto split: option.splits)

lemma size_hint_bounds:
  assumes "iter_wf it"
  shows "fst (size_hint it) \<le> length (iter_collect it)"
    and "\<exists>up. snd (size_hint it) = Some up \<and> length (iter_collect it) \<le> up"
proof -
  let ?r = "ring_of it" and ?p = "pos it"
  let ?e = "newest ?r + 1" and ?s = "newest ?r - (u16_of (num_items ?r) - 1)"
  have wf: "rb_wf ?r" and pos: "ahead ?e ?p \<le> num_items ?r" using assms by (simp_all add: iter_wf_def)
  have es: "ahead ?e ?s = num_items ?r" by (rule ahead_window [OF wf])
  have split: "rb_entries ?r = live_in ?r (wrapping_range ?s ?p) @ iter_collect it"
    using window_split [of ?e ?p ?s] pos es by (simp add: rb_entries_eq window_def iter_collect_eq)
  have len: "rb_len ?r = length (live_in ?r (wrapping_range ?s ?p)) + length (iter_collect it)"
    using length_rb_entries [OF wf] split by simp
  have visited: "length (live_in ?r (wrapping_range ?s ?p)) \<le> num_items ?r - ahead ?e ?p"
    using length_live_in_le [of ?r "wrapping_range ?s ?p"] ahead_diff [of ?e ?p ?s] pos es by simp
  have unvisited: "length (iter_collect it) \<le> ahead ?e ?p"
    using length_live_in_le [of ?r "wrapping_range ?p ?e"] by (simp add: iter_collect_eq)
  have ngt: "\<not> wrapping_gt (?p - 1) (newest ?r) (u16_of (num_items ?r))"
  proof (rule wrapping_gt_not_older)
    have "newest ?r - (?p - 1) = ?e - ?p" by simp
    then show "ahead (newest ?r) (?p - 1) \<le> unat (u16_of (num_items ?r))"
      using pos u16_sizes(1) [OF rb_wfD(1,3) [OF wf]] by (simp only: ahead_def)
    show "unat (u16_of (num_items ?r)) < 32768"
      using rb_wfD [OF wf] u16_sizes [OF rb_wfD(1,3) [OF wf]] by simp
  qed
  have unv: "unat (newest ?r - ?p + 1) = ahead ?e ?p" by (simp add: ahead_def algebra_simps)
  show "fst (size_hint it) \<le> length (iter_collect it)"
    using len visited ngt by (auto simp: size_hint_def Let_def unv)
  show "\<exists>up. snd (size_hint it) = Some up \<and> length (iter_collect it) \<le> up"
    using len unvisited ngt by (auto simp: size_hint_def Let_def unv)
qed

section \<open>retain as a traversal of the entries\<close>

fun retain_list ::
  "(u16 \<Rightarrow> 'a \<Rightarrow> 's \<Rightarrow> (bool \<times> 'a \<times> 's) option) \<Rightarrow> (u16 \<times> 'a) list \<Rightarrow> 's
     \<Rightarrow> ((u16 \<times> 'a) list \<times> 's) option"
where
  "retain_list f [] s = Some ([], s)"
| "retain_list f ((i, v) # es) s =
     (case f i v s of
        None \<Rightarrow> None
      | Some (keep, v', s') \<Rightarrow>
          map_option (\<lambda>(es', s''). (if keep then (i, v') # es' else es', s''))
            (retain_list f es s'))"

lemma rb_get_upd:
  assumes "rb_wf r" "live r i"
  shows "rb_get (r\<lparr>items := (items r)[unat i mod num_items r := x]\<rparr>) j =
    (if j = i then x else rb_get r j)"
  using assms live_slot_eq [OF assms(1), of i j] slot_lt [OF assms(1)]
  by (auto simp: rb_get_alt nth_list_update)

lemma live_in_cong: "(\<And>i. i \<in> set is \<Longrightarrow> rb_get r i = rb_get r' i) \<Longrightarrow> live_in r is = live_in r' is"
  by (induction "is") (auto split: option.splits)

definition same_shape :: "'a ring \<Rightarrow> 'b ring \<Rightarrow> bool" where
  "same_shape r r' \<longleftrightarrow> newest r' = newest r \<and> num_items r' = num_items r"

definition retain_rel ::
  "u16 list \<Rightarrow> 'a ring \<Rightarrow> ('a ring \<times> 's) option \<Rightarrow> ((u16 \<times> 'a) list \<times> 's) option \<Rightarrow> bool" where
  "retain_rel is r x y \<longleftrightarrow>
     (case x of
        None \<Rightarrow> y = None
      | Some (r', s') \<Rightarrow> y = Some (live_in r' is, s') \<and> same_shape r r'
          \<and> (\<forall>j. j \<notin> set is \<longrightarrow> rb_get r' j = rb_get r j))"

lemma retain_loop_list:
  assumes "rb_wf r" "distinct is" "\<forall>i \<in> set is. live r i"
  shows "retain_rel is r (retain_loop f is r s) (retain_list f (live_in r is) s)"
  using assms
proof (induction "is" arbitrary: r s)
  case Nil
  then show ?case by (simp add: retain_rel_def same_shape_def)
next
  case (Cons i "is")
  let ?upd = "\<lambda>x. r\<lparr>items := (items r)[unat i mod num_items r := x]\<rparr>"
  have upd: "rb_get (?upd x) j = (if j = i then x else rb_get r j)" for x j
    using rb_get_upd [of r i] Cons.prems by simp
  have step: "rb_wf (?upd x)" "\<forall>j \<in> set is. live (?upd x) j"
    "live_in (?upd x) is = live_in r is" for x
    using Cons.prems by (auto simp: rb_wf_def upd intro!: live_in_cong)
  have i: "items r ! (unat i mod num_items r) = rb_get r i" "unat (newest r - i) < num_items r"
    using Cons.prems by (simp_all add: rb_get_alt ahead_def)
  have IH: "retain_rel is (?upd x) (retain_loop f is (?upd x) t) (retain_list f (live_in r is) t)" for x t
    using Cons.IH [OF step(1) _ step(2), of x t] Cons.prems step(3) [of x] by simp
  have IH0: "retain_rel is r (retain_loop f is r s) (retain_list f (live_in r is) s)"
    using Cons.IH [of r s] Cons.prems by simp
  show ?case
  proof (cases "rb_get r i")
    case None
    then show ?thesis using IH0 Cons.prems(2)
      by (auto simp: Let_def i retain_rel_def split: option.splits)
  next
    case got: (Some v)
    show ?thesis
    proof (cases "f i v s")
      case None
      then show ?thesis using got by (simp add: Let_def i retain_rel_def)
    next
      case (Some kvt)
      then obtain keep v' t where f: "f i v s = Some (keep, v', t)" by (cases kvt) auto
      let ?x = "if keep then Some v' else None"
      have "retain_loop f (i # is) r s = retain_loop f is (?upd ?x) t"
        using got f by (simp add: Let_def i)
      then show ?thesis
        using IH [of ?x t] got f Cons.prems(2)
        by (auto simp: retain_rel_def upd same_shape_def split: option.splits if_splits)
    qed
  qed
qed

lemma rb_retain_cases:
  assumes "rb_wf r"
  shows "rb_retain f r s = None \<longleftrightarrow> retain_list f (rb_entries r) s = None"
    and "rb_retain f r s = Some (r', s') \<Longrightarrow>
      retain_list f (rb_entries r) s = Some (rb_entries r', s') \<and> same_shape r r'"
proof -
  have w: "distinct (window r)" "\<forall>i \<in> set (window r). live r i"
    by (simp_all add: distinct_window set_window [OF assms])
  show "rb_retain f r s = None \<longleftrightarrow> retain_list f (rb_entries r) s = None"
    using retain_loop_list [OF assms w, of f s]
    by (auto simp: rb_retain_def rb_entries_eq window_def retain_rel_def split: option.splits)
  assume "rb_retain f r s = Some (r', s')"
  then show "retain_list f (rb_entries r) s = Some (rb_entries r', s') \<and> same_shape r r'"
    using retain_loop_list [OF assms w, of f s]
    by (auto simp: rb_retain_def rb_entries_eq window_def retain_rel_def same_shape_def)
qed

lemma same_shape_wf: "same_shape r r' \<Longrightarrow> rb_wf r' \<longleftrightarrow> rb_wf r"
  by (simp add: same_shape_def rb_wf_def)

lemma rb_retain_refines:
  assumes "rb_wf r"
  shows "map_option (\<lambda>(r', s'). (rb_entries r', s')) (rb_retain f r s) = retain_list f (rb_entries r) s"
  using rb_retain_cases [OF assms, of f s] by (cases "rb_retain f r s") auto

end
