(* ===== verification/Window.thy ===== *)
theory Window
  imports RingIter
begin

text \<open>
  Sequence numbers without wrap-around. The specification numbers packets by integers;
  \<open>seq k\<close> is the 16-bit number the code uses for packet \<open>k\<close>. The locale \<open>receive_window\<close>
  is the contract between the cache of received packets and \<open>read_packet\<close> of
  \<open>communicator/inner.rs\<close>: as long as the sender keeps its window (it sends packet \<open>n\<close>
  only when packet \<open>n - 32\<close> was received) and the network does not deliver packets more
  than 95 behind the newest, the two tests of \<open>read_packet\<close> (already in the cache, too
  old) accept exactly the packets that were not received before.
\<close>

section \<open>Numbering\<close>

definition seq :: "int \<Rightarrow> u16" where
  "seq k = word_of_int k"

lemma seq_add: "seq (a + b) = seq a + seq b" "seq (a - b) = seq a - seq b"
  by (simp_all add: seq_def)

lemma seq_numeral [simp]: "seq 0 = 0" "seq 1 = 1" "seq (- 1) = 65535" "seq (numeral w) = numeral w"
  by (simp_all add: seq_def)

lemma seq_nat: "seq (int n) = word_of_nat n"
  by (simp add: seq_def)

lemma ahead_seq: "ahead (seq a) (seq b) = nat ((a - b) mod 65536)"
proof -
  have "unat (word_of_int (a - b) :: u16) = nat ((a - b) mod 2 ^ LENGTH(16))"
    by (simp only: nat_uint_eq [symmetric] uint_word_of_int)
  then show ?thesis by (simp add: ahead_def seq_def)
qed

lemma ahead_seq_diff: "b \<le> a \<Longrightarrow> a - b < 65536 \<Longrightarrow> ahead (seq a) (seq b) = nat (a - b)"
  by (simp add: ahead_seq)

lemma ahead_seq_behind: "a < b \<Longrightarrow> b - a < 65536 \<Longrightarrow> ahead (seq a) (seq b) = nat (65536 - (b - a))"
proof -
  assume "a < b" "b - a < 65536"
  then have "(a - b + 65536) mod 65536 = a - b + 65536" by (intro mod_pos_pos_trivial) auto
  then have "(a - b) mod 65536 = a - b + 65536" by simp
  then show ?thesis by (simp add: ahead_seq)
qed

lemma seq_eq_near:
  assumes eq: "seq a = seq b" and near: "\<bar>a - b\<bar> < 65536"
  shows "a = b"
proof (cases "a \<le> b")
  case True
  then have "nat (b - a) = ahead (seq b) (seq a)" using near by (intro ahead_seq_diff [symmetric]) simp_all
  then show ?thesis using True by (simp add: eq)
next
  case False
  then have "nat (a - b) = ahead (seq a) (seq b)" using near by (intro ahead_seq_diff [symmetric]) simp_all
  then show ?thesis using False by (simp add: eq)
qed

lemma wrapping_gt_seq:
  assumes "0 < d" "d < 32768" "- d \<le> a - b" "a - b \<le> d"
  shows "wrapping_gt (seq a) (seq b) (seq d) \<longleftrightarrow> b < a"
proof -
  have d: "unat (seq d) = nat d" using ahead_seq_diff [of 0 d] assms(1,2) ahead_seq_diff [of d 0]
    by (simp add: ahead_def)
  show ?thesis
  proof (cases "b < a")
    case True
    then show ?thesis using assms d ahead_seq_diff [of b a] by (simp add: wrapping_gt_newer)
  next
    case False
    then show ?thesis using assms d ahead_seq_diff [of a b] by (simp add: wrapping_gt_not_older)
  qed
qed

section \<open>The contract\<close>

locale receive_window = seq_store inv lookup head cap remove
  for inv :: "'r \<Rightarrow> bool" and lookup :: "'r \<Rightarrow> u16 \<Rightarrow> 'a option" and head :: "'r \<Rightarrow> u16"
    and cap :: "'r \<Rightarrow> nat" and remove :: "'r \<Rightarrow> u16 \<Rightarrow> 'a option \<times> 'r" +
  fixes insert_at :: "'r \<Rightarrow> u16 \<Rightarrow> 'a \<Rightarrow> 'r"
  assumes inv_insert: "inv r \<Longrightarrow> inv (insert_at r i x)"
    and cap_insert: "cap (insert_at r i x) = cap r"
    and head_insert: "inv r \<Longrightarrow> head (insert_at r i x) = (if ahead (head r) i < cap r then head r else i)"
    and lookup_insert: "inv r \<Longrightarrow> lookup (insert_at r i x) j =
      (if j = i then Some x
       else if ahead (head r) i < cap r \<or> ahead i (head r) < cap r \<and> ahead i j < cap r
       then lookup r j else None)"
begin

text \<open>
  \<open>tracks r m a\<close>: the cache has seen the packets \<open>k\<close> with \<open>a k \<noteq> None\<close>, the newest of which
  is \<open>m\<close> (\<open>-1\<close> before the first), and everything older than its window has been seen.
\<close>

definition tracks :: "'r \<Rightarrow> int \<Rightarrow> (int \<Rightarrow> 'a option) \<Rightarrow> bool" where
  "tracks r m a \<longleftrightarrow>
     inv r \<and> cap r = 32 \<and> head r = seq m \<and> - 1 \<le> m
   \<and> (\<forall>k. m - 32 < k \<and> k \<le> m \<longrightarrow> lookup r (seq k) = a k)
   \<and> (\<forall>k. a k \<noteq> None \<longrightarrow> 0 \<le> k \<and> k \<le> m) \<and> (\<forall>k. 0 \<le> k \<and> k \<le> m - 32 \<longrightarrow> a k \<noteq> None)"

definition arrives :: "int \<Rightarrow> (int \<Rightarrow> 'a option) \<Rightarrow> int \<Rightarrow> bool" where
  "arrives m a n \<longleftrightarrow>
     0 \<le> n \<and> m - 95 \<le> n \<and> n \<le> m + 32 \<and> (\<forall>k. 0 \<le> k \<and> k \<le> n - 32 \<longrightarrow> a k \<noteq> None)"

lemma tracks_cong:
  assumes "tracks r m a" "inv r'" "cap r' = cap r" "head r' = head r"
    and "\<And>k. m - 32 < k \<Longrightarrow> k \<le> m \<Longrightarrow> lookup r' (seq k) = a' k"
    and "\<And>k. a' k = None \<longleftrightarrow> a k = None"
  shows "tracks r' m a'"
  using assms unfolding tracks_def by simp

lemma lookup_far:
  assumes "tracks r m a" "m - 95 \<le> n" "n \<le> m + 32" "n \<le> m - 32 \<or> m < n"
  shows "lookup r (seq n) = None" "\<not> ahead (head r) (seq n) < cap r"
proof -
  show far: "\<not> ahead (head r) (seq n) < cap r"
    using assms ahead_seq_diff [of n m] ahead_seq_behind [of m n] by (auto simp: tracks_def)
  have "inv r" using assms(1) by (simp add: tracks_def)
  then show "lookup r (seq n) = None" using far lookup_near [of r "seq n"] by blast
qed

lemma accepted_iff:
  assumes "tracks r m a" "arrives m a n"
  shows "lookup r (seq n) \<noteq> None \<or> wrapping_gt (head r - 31) (seq n) 64 \<longleftrightarrow> a n \<noteq> None"
proof -
  have "head r = seq m" "m - 95 \<le> n" "n \<le> m + 32"
    using assms by (simp_all add: tracks_def arrives_def)
  then have gt: "wrapping_gt (head r - 31) (seq n) 64 \<longleftrightarrow> n < m - 31"
    using wrapping_gt_seq [of 64 "m - 31" n] by (simp add: seq_add)
  consider "n \<le> m - 32" | "m - 32 < n" "n \<le> m" | "m < n" by linarith
  then show ?thesis
  proof cases
    case 1
    then show ?thesis using assms gt by (auto simp: tracks_def arrives_def)
  next
    case 2
    then show ?thesis using assms gt by (auto simp: tracks_def)
  next
    case 3
    then have "a n = None" using assms(1) unfolding tracks_def by (meson not_le)
    then show ?thesis using 3 gt assms lookup_far(1) [OF assms(1), of n] by (auto simp: arrives_def)
  qed
qed

lemma tracks_insert:
  assumes t: "tracks r m a" and n: "arrives m a n" "a n = None"
  shows "tracks (insert_at r (seq n) x) (max m n) (a(n \<mapsto> x))"
proof -
  have r: "inv r" "cap r = 32" "head r = seq m" using t by (simp_all add: tracks_def)
  have old: "m - 32 < n"
    using t n by (cases "n \<le> m - 32") (auto simp: tracks_def arrives_def)
  have live: "ahead (head r) (seq n) < cap r \<longleftrightarrow> n \<le> m"
  proof
    assume "ahead (head r) (seq n) < cap r"
    then show "n \<le> m" using lookup_far(2) [OF t, of n] n(1) unfolding arrives_def by linarith
  next
    assume "n \<le> m"
    then show "ahead (head r) (seq n) < cap r" using old ahead_seq_diff [of n m] r by simp
  qed
  have get: "lookup (insert_at r (seq n) x) (seq k) = (a(n \<mapsto> x)) k"
    if k: "max m n - 32 < k" "k \<le> max m n" for k
  proof (cases "k = n")
    case True
    then show ?thesis by (simp add: lookup_insert [OF r(1)])
  next
    case False
    have "\<bar>k - n\<bar> < 65536" using k old n(1) unfolding arrives_def by linarith
    then have ne: "seq k \<noteq> seq n" using seq_eq_near [of k n] False by blast
    show ?thesis
    proof (cases "n \<le> m")
      case True
      then show ?thesis using k ne False live t by (simp add: lookup_insert [OF r(1)] tracks_def)
    next
      case new: False
      have "ahead (seq n) (seq m) = nat (n - m)" "ahead (seq n) (seq k) = nat (n - k)"
        using new k n(1) by (auto simp: arrives_def intro!: ahead_seq_diff)
      then have "lookup (insert_at r (seq n) x) (seq k) = (if n - m < 32 then lookup r (seq k) else None)"
        using ne live new k r by (auto simp: lookup_insert [OF r(1)])
      moreover have "lookup r (seq k) = a k" if "k \<le> m" using that k new t by (simp add: tracks_def)
      moreover have "lookup r (seq k) = None" "a k = None" if "m < k"
      proof -
        show "a k = None" using that t unfolding tracks_def by (meson not_le)
        have "k \<le> m + 32" using k new n(1) unfolding arrives_def by linarith
        then show "lookup r (seq k) = None" using that by (intro lookup_far(1) [OF t]) auto
      qed
      ultimately show ?thesis using False k new by (cases "k \<le> m") auto
    qed
  qed
  have dom: "0 \<le> k \<and> k \<le> max m n" if "(a(n \<mapsto> x)) k \<noteq> None" for k
  proof (cases "k = n")
    case False
    then have "0 \<le> k \<and> k \<le> m" using that t by (simp add: tracks_def)
    then show ?thesis by linarith
  qed (use n(1) in \<open>simp add: arrives_def\<close>)
  have all: "(a(n \<mapsto> x)) k \<noteq> None" if "0 \<le> k" "k \<le> max m n - 32" for k
  proof -
    have "k \<le> m - 32 \<or> k \<le> n - 32" using that(2) by linarith
    then have "a k \<noteq> None" using that(1) t n(1) unfolding tracks_def arrives_def by blast
    then show ?thesis by simp
  qed
  have "head (insert_at r (seq n) x) = seq (max m n)" using live r by (simp add: head_insert max_def)
  moreover have "- 1 \<le> max m n" using n(1) by (auto simp: arrives_def le_max_iff_disj)
  ultimately show ?thesis
    unfolding tracks_def using get dom all r by (simp add: inv_insert cap_insert)
qed

end

interpretation window: receive_window rb_wf rb_get newest num_items rb_take rb_insert
  by unfold_locales (simp_all add: newest_insert rb_get_insert)

end
