(* ===== verification/RingMut.thy ===== *)
theory RingMut
  imports RingIter
begin

text \<open>
  The mutable iterators of \<open>mini_udp/src/ring_buffer.rs\<close>, \<open>IterMut\<close> and \<open>IterValuesMut\<close>. They run
  the loop of the others after a debug assertion, and the item they return is a reference
  through which the caller changes the ring. The unsafe block hands out a reference that
  outlives the borrow of the iterator, which is sound if no item is returned twice.
\<close>

section \<open>The iterators\<close>

text \<open>\<open>debug\<close> is \<open>cfg(debug_assertions)\<close>; \<open>None\<close> is the failed assertion.\<close>

definition iter_mut_assertion :: "'a rb_iter \<Rightarrow> bool" where
  "iter_mut_assertion it \<longleftrightarrow> newest (ring_of it) + 1 - pos it \<le> u16_of (num_items (ring_of it))"

definition rb_iter_mut_next :: "bool \<Rightarrow> 'a rb_iter \<Rightarrow> ((u16 \<times> 'a) option \<times> 'a rb_iter) option" where
  "rb_iter_mut_next debug it = (if debug \<and> \<not> iter_mut_assertion it then None else Some (iter_next it))"

definition rb_values_mut_next :: "bool \<Rightarrow> 'a rb_iter \<Rightarrow> ('a option \<times> 'a rb_iter) option" where
  "rb_values_mut_next debug it = (if debug \<and> \<not> iter_mut_assertion it then None else Some (values_next it))"

text \<open>\<open>for (i, item) in ring.iter_mut() { *item = f(i, item) }\<close>\<close>

function for_each_mut :: "bool \<Rightarrow> (u16 \<Rightarrow> 'a \<Rightarrow> 'a) \<Rightarrow> 'a rb_iter \<Rightarrow> 'a ring option" where
  "for_each_mut debug f it =
     (case rb_iter_mut_next debug it of
        None \<Rightarrow> None
      | Some (None, it') \<Rightarrow> Some (ring_of it')
      | Some (Some (i, item), it') \<Rightarrow>
          for_each_mut debug f (it'\<lparr>ring_of := rb_set (ring_of it') i (f i item)\<rparr>))"
  by pat_completeness auto
termination
proof (relation "measure (\<lambda>(_, _, it). ahead (newest (ring_of it) + 1) (pos it))", goal_cases)
  case (2 debug f it r a it' x i item)
  then have "iter_next it = (Some (i, item), it')" by (auto simp: rb_iter_mut_next_def split: if_splits)
  then show ?case using iter_next_pos [of it "(i, item)" it'] iter_next_ring [of it] by simp
qed simp

declare for_each_mut.simps [simp del]

text \<open>The same loop over \<open>ring.values_mut()\<close>; the number of an item is not visible to its body.\<close>

function for_each_value_mut :: "bool \<Rightarrow> ('a \<Rightarrow> 'a) \<Rightarrow> 'a rb_iter \<Rightarrow> 'a ring option" where
  "for_each_value_mut debug f it =
     (case rb_values_mut_next debug it of
        None \<Rightarrow> None
      | Some (None, it') \<Rightarrow> Some (ring_of it')
      | Some (Some item, it') \<Rightarrow>
          for_each_value_mut debug f (it'\<lparr>ring_of := rb_set (ring_of it') (pos it' - 1) (f item)\<rparr>))"
  by pat_completeness auto
termination
proof (relation "measure (\<lambda>(_, _, it). ahead (newest (ring_of it) + 1) (pos it))", goal_cases)
  case (2 debug f it r a it' item)
  then have "values_next it = (Some item, it')" by (auto simp: rb_values_mut_next_def split: if_splits)
  then obtain i where "iter_next it = (Some (i, item), it')"
    by (auto simp: values_next_def split: prod.splits)
  then show ?case using iter_next_pos [of it "(i, item)" it'] iter_next_ring [of it] by simp
qed simp

declare for_each_value_mut.simps [simp del]

section \<open>The loops\<close>

text \<open>The position after an item is one after its number.\<close>

lemma iter_next_Some_pos: "iter_next it = (Some (i, x), it') \<Longrightarrow> pos it' = i + 1"
proof (induction "ahead (newest (ring_of it) + 1) (pos it)" arbitrary: it rule: less_induct)
  case less
  show ?case
  proof (cases "pos it = newest (ring_of it) + 1")
    case True
    then show ?thesis using less.prems by (subst (asm) iter_next_unfold) simp
  next
    case False
    then show ?thesis
      using less.prems less.hyps [of "it\<lparr>pos := pos it + 1\<rparr>"] ahead_step [OF False]
      by (subst (asm) iter_next_unfold) (auto split: option.splits)
  qed
qed

lemma for_each_value_mut_eq: "for_each_value_mut debug f it = for_each_mut debug (\<lambda>_. f) it"
proof (induction debug "\<lambda>_ :: u16. f" it rule: for_each_mut.induct)
  case (1 debug it)
  obtain o' it' where n: "iter_next it = (o', it')" by (cases "iter_next it")
  show ?case
  proof (cases o')
    case (Some p)
    obtain i x where p: "p = (i, x)" by (cases p)
    have "pos it' - 1 = i" using iter_next_Some_pos [of it i x it'] n Some p by simp
    then show ?thesis
      using 1 n Some p
      by (subst for_each_value_mut.simps, subst for_each_mut.simps)
        (simp add: rb_iter_mut_next_def rb_values_mut_next_def values_next_def)
  next
    case None
    then show ?thesis
      using n by (subst for_each_value_mut.simps, subst for_each_mut.simps)
        (simp add: rb_iter_mut_next_def rb_values_mut_next_def values_next_def)
  qed
qed

lemma iter_mut_assertion_iff:
  assumes "rb_wf (ring_of it)"
  shows "iter_mut_assertion it \<longleftrightarrow> ahead (newest (ring_of it) + 1) (pos it) \<le> num_items (ring_of it)"
  using u16_sizes [OF rb_wfD(1,3) [OF assms]]
  by (simp add: iter_mut_assertion_def ahead_def word_le_nat_alt)

text \<open>A loop from position \<open>s\<close> on changes the live entries from \<open>s\<close> on, each once.\<close>

lemma for_each_mut_spec:
  assumes "rb_wf (ring_of it)" "ahead (newest (ring_of it) + 1) (pos it) \<le> num_items (ring_of it)"
  shows "\<exists>r. for_each_mut debug f it = Some r \<and> rb_wf r \<and> newest r = newest (ring_of it)
    \<and> num_items r = num_items (ring_of it)
    \<and> (\<forall>i. rb_get r i = (if i \<in> set (wrapping_range (pos it) (newest (ring_of it) + 1))
         then map_option (f i) (rb_get (ring_of it) i) else rb_get (ring_of it) i))"
  using assms
proof (induction "ahead (newest (ring_of it) + 1) (pos it)" arbitrary: it rule: less_induct)
  case less
  let ?e = "newest (ring_of it) + 1" and ?next = "it\<lparr>pos := pos it + 1\<rparr>"
  note assertion = iter_mut_assertion_iff [OF less.prems(1)]
  show ?case
  proof (cases "pos it = ?e")
    case True
    then have "for_each_mut debug f it = Some (ring_of it)"
      using less.prems assertion
      by (subst for_each_mut.simps) (simp add: rb_iter_mut_next_def iter_next_unfold [of it])
    moreover have "wrapping_range (pos it) ?e = []" using True wrapping_range_unfold [of ?e ?e] by simp
    ultimately show ?thesis using less.prems by simp
  next
    case False
    have step: "ahead ?e (pos it + 1) < ahead ?e (pos it)" using ahead_step [OF False] by simp
    have range: "set (wrapping_range (pos it) ?e) = insert (pos it) (set (wrapping_range (pos it + 1) ?e))"
      using False by (subst wrapping_range_unfold) simp
    have fresh: "pos it \<notin> set (wrapping_range (pos it + 1) ?e)"
      using distinct_wrapping_range [of "pos it" ?e] False by (subst (asm) wrapping_range_unfold) simp
    show ?thesis
    proof (cases "rb_get (ring_of it) (pos it)")
      case None
      have "for_each_mut debug f it = for_each_mut debug f ?next"
        using less.prems assertion step iter_mut_assertion_iff [of ?next]
        by (subst (1 2) for_each_mut.simps) (simp add: rb_iter_mut_next_def iter_next_unfold [of it] False None)
      then show ?thesis
        using less.hyps [of ?next] less.prems step None by (auto simp: range)
    next
      case (Some x)
      let ?it = "?next\<lparr>ring_of := rb_set (ring_of it) (pos it) (f (pos it) x)\<rparr>"
      have "for_each_mut debug f it = for_each_mut debug f ?it"
        using less.prems assertion
        by (subst for_each_mut.simps) (simp add: rb_iter_mut_next_def iter_next_unfold [of it] False Some)
      then show ?thesis
        using less.hyps [of ?it] less.prems step Some fresh by (auto simp: range rb_get_set)
    qed
  qed
qed

end
