(* ===== verification/RingSpec.thy ===== *)
theory RingSpec
  imports Window RingMut
begin

text \<open>
  What the ring buffer of \<open>mini_udp/src/ring_buffer.rs\<close> guarantees, stated through \<open>get\<close>:
  the effect of every operation on every sequence number, the order in which the iterators
  see the entries, and the comparison of sequence numbers.
\<close>

section \<open>Concrete rings for the witnesses\<close>

definition ring4 :: "nat ring" where
  "ring4 = \<lparr>newest = 65535, items = [None, Some 7, None, Some 9]\<rparr>"

lemma ring4_simps [simp]: "rb_wf ring4" "num_items ring4 = 4" "newest ring4 = 65535"
proof -
  have d: "(4 :: nat) dvd 65536" by simp
  show n: "num_items ring4 = 4" by (simp add: ring4_def num_items_def)
  show "rb_wf ring4" using d unfolding rb_wf_def n by simp
  show "newest ring4 = 65535" by (simp add: ring4_def)
qed

lemma ring4_get: "rb_get ring4 65533 = Some 7" "rb_get ring4 65535 = Some 9"
  by (simp_all add: rb_get_alt ahead_def) (simp_all add: ring4_def)

section \<open>Comparison of sequence numbers\<close>

text \<open>
  C29. \<open>wrapping_gt\<close> compares two numbers the way the unbounded packet numbers behind them
  compare, whenever these are at most \<open>max_dif\<close> apart, also across the wrap-around.
\<close>

theorem wrapping_gt_serial:
  assumes "0 < d" "d < 32768" "\<bar>a - b\<bar> \<le> d"
  shows "wrapping_gt (seq a) (seq b) (seq d) \<longleftrightarrow> b < a"
  using assms by (intro wrapping_gt_seq) linarith+

theorem wrapping_gt_serial_witness:
  "wrapping_gt 3 65530 64 \<and> \<not> wrapping_gt 65530 3 64"
proof -
  have "seq 65539 = 3" "seq 65530 = 65530" "seq 64 = 64" by (simp_all add: seq_def)
  then show ?thesis
    using wrapping_gt_serial [of 64 65539 65530] wrapping_gt_serial [of 64 65530 65539]
    by (simp del: seq_numeral)
qed

text \<open>
  Of two different numbers \<open>wrapping_gt\<close> calls exactly one the greater, for every
  \<open>max_dif\<close>.
\<close>

lemma wrapping_gt_total:
  assumes "x \<noteq> y"
  shows "wrapping_gt x y d \<longleftrightarrow> \<not> wrapping_gt y x d"
  using assms by (auto simp: wrapping_gt_def)

section \<open>Construction\<close>

text \<open>
  The assertions of \<open>Default::default\<close> accept exactly the powers of two below 65535.
\<close>

lemma new_iff_power_of_two:
  "(\<exists>r :: nat ring. rb_new n = Some r) \<longleftrightarrow> (\<exists>k < 16. n = 2 ^ k)"
proof
  assume "\<exists>r :: nat ring. rb_new n = Some r"
  then have n: "n < 65535" "n dvd 2 ^ 16" by (auto simp: rb_new_Some_iff)
  then obtain k where "k \<le> 16" "n = 2 ^ k" using dvd_power2 by blast
  moreover from this have "k \<noteq> 16" using n by auto
  ultimately show "\<exists>k < 16. n = 2 ^ k" by (intro exI [of _ k]) simp
next
  assume "\<exists>k < 16. n = 2 ^ k"
  then obtain k where k: "k < 16" "n = 2 ^ k" by blast
  have "(2 :: nat) ^ k dvd 2 ^ 16" using k(1) by (intro le_imp_power_dvd) simp
  moreover have "(2 :: nat) ^ k \<le> 2 ^ 15" using k(1) by (intro power_increasing) simp_all
  ultimately show "\<exists>r :: nat ring. rb_new n = Some r"
    using k by (simp add: rb_new_Some_iff)
qed

section \<open>The operations through get\<close>

text \<open>
  \<open>push\<close> stores the item under the number after the newest, forgets the number that
  leaves the window, and changes no other number.
\<close>

lemma push_spec:
  assumes "rb_wf r"
  shows "fst (rb_push r x) = rb_newest_index r + 1 \<and> rb_wf (snd (rb_push r x))
    \<and> rb_newest_index (snd (rb_push r x)) = rb_newest_index r + 1
    \<and> (\<forall>j. rb_get (snd (rb_push r x)) j =
          (if j = rb_newest_index r + 1 then Some x
           else if j = rb_newest_index r - (u16_of (num_items r) - 1) then None else rb_get r j))"
proof -
  let ?o = "newest r - (u16_of (num_items r) - 1)"
  have o': "ahead (newest r) ?o = num_items r - 1"
    using u16_sizes(2) [OF rb_wfD(1,3) [OF assms]] by simp
  have oldest: "j = ?o \<longleftrightarrow> ahead (newest r) j = num_items r - 1" for j
    using o' ahead_cancel [of "newest r" j ?o] by auto
  have "rb_get (snd (rb_push r x)) j =
      (if j = newest r + 1 then Some x else if j = ?o then None else rb_get r j)" for j
    using rb_get_push [OF assms, of x j] rb_get_not_live [of r j] oldest [of j] rb_wfD(1) [OF assms]
    by auto
  then show ?thesis using assms by (simp add: rb_newest_index_def)
qed

text \<open>
  C28. \<open>insert\<close> under any number, newer, older or far away: the item is stored; a number
  behind the window so far, or more than a window ahead of it, empties the buffer; a newer
  one slides the window and purges what leaves it; everything else stays.
\<close>

theorem insert_spec:
  assumes "rb_wf r"
  shows "rb_newest_index (rb_insert r i x) =
      (if ahead (rb_newest_index r) i < num_items r then rb_newest_index r else i)
    \<and> rb_wf (rb_insert r i x)
    \<and> (\<forall>j. rb_get (rb_insert r i x) j =
        (if j = i then Some x
         else if ahead (rb_newest_index r) i < num_items r then rb_get r j
         else if ahead i (rb_newest_index r) < num_items r \<and> ahead i j < num_items r then rb_get r j
         else None))"
  using assms by (auto simp: rb_newest_index_def newest_insert rb_get_insert)

theorem insert_spec_witness:
  "rb_get (rb_insert ring4 1 5) 65533 = None \<and> rb_get (rb_insert ring4 1 5) 65535 = Some 9
   \<and> rb_get (rb_insert ring4 100 5) 65535 = None \<and> rb_get (rb_insert ring4 65534 5) 65533 = Some 7"
  using insert_spec [OF ring4_simps(1), of 1 5] insert_spec [OF ring4_simps(1), of 100 5]
    insert_spec [OF ring4_simps(1), of 65534 5] ring4_get
  by (simp add: rb_newest_index_def ahead_def)

text \<open>
  \<open>take\<close> returns what \<open>get\<close> returns and forgets exactly that number; writing through
  \<open>get_mut\<close> changes exactly that number, if it is present.
\<close>

lemma take_set_spec:
  assumes "rb_wf r"
  shows "fst (rb_take r i) = rb_get r i
    \<and> rb_get (snd (rb_take r i)) j = (if j = i then None else rb_get r j)
    \<and> rb_get (rb_set r i x) j = (if j = i \<and> rb_get r i \<noteq> None then Some x else rb_get r j)
    \<and> rb_newest_index (snd (rb_take r i)) = rb_newest_index r"
  using assms by (simp add: fst_rb_take rb_get_take rb_get_set rb_newest_index_def)

text \<open>
  \<open>push_will_override\<close> announces exactly the pushes that forget an entry; after one
  that it does not announce, every entry is still there.
\<close>

lemma push_will_override_spec:
  assumes "rb_wf r"
  shows "rb_push_will_override r \<longleftrightarrow>
    (\<exists>j. rb_get r j \<noteq> None \<and> j \<noteq> rb_next_index r \<and> rb_get (snd (rb_push r x)) j = None)"
proof -
  let ?o = "newest r - (u16_of (num_items r) - 1)"
  have "ahead (newest r) ?o = num_items r - 1"
    using u16_sizes(2) [OF rb_wfD(1,3) [OF assms]] by simp
  then have ne: "?o \<noteq> newest r + 1"
    using rb_wfD(3) [OF assms] ahead_flip [of "newest r + 1" "newest r"] by fastforce
  show ?thesis
  proof
    assume "rb_push_will_override r"
    then have "rb_get r ?o \<noteq> None" using rb_push_will_override_iff [OF assms] by simp
    moreover have "rb_get (snd (rb_push r x)) ?o = None"
      using ne rb_get_push [OF assms, of x ?o] u16_sizes(2) [OF rb_wfD(1,3) [OF assms]] by simp
    ultimately show "\<exists>j. rb_get r j \<noteq> None \<and> j \<noteq> rb_next_index r \<and> rb_get (snd (rb_push r x)) j = None"
      using ne by (auto simp: rb_next_index_def)
  next
    assume "\<exists>j. rb_get r j \<noteq> None \<and> j \<noteq> rb_next_index r \<and> rb_get (snd (rb_push r x)) j = None"
    then obtain j where j: "rb_get r j \<noteq> None" "rb_get (snd (rb_push r x)) j = None" "j \<noteq> newest r + 1"
      by (auto simp: rb_next_index_def)
    show "rb_push_will_override r"
      by (rule ccontr) (use j rb_get_push_free [OF assms, of x j] in simp)
  qed
qed

section \<open>Iteration\<close>

text \<open>
  C31. A loop over the buffer sees every live entry once, oldest first.
\<close>

theorem iteration_spec:
  assumes "rb_wf r"
  shows "map_of (rb_entries r) = rb_get r \<and> distinct (rb_keys r)
    \<and> sorted_wrt (\<lambda>i j. ahead (rb_newest_index r) j < ahead (rb_newest_index r) i) (rb_keys r)
    \<and> length (rb_keys r) = rb_len r"
  using assms
  by (auto simp: map_of_rb_entries distinct_rb_keys sorted_rb_keys rb_newest_index_def length_rb_keys)

theorem iteration_spec_witness: "length (rb_keys ring4) = 2 \<and> map_of (rb_entries ring4) 65533 = Some 7"
  using iteration_spec [OF ring4_simps(1)] ring4_get by (simp add: rb_len_def) (simp add: ring4_def)

text \<open>
  C30. A loop over \<open>iter_mut\<close> or \<open>values_mut\<close> never fails its debug assertion, returns a reference to
  every live entry once, and changes nothing but these entries.
\<close>

theorem mutable_iteration:
  assumes "rb_wf r"
  shows "(\<exists>r'. for_each_mut debug f (rb_iter r) = Some r' \<and> rb_wf r' \<and> rb_newest_index r' = rb_newest_index r
      \<and> (\<forall>i. rb_get r' i = map_option (f i) (rb_get r i)))
    \<and> (\<exists>r'. for_each_value_mut debug g (rb_iter r) = Some r' \<and> (\<forall>i. rb_get r' i = map_option g (rb_get r i)))"
proof -
  have range: "set (wrapping_range (pos (rb_iter r)) (newest r + 1)) = {i. live r i}"
    using set_window [OF assms] by (simp add: window_def rb_iter_def)
  have "ahead (newest (ring_of (rb_iter r)) + 1) (pos (rb_iter r)) \<le> num_items (ring_of (rb_iter r))"
    using ahead_window [OF assms] by (simp add: rb_iter_def)
  then have loop: "\<exists>r'. for_each_mut debug f (rb_iter r) = Some r' \<and> rb_wf r' \<and> newest r' = newest r
      \<and> (\<forall>i. rb_get r' i = map_option (f i) (rb_get r i))" for f
    using for_each_mut_spec [of "rb_iter r" debug f] assms rb_get_not_live [of r] range
    by (fastforce simp: rb_iter_def)
  show ?thesis
    using loop [of f] loop [of "\<lambda>_. g"] by (auto simp: for_each_value_mut_eq rb_newest_index_def)
qed

theorem mutable_iteration_witness:
  "\<exists>r'. for_each_mut True (\<lambda>i x. x + 1) (rb_iter ring4) = Some r' \<and> rb_get r' 65533 = Some 8"
proof -
  obtain r' where "for_each_mut True (\<lambda>i x. x + 1) (rb_iter ring4) = Some r'"
      "\<forall>i. rb_get r' i = map_option (\<lambda>x. x + 1) (rb_get ring4 i)"
    using mutable_iteration [OF ring4_simps(1), of True "\<lambda>i x. x + 1" "\<lambda>x. x"] by blast
  then show ?thesis using ring4_get by simp
qed

text \<open>
  \<open>size_hint\<close> is right at every position of an iterator: it bounds the number of
  entries that \<open>next\<close> still returns from both sides.
\<close>

lemma size_hint_spec:
  assumes "rb_wf r"
    and "\<exists>n. it = ((\<lambda>it. snd (iter_next it)) ^^ n) (rb_iter r)"
  shows "fst (size_hint it) \<le> length (iter_collect it)
    \<and> (\<exists>up. snd (size_hint it) = Some up \<and> length (iter_collect it) \<le> up)"
proof -
  have step: "iter_wf (snd (iter_next it))" if "iter_wf it" for it :: "'a rb_iter"
  proof (cases "iter_next it")
    case (Pair x it')
    show ?thesis
    proof (cases x)
      case None
      then show ?thesis using that iter_wf_end [of it it'] Pair by simp
    qed (use that Pair iter_wf_next in auto)
  qed
  have "iter_wf (((\<lambda>it. snd (iter_next it)) ^^ n) (rb_iter r))" for n
    by (induction n) (simp_all add: iter_wf_start assms(1) step)
  then have "iter_wf it" using assms(2) by blast
  then show ?thesis using size_hint_bounds by blast
qed

section \<open>retain\<close>

text \<open>
  \<open>retain\<close> is the traversal of the list of entries: it calls the closure on each entry
  in order, threads its state, keeps what it keeps, and panics exactly when the closure does.
\<close>

lemma retain_spec:
  assumes "rb_wf r"
  shows "map_option (\<lambda>(r', s'). (rb_entries r', s')) (rb_retain f r s) = retain_list f (rb_entries r) s
    \<and> (\<forall>r' s'. rb_retain f r s = Some (r', s') \<longrightarrow>
          rb_newest_index r' = rb_newest_index r \<and> num_items r' = num_items r)"
  using rb_retain_refines [OF assms, of f s] rb_retain_cases(2) [OF assms, of f s]
  unfolding same_shape_def rb_newest_index_def by blast

text \<open>
  \<open>len\<close> counts the numbers \<open>get\<close> finds, and never exceeds the size of the array.
\<close>

lemma len_spec:
  assumes "rb_wf r"
  shows "rb_len r = card {i. rb_get r i \<noteq> None} \<and> rb_len r \<le> num_items r
    \<and> (rb_is_empty r \<longleftrightarrow> (\<forall>i. rb_get r i = None))"
  using assms by (intro conjI rb_len_card rb_len_le rb_is_empty_iff)

end
