(* ===== verification/ByteRepr.thy ===== *)
theory ByteRepr
  imports Prelude
begin

text \<open>
  \<open>mini_udp/src/byte_repr.rs\<close>: the trait \<open>ByteRepr\<close>, its error type and the two
  extension routines \<open>write_many\<close> and \<open>read_many\<close>. An implementation of the trait is a
  record of its constants and functions; the laws its documentation promises are the
  locale \<open>lawful_repr\<close>, which the derived implementations interpret.
\<close>

section \<open>Outcomes\<close>

datatype byte_repr_error = SliceTooShort | InvalidValue

text \<open>A Rust \<open>Result\<close> whose computation may also panic.\<close>

datatype 'a res = Ok 'a | Err byte_repr_error | Panic

fun res_bind :: "'a res \<Rightarrow> ('a \<Rightarrow> 'b res) \<Rightarrow> 'b res" where
  "res_bind (Ok x) f = f x"
| "res_bind (Err e) f = Err e"
| "res_bind Panic f = Panic"

lemma res_bind_Ok_iff: "res_bind m f = Ok y \<longleftrightarrow> (\<exists>x. m = Ok x \<and> f x = Ok y)"
  by (cases m) auto

lemma res_bind_cong [fundef_cong]:
  "m = m' \<Longrightarrow> (\<And>x. m' = Ok x \<Longrightarrow> f x = f' x) \<Longrightarrow> res_bind m f = res_bind m' f'"
  by (cases m') auto

section \<open>The trait\<close>

text \<open>
  \<open>trait ByteRepr\<close> as a dictionary. \<open>self_type\<close> is the set of values of the implementing
  type (\<open>Self\<close>). \<open>write_to_bytes\<close> returns the changed slice; what a failing write has
  already stored is not kept, since no caller reads it.
\<close>

record 'v byte_repr =
  self_type :: "'v \<Rightarrow> bool"
  min_byte_len :: nat
  max_byte_len :: nat
  byte_len :: "'v \<Rightarrow> nat"
  write_to_bytes :: "'v \<Rightarrow> u8 list \<Rightarrow> u8 list res"
  from_bytes :: "u8 list \<Rightarrow> 'v res"

text \<open>The bytes an implementation writes for a value, read off a buffer of zeros.\<close>

definition encode :: "'v byte_repr \<Rightarrow> 'v \<Rightarrow> u8 list" where
  "encode d x = (case write_to_bytes d x (replicate (byte_len d x) 0) of Ok bs \<Rightarrow> bs | _ \<Rightarrow> [])"

section \<open>write many and read many\<close>

text \<open>
  \<open>fn write_many\<close>: \<open>ptr\<close> and \<open>i\<close> are the local variables; the result is
  \<open>(num_items_written, num_bytes_written)\<close> and the slice.
\<close>

fun write_many_from ::
  "'v byte_repr \<Rightarrow> 'v list \<Rightarrow> u8 list \<Rightarrow> nat \<Rightarrow> nat \<Rightarrow> ((nat \<times> nat) \<times> u8 list) res"
where
  "write_many_from d [] bytes ptr i = Ok ((i, ptr), bytes)"
| "write_many_from d (v # vs) bytes ptr i =
     (if length bytes - ptr < byte_len d v then Ok ((i, ptr), bytes)
      else (case write_to_bytes d v (drop ptr bytes) of
              Ok tail \<Rightarrow>
                write_many_from d vs (take ptr bytes @ tail) (ptr + byte_len d v) (i + 1)
            | Err e \<Rightarrow> Ok ((i, ptr), bytes)
            | Panic \<Rightarrow> Panic))"

definition write_many :: "'v byte_repr \<Rightarrow> 'v list \<Rightarrow> u8 list \<Rightarrow> ((nat \<times> nat) \<times> u8 list) res" where
  "write_many d values bytes = write_many_from d values bytes 0 0"

text \<open>
  \<open>fn read_many\<close>. The loop does not stop when an item is read without advancing, so the
  model returns \<open>None\<close> where the code loops forever.
\<close>

partial_function (option) read_many_from ::
  "'v byte_repr \<Rightarrow> u8 list \<Rightarrow> nat \<Rightarrow> 'v list \<Rightarrow> ('v list \<times> nat) res option"
where
  "read_many_from d bytes ptr out =
     (if length bytes > ptr \<and> length bytes - ptr \<ge> min_byte_len d then
        (case from_bytes d (drop ptr bytes) of
           Ok v \<Rightarrow> read_many_from d bytes (ptr + byte_len d v) (out @ [v])
         | Err e \<Rightarrow> Some (Err e)
         | Panic \<Rightarrow> Some Panic)
      else Some (Ok (out, ptr)))"

definition read_many :: "'v byte_repr \<Rightarrow> u8 list \<Rightarrow> ('v list \<times> nat) res option" where
  "read_many d bytes = read_many_from d bytes 0 []"

section \<open>The laws of an implementation\<close>

text \<open>
  What the documentation of the trait promises: a write into a slice that is long enough
  stores exactly \<open>byte_len\<close> bytes, whatever the slice held; reading them back returns
  the value, whatever follows; and \<open>MIN_BYTE_LEN\<close> is a lower bound.
\<close>

locale lawful_repr =
  fixes d :: "'v byte_repr"
  assumes write_ok: "self_type d x \<Longrightarrow> byte_len d x \<le> length bs \<Longrightarrow>
      write_to_bytes d x bs = Ok (encode d x @ drop (byte_len d x) bs)"
    and encode_length: "self_type d x \<Longrightarrow> length (encode d x) = byte_len d x"
    and read_ok: "self_type d x \<Longrightarrow> from_bytes d (encode d x @ rest) = Ok x"
    and min_le: "self_type d x \<Longrightarrow> min_byte_len d \<le> byte_len d x"
begin

lemma write_many_from_ok:
  assumes "\<forall>x \<in> set xs. self_type d x" "length pre = ptr"
    and "sum_list (map (byte_len d) xs) \<le> length bs"
  shows "write_many_from d xs (pre @ bs) ptr i =
    Ok ((i + length xs, ptr + sum_list (map (byte_len d) xs)),
        pre @ concat (map (encode d) xs) @ drop (sum_list (map (byte_len d) xs)) bs)"
  using assms
proof (induction xs arbitrary: pre bs ptr i)
  case (Cons x xs)
  then show ?case
    using Cons.IH [of "pre @ encode d x" "ptr + byte_len d x" "drop (byte_len d x) bs" "i + 1"]
    by (simp add: write_ok encode_length add.commute)
qed simp

lemma write_many_ok:
  assumes "\<forall>x \<in> set xs. self_type d x" "sum_list (map (byte_len d) xs) \<le> length bs"
  shows "write_many d xs bs =
    Ok ((length xs, sum_list (map (byte_len d) xs)),
        concat (map (encode d) xs) @ drop (sum_list (map (byte_len d) xs)) bs)"
  using write_many_from_ok [of xs "[]" 0 bs 0] assms by (simp add: write_many_def)

lemma read_many_from_ok:
  assumes "\<forall>x \<in> set xs. self_type d x \<and> 0 < byte_len d x" "length pre = ptr"
  shows "read_many_from d (pre @ concat (map (encode d) xs)) ptr out =
    Some (Ok (out @ xs, ptr + sum_list (map (byte_len d) xs)))"
  using assms
proof (induction xs arbitrary: pre ptr out)
  case Nil
  then show ?case by (simp add: read_many_from.simps)
next
  case (Cons x xs)
  have x: "self_type d x" "length (encode d x) = byte_len d x" "min_byte_len d \<le> byte_len d x"
    "0 < byte_len d x"
    using Cons.prems encode_length min_le by auto
  have "read_many_from d (pre @ concat (map (encode d) (x # xs))) ptr out =
    read_many_from d ((pre @ encode d x) @ concat (map (encode d) xs)) (ptr + byte_len d x) (out @ [x])"
    using x Cons.prems(2) read_ok [OF x(1)] by (subst read_many_from.simps) simp
  also have "\<dots> = Some (Ok ((out @ [x]) @ xs, ptr + byte_len d x + sum_list (map (byte_len d) xs)))"
    using Cons.prems x by (intro Cons.IH) auto
  finally show ?case by (simp add: add.assoc)
qed

lemma read_many_ok:
  assumes "\<forall>x \<in> set xs. self_type d x \<and> 0 < byte_len d x"
  shows "read_many d (concat (map (encode d) xs)) = Some (Ok (xs, sum_list (map (byte_len d) xs)))"
  using read_many_from_ok [OF assms, of "[]" 0 "[]"] by (simp add: read_many_def)

end

end
