(* ===== verification/Utf8.thy ===== *)
theory Utf8
  imports Prelude
begin

unbundle bit_operations_syntax

text \<open>
  \<open>String::from_utf8_lossy\<close> of the Rust standard library, which the derived readers call:
  well-formed UTF-8 is kept and each maximal ill-formed piece is replaced by the three
  bytes of U+FFFD. A Rust \<open>String\<close> is modelled by its bytes.
\<close>

section \<open>Decoding one character\<close>

definition utf8_cont :: "u8 \<Rightarrow> bool" where
  "utf8_cont b \<longleftrightarrow> b AND 192 = 128"

definition second_of_3 :: "u8 \<Rightarrow> u8 \<Rightarrow> bool" where
  "second_of_3 b c \<longleftrightarrow>
     (if b = 0xE0 then 0xA0 \<le> c \<and> c \<le> 0xBF
      else if b = 0xED then 0x80 \<le> c \<and> c \<le> 0x9F
      else 0x80 \<le> c \<and> c \<le> 0xBF)"

definition second_of_4 :: "u8 \<Rightarrow> u8 \<Rightarrow> bool" where
  "second_of_4 b c \<longleftrightarrow>
     (if b = 0xF0 then 0x90 \<le> c \<and> c \<le> 0xBF
      else if b = 0xF4 then 0x80 \<le> c \<and> c \<le> 0x8F
      else 0x80 \<le> c \<and> c \<le> 0xBF)"

text \<open>A read past the end gives 0, as in the library's decoder.\<close>

definition byte_or_0 :: "u8 list \<Rightarrow> nat \<Rightarrow> u8" where
  "byte_or_0 bs i = (if i < length bs then bs ! i else 0)"

text \<open>
  The first character: whether it is well-formed, and how many bytes it takes (for an
  ill-formed one, how many bytes one replacement character stands for).
\<close>

fun utf8_step :: "u8 list \<Rightarrow> bool \<times> nat" where
  "utf8_step [] = (False, 0)"
| "utf8_step (b # bs) =
     (if b < 0x80 then (True, 1)
      else if 0xC2 \<le> b \<and> b \<le> 0xDF then
        (if utf8_cont (byte_or_0 bs 0) then (True, 2) else (False, 1))
      else if 0xE0 \<le> b \<and> b \<le> 0xEF then
        (if \<not> second_of_3 b (byte_or_0 bs 0) then (False, 1)
         else if \<not> utf8_cont (byte_or_0 bs 1) then (False, 2)
         else (True, 3))
      else if 0xF0 \<le> b \<and> b \<le> 0xF4 then
        (if \<not> second_of_4 b (byte_or_0 bs 0) then (False, 1)
         else if \<not> utf8_cont (byte_or_0 bs 1) then (False, 2)
         else if \<not> utf8_cont (byte_or_0 bs 2) then (False, 3)
         else (True, 4))
      else (False, 1))"

lemma utf8_step_pos: "bs \<noteq> [] \<Longrightarrow> 0 < snd (utf8_step bs)"
  by (cases bs) auto

lemma utf8_rest_shorter: "(ok, n) = utf8_step bs \<Longrightarrow> bs \<noteq> [] \<Longrightarrow> 0 < n"
  using utf8_step_pos [of bs] by (metis snd_conv)

section \<open>Strings\<close>

definition replacement_char :: "u8 list" where
  "replacement_char = [0xEF, 0xBF, 0xBD]"

function from_utf8_lossy :: "u8 list \<Rightarrow> u8 list" where
  "from_utf8_lossy bs =
     (if bs = [] then []
      else (case utf8_step bs of (ok, n) \<Rightarrow>
        (if ok then take n bs else replacement_char) @ from_utf8_lossy (drop n bs)))"
  by pat_completeness auto
termination
  by (relation "measure length") (auto dest: utf8_rest_shorter)

function valid_utf8 :: "u8 list \<Rightarrow> bool" where
  "valid_utf8 bs =
     (if bs = [] then True
      else (case utf8_step bs of (ok, n) \<Rightarrow> if ok then valid_utf8 (drop n bs) else False))"
  by pat_completeness auto
termination
  by (relation "measure length") (auto dest: utf8_rest_shorter)

declare from_utf8_lossy.simps [simp del] valid_utf8.simps [simp del]

lemma from_utf8_lossy_Nil [simp]: "from_utf8_lossy [] = []"
  by (simp add: from_utf8_lossy.simps)

lemma valid_utf8_Nil [simp]: "valid_utf8 []"
  by (simp add: valid_utf8.simps)

lemma from_utf8_lossy_valid: "valid_utf8 bs \<Longrightarrow> from_utf8_lossy bs = bs"
proof (induction bs rule: valid_utf8.induct)
  case (1 bs)
  show ?case
  proof (cases "bs = []")
    case False
    obtain ok n where s: "utf8_step bs = (ok, n)" by fastforce
    have v: "ok" "valid_utf8 (drop n bs)"
      using "1.prems" False by (simp_all add: valid_utf8.simps [of bs] s split: if_splits)
    then have "from_utf8_lossy (drop n bs) = drop n bs"
      by (rule "1.IH" [OF False s [symmetric]])
    then show ?thesis using v by (subst from_utf8_lossy.simps) (simp add: s)
  qed simp
qed

text \<open>A well-formed character is recognised from its own bytes.\<close>

lemma byte_or_0_simps [simp]:
  "byte_or_0 [] i = 0" "byte_or_0 (b # bs) 0 = b" "byte_or_0 (b # bs) (Suc i) = byte_or_0 bs i"
  by (simp_all add: byte_or_0_def)

lemma not_cont_0 [simp]: "\<not> utf8_cont 0" "\<not> second_of_3 b 0" "\<not> second_of_4 b 0"
  by (auto simp: utf8_cont_def second_of_3_def second_of_4_def)

lemma utf8_step_ok_append:
  assumes "utf8_step bs = (True, n)"
  shows "utf8_step (take n bs @ cs) = (True, n) \<and> n \<le> length bs"
proof -
  obtain b bs1 where bs: "bs = b # bs1" using assms by (cases bs) auto
  have nil: "bs1 = [] \<Longrightarrow> byte_or_0 bs1 i = 0" for i by simp
  show ?thesis
    using assms unfolding bs
    by (cases bs1; cases "tl bs1"; cases "tl (tl bs1)")
       (auto simp: numeral_2_eq_2 numeral_3_eq_3 split: if_splits)
qed

lemma valid_utf8_char: "utf8_step bs = (True, n) \<Longrightarrow> valid_utf8 cs \<Longrightarrow> valid_utf8 (take n bs @ cs)"
  using utf8_step_ok_append [of bs n cs] utf8_step_pos [of bs]
  by (subst valid_utf8.simps) auto

lemma valid_replacement: "valid_utf8 cs \<Longrightarrow> valid_utf8 (replacement_char @ cs)"
  by (subst valid_utf8.simps)
     (simp add: replacement_char_def second_of_3_def utf8_cont_def numeral_3_eq_3)

lemma valid_from_utf8_lossy: "valid_utf8 (from_utf8_lossy bs)"
proof (induction bs rule: from_utf8_lossy.induct)
  case (1 bs)
  show ?case
  proof (cases "bs = []")
    case False
    obtain ok n where s: "utf8_step bs = (ok, n)" by fastforce
    have "valid_utf8 (from_utf8_lossy (drop n bs))"
      by (rule "1.IH" [OF False s [symmetric]])
    then show ?thesis
      using s False valid_utf8_char [of bs n] valid_replacement
      by (subst from_utf8_lossy.simps) simp
  qed simp
qed

end
