(* ===== verification/DeriveData.thy ===== *)
theory DeriveData
  imports ByteRepr Utf8
begin

text \<open>
  \<open>derive/src/data.rs\<close>: how the derive macro lays out one field. Each function of the
  macro emits Rust; the definitions here are the code it emits, run on a slice and the
  local \<open>byte_ptr\<close>. A Rust value is a tree of type \<open>rval\<close>; integers and floats are kept
  as their bit pattern, and a \<open>Cow\<close> as the value it holds. \<open>usize\<close> and \<open>isize\<close> have the
  8 bytes of a 64-bit target.
\<close>

section \<open>Values and field types\<close>

datatype rval =
    RUnit
  | RBool bool
  | RBits nat
  | RStr "u8 list"
  | ROpt "rval option"
  | RList "rval list"
  | RTuple "rval list"
  | REnum nat "rval list"

text \<open>The parts of a value that code of a given type reads.\<close>

fun rbits :: "rval \<Rightarrow> nat" where "rbits (RBits n) = n" | "rbits _ = 0"
fun rbool :: "rval \<Rightarrow> bool" where "rbool (RBool b) = b" | "rbool _ = False"
fun rstr :: "rval \<Rightarrow> u8 list" where "rstr (RStr s) = s" | "rstr _ = []"
fun ropt :: "rval \<Rightarrow> rval option" where "ropt (ROpt x) = x" | "ropt _ = None"
fun rlist :: "rval \<Rightarrow> rval list" where "rlist (RList xs) = xs" | "rlist _ = []"
fun rtuple :: "rval \<Rightarrow> rval list" where "rtuple (RTuple xs) = xs" | "rtuple _ = []"

text \<open>
  \<open>enum Value\<close>: the shape of a field's type, as \<open>Value::from_type\<close> recognises it. A type
  it does not know is delegated to its own implementation of the trait. The macro knows a
  delegated type and the length of an array only as tokens (\<open>DeriveTypes\<close>); in a
  \<open>field_value\<close> they are the implementation and the number these tokens stand for.
\<close>

datatype ('d, 'l) shape =
    VEmptyTuple | VBool | VU8 | VI8 | VU16 | VI16 | VU32 | VI32 | VF32
  | VU64 | VI64 | VF64 | VUSize | VISize | VU128 | VI128
  | VString nat bool
  | VCow "('d, 'l) shape"
  | VOption "('d, 'l) shape"
  | VArray "('d, 'l) shape" 'l
  | VVec "('d, 'l) shape" nat
  | VDelegated 'd

type_synonym field_value = "(rval byte_repr, nat) shape"

text \<open>
  The parts of \<open>Value::length\<close> (struct \<open>ByteLen\<close>): the bytes that are always present,
  and whether any part of the length is unknown (\<open>ByteLen::is_static\<close>).
\<close>

fun fixed_bytes :: "('d, 'l) shape \<Rightarrow> nat" where
  "fixed_bytes VEmptyTuple = 0"
| "fixed_bytes VBool = 1" | "fixed_bytes VU8 = 1" | "fixed_bytes VI8 = 1"
| "fixed_bytes VU16 = 2" | "fixed_bytes VI16 = 2"
| "fixed_bytes VU32 = 4" | "fixed_bytes VI32 = 4" | "fixed_bytes VF32 = 4"
| "fixed_bytes VU64 = 8" | "fixed_bytes VI64 = 8" | "fixed_bytes VF64 = 8"
| "fixed_bytes VUSize = 8" | "fixed_bytes VISize = 8"
| "fixed_bytes VU128 = 16" | "fixed_bytes VI128 = 16"
| "fixed_bytes (VString _ _) = 4"
| "fixed_bytes (VCow v) = fixed_bytes v"
| "fixed_bytes (VOption _) = 1"
| "fixed_bytes (VArray _ _) = 0"
| "fixed_bytes (VVec _ _) = 4"
| "fixed_bytes (VDelegated _) = 0"

fun is_static :: "('d, 'l) shape \<Rightarrow> bool" where
  "is_static (VString _ _) = False"
| "is_static (VCow v) = is_static v"
| "is_static (VOption _) = False"
| "is_static (VArray _ _) = False"
| "is_static (VVec _ _) = False"
| "is_static (VDelegated _) = False"
| "is_static _ = True"

text \<open>
  \<open>ByteLen::as_length\<close>: the length of one value. \<open>impl v\<close> is the trait implementation
  that an element type \<open>v\<close> of an array or a vector has.
\<close>

fun value_len :: "(field_value \<Rightarrow> rval byte_repr) \<Rightarrow> field_value \<Rightarrow> rval \<Rightarrow> nat" where
  "value_len impl (VString _ _) x = 4 + length (rstr x)"
| "value_len impl (VCow v) x = value_len impl v x"
| "value_len impl (VOption v) x =
     1 + (case ropt x of Some inner \<Rightarrow> value_len impl v inner | None \<Rightarrow> 0)"
| "value_len impl (VArray v _) x = 0 + sum_list (map (byte_len (impl v)) (rlist x))"
| "value_len impl (VVec v _) x = 4 + sum_list (map (byte_len (impl v)) (rlist x))"
| "value_len impl (VDelegated d) x = 0 + byte_len d x"
| "value_len impl v x = fixed_bytes v"

text \<open>\<open>ByteLen::as_const_min_length\<close> and \<open>as_const_max_length\<close>.\<close>

fun value_min :: "(field_value \<Rightarrow> rval byte_repr) \<Rightarrow> field_value \<Rightarrow> nat" where
  "value_min impl (VCow v) = value_min impl v"
| "value_min impl (VArray v n) = 0 + min_byte_len (impl v) * n"
| "value_min impl (VDelegated d) = 0 + min_byte_len d"
| "value_min impl v = fixed_bytes v"

fun value_max :: "(field_value \<Rightarrow> rval byte_repr) \<Rightarrow> field_value \<Rightarrow> nat" where
  "value_max impl (VString m _) = 4 + m"
| "value_max impl (VCow v) = value_max impl v"
| "value_max impl (VOption v) = 1 + value_max impl v"
| "value_max impl (VArray v n) = 0 + max_byte_len (impl v) * n"
| "value_max impl (VVec v m) = 4 + m * value_max impl v"
| "value_max impl (VDelegated d) = 0 + max_byte_len d"
| "value_max impl v = fixed_bytes v"

section \<open>Numbers as bytes\<close>

text \<open>\<open>to_le_bytes\<close> of a number of \<open>k\<close> bytes, and \<open>from_le_bytes\<close>.\<close>

fun to_le_bytes :: "nat \<Rightarrow> nat \<Rightarrow> u8 list" where
  "to_le_bytes 0 x = []"
| "to_le_bytes (Suc k) x = word_of_nat (x mod 256) # to_le_bytes k (x div 256)"

fun from_le_bytes :: "u8 list \<Rightarrow> nat" where
  "from_le_bytes [] = 0"
| "from_le_bytes (b # bs) = unat b + 256 * from_le_bytes bs"

lemma length_to_le_bytes [simp]: "length (to_le_bytes k x) = k"
  by (induction k arbitrary: x) auto

lemma from_to_le_bytes: "x < 256 ^ k \<Longrightarrow> from_le_bytes (to_le_bytes k x) = x"
proof (induction k arbitrary: x)
  case (Suc k)
  then have "x div 256 < 256 ^ k" by (simp add: less_mult_imp_div_less mult.commute)
  then have "from_le_bytes (to_le_bytes k (x div 256)) = x div 256" by (rule Suc.IH)
  moreover have "unat (word_of_nat (x mod 256) :: u8) = x mod 256"
    by (simp add: unat_of_nat)
  ultimately show ?case by simp
qed simp

section \<open>Access to the slice\<close>

text \<open>
  \<open>bytes.get(a..a + n).ok_or(SliceTooShort)?\<close>, and \<open>bytes.get_mut(..).ok_or(..)?\<close>
  followed by a store of the source bytes.
\<close>

definition load :: "u8 list \<Rightarrow> nat \<Rightarrow> nat \<Rightarrow> u8 list res" where
  "load bs a n = (if a + n \<le> length bs then Ok (take n (drop a bs)) else Err SliceTooShort)"

definition store :: "u8 list \<Rightarrow> nat \<Rightarrow> u8 list \<Rightarrow> u8 list res" where
  "store bs a src =
     (if a + length src \<le> length bs then Ok (take a bs @ src @ drop (a + length src) bs)
      else Err SliceTooShort)"

text \<open>
  \<open>enum ByteOffset\<close>: a fixed part at a known place, or at \<open>byte_ptr\<close>, which it advances.
\<close>

datatype byte_offset = Static nat | Dynamic

fun get_range :: "byte_offset \<Rightarrow> nat \<Rightarrow> nat \<Rightarrow> nat \<times> nat" where
  "get_range (Static start) len byte_ptr = (start, byte_ptr)"
| "get_range Dynamic len byte_ptr = (byte_ptr, byte_ptr + len)"

section \<open>Writing a field\<close>

type_synonym cursor = "u8 list \<times> nat"

fun is_option :: "('d, 'l) shape \<Rightarrow> bool" where
  "is_option (VOption _) = True" | "is_option _ = False"

fun is_empty_tuple :: "('d, 'l) shape \<Rightarrow> bool" where
  "is_empty_tuple VEmptyTuple = True" | "is_empty_tuple _ = False"

fun is_bool :: "('d, 'l) shape \<Rightarrow> bool" where
  "is_bool VBool = True" | "is_bool _ = False"

fun is_cow :: "('d, 'l) shape \<Rightarrow> bool" where
  "is_cow (VCow _) = True" | "is_cow _ = False"

text \<open>The single byte of a one-byte field; \<open>None\<close> is the \<open>unreachable!()\<close> of the macro.\<close>

fun byte_value :: "field_value \<Rightarrow> rval \<Rightarrow> u8 option" where
  "byte_value VBool x = Some (if rbool x then 1 else 0)"
| "byte_value (VOption _) x = Some (if ropt x \<noteq> None then 1 else 0)"
| "byte_value VU8 x = Some (word_of_nat (rbits x))"
| "byte_value VI8 x = Some (word_of_nat (rbits x))"
| "byte_value _ x = None"

text \<open>The length prefix \<open>(ident.len() as u32)\<close>; \<open>None\<close>: nothing is written here.\<close>

fun len_prefix :: "field_value \<Rightarrow> rval \<Rightarrow> nat option" where
  "len_prefix (VString _ _) x = Some (length (rstr x) mod 2 ^ 32)"
| "len_prefix (VVec _ _) x = Some (length (rlist x) mod 2 ^ 32)"
| "len_prefix _ x = None"

definition write_fixed_part :: "field_value \<Rightarrow> byte_offset \<Rightarrow> rval \<Rightarrow> cursor \<Rightarrow> cursor res" where
  "write_fixed_part v off x c =
     (case c of (bytes, byte_ptr) \<Rightarrow>
      if is_empty_tuple v then Ok (bytes, byte_ptr)
      else if fixed_bytes v = 1 \<or> is_option v then
        (case byte_value v x of
           None \<Rightarrow> Panic
         | Some b \<Rightarrow>
             (case get_range off 1 byte_ptr of (i, byte_ptr') \<Rightarrow>
                res_bind (store bytes i [b]) (\<lambda>bytes'. Ok (bytes', byte_ptr'))))
      else if is_static v then
        (case get_range off (fixed_bytes v) byte_ptr of (i, byte_ptr') \<Rightarrow>
           res_bind (store bytes i (to_le_bytes (fixed_bytes v) (rbits x)))
             (\<lambda>bytes'. Ok (bytes', byte_ptr')))
      else
        (case len_prefix v x of
           None \<Rightarrow> Ok (bytes, byte_ptr)
         | Some len \<Rightarrow>
             (case get_range off 4 byte_ptr of (i, byte_ptr') \<Rightarrow>
                res_bind (store bytes i (to_le_bytes 4 len)) (\<lambda>bytes'. Ok (bytes', byte_ptr')))))"

text \<open>
  \<open>x.write_to_bytes(&mut bytes[byte_ptr..])?; byte_ptr += x.byte_len();\<close> The slice
  expression panics where \<open>byte_ptr\<close> is past the end.
\<close>

definition write_via :: "rval byte_repr \<Rightarrow> rval \<Rightarrow> cursor \<Rightarrow> cursor res" where
  "write_via d x c =
     (case c of (bytes, byte_ptr) \<Rightarrow>
      if byte_ptr \<le> length bytes then
        res_bind (write_to_bytes d x (drop byte_ptr bytes))
          (\<lambda>tail. Ok (take byte_ptr bytes @ tail, byte_ptr + byte_len d x))
      else Panic)"

fun write_items :: "rval byte_repr \<Rightarrow> rval list \<Rightarrow> cursor \<Rightarrow> cursor res" where
  "write_items d [] c = Ok c"
| "write_items d (item # items) c = res_bind (write_via d item c) (write_items d items)"

fun write_variable_part ::
  "(field_value \<Rightarrow> rval byte_repr) \<Rightarrow> field_value \<Rightarrow> byte_offset \<Rightarrow> rval \<Rightarrow> cursor \<Rightarrow> cursor res"
where
  "write_variable_part impl (VDelegated d) off x c = write_via d x c"
| "write_variable_part impl (VString _ _) off x c =
     (case c of (bytes, byte_ptr) \<Rightarrow>
        res_bind (store bytes byte_ptr (rstr x)) (\<lambda>bytes'. Ok (bytes', byte_ptr + length (rstr x))))"
| "write_variable_part impl (VCow v) off x c =
     res_bind (write_fixed_part v off x c) (write_variable_part impl v off x)"
| "write_variable_part impl (VOption v) off x c =
     (case ropt x of
        Some inner \<Rightarrow>
          res_bind (write_fixed_part v Dynamic inner c) (write_variable_part impl v Dynamic inner)
      | None \<Rightarrow> Ok c)"
| "write_variable_part impl (VArray v _) off x c = write_items (impl v) (rlist x) c"
| "write_variable_part impl (VVec v _) off x c = write_items (impl v) (rlist x) c"
| "write_variable_part impl v off x c = Ok c"

section \<open>Reading a field\<close>

text \<open>What \<open>read_fixed_part\<close> binds: the value, the tag of an option, or a length.\<close>

datatype fixed_read = FNothing | FValue rval | FTag bool | FLen nat

definition read_fixed_part :: "field_value \<Rightarrow> byte_offset \<Rightarrow> cursor \<Rightarrow> (fixed_read \<times> nat) res" where
  "read_fixed_part v off c =
     (case c of (bytes, byte_ptr) \<Rightarrow>
      if is_empty_tuple v then Ok (FValue RUnit, byte_ptr)
      else if is_cow v then Ok (FNothing, byte_ptr)
      else if fixed_bytes v = 1 \<or> is_option v then
        (case get_range off 1 byte_ptr of (i, byte_ptr') \<Rightarrow>
           res_bind (load bytes i 1) (\<lambda>bs.
             Ok (if is_option v then FTag (hd bs = 1)
                 else if is_bool v then FValue (RBool (hd bs = 1))
                 else FValue (RBits (unat (hd bs))), byte_ptr')))
      else if is_static v then
        (case get_range off (fixed_bytes v) byte_ptr of (i, byte_ptr') \<Rightarrow>
           res_bind (load bytes i (fixed_bytes v))
             (\<lambda>bs. Ok (FValue (RBits (from_le_bytes bs)), byte_ptr')))
      else if len_prefix v RUnit \<noteq> None then
        (case get_range off 4 byte_ptr of (i, byte_ptr') \<Rightarrow>
           res_bind (load bytes i 4) (\<lambda>bs. Ok (FLen (from_le_bytes bs), byte_ptr')))
      else Ok (FNothing, byte_ptr))"

definition read_via :: "rval byte_repr \<Rightarrow> u8 list \<Rightarrow> nat \<Rightarrow> (rval \<times> nat) res" where
  "read_via d bytes byte_ptr =
     (if byte_ptr \<le> length bytes then
        res_bind (from_bytes d (drop byte_ptr bytes)) (\<lambda>x. Ok (x, byte_ptr + byte_len d x))
      else Panic)"

fun read_items :: "rval byte_repr \<Rightarrow> nat \<Rightarrow> u8 list \<Rightarrow> nat \<Rightarrow> (rval list \<times> nat) res" where
  "read_items d 0 bytes byte_ptr = Ok ([], byte_ptr)"
| "read_items d (Suc n) bytes byte_ptr =
     res_bind (read_via d bytes byte_ptr) (\<lambda>(x, p).
       res_bind (read_items d n bytes p) (\<lambda>(xs, p'). Ok (x # xs, p')))"

fun flen :: "fixed_read \<Rightarrow> nat" where "flen (FLen n) = n" | "flen _ = 0"
fun ftag :: "fixed_read \<Rightarrow> bool" where "ftag (FTag b) = b" | "ftag _ = False"
fun fvalue :: "fixed_read \<Rightarrow> rval" where "fvalue (FValue x) = x" | "fvalue _ = RUnit"

text \<open>
  A string is read by slicing \<open>bytes[byte_ptr..byte_ptr + len]\<close>, which panics where the
  length prefix promises more bytes than the slice has.
\<close>

fun read_variable_part ::
  "(field_value \<Rightarrow> rval byte_repr) \<Rightarrow> field_value \<Rightarrow> byte_offset \<Rightarrow> fixed_read \<Rightarrow> cursor
     \<Rightarrow> (rval \<times> nat) res"
where
  "read_variable_part impl (VDelegated d) off fx c = read_via d (fst c) (snd c)"
| "read_variable_part impl (VString _ _) off fx c =
     (case c of (bytes, byte_ptr) \<Rightarrow>
        if byte_ptr + flen fx \<le> length bytes
        then Ok (RStr (from_utf8_lossy (take (flen fx) (drop byte_ptr bytes))), byte_ptr + flen fx)
        else Panic)"
| "read_variable_part impl (VCow v) off fx c =
     res_bind (read_fixed_part v off c) (\<lambda>(fx', p). read_variable_part impl v off fx' (fst c, p))"
| "read_variable_part impl (VOption v) off fx c =
     (if ftag fx then
        res_bind (read_fixed_part v Dynamic c) (\<lambda>(fx', p).
          res_bind (read_variable_part impl v Dynamic fx' (fst c, p))
            (\<lambda>(inner, p'). Ok (ROpt (Some inner), p')))
      else Ok (ROpt None, snd c))"
| "read_variable_part impl (VArray v n) off fx c =
     res_bind (read_items (impl v) n (fst c) (snd c)) (\<lambda>(xs, p). Ok (RList xs, p))"
| "read_variable_part impl (VVec v _) off fx c =
     res_bind (read_items (impl v) (flen fx) (fst c) (snd c)) (\<lambda>(xs, p). Ok (RList xs, p))"
| "read_variable_part impl v off fx c = Ok (fvalue fx, snd c)"

end
