(* ===== verification/DeriveCodec.thy ===== *)
theory DeriveCodec
  imports DeriveData
begin

text \<open>
  Correctness of the field code of \<open>DeriveData\<close>: the bytes a field consists of (a fixed
  part and a variable part), and that writing stores exactly these bytes at the places the
  macro computes and reading gets the value back from them.
\<close>

section \<open>Types of values\<close>

definition bits_type :: "nat \<Rightarrow> rval \<Rightarrow> bool" where
  "bits_type k x = (case x of RBits n \<Rightarrow> n < 256 ^ k | _ \<Rightarrow> False)"

fun has_type :: "(field_value \<Rightarrow> rval byte_repr) \<Rightarrow> field_value \<Rightarrow> rval \<Rightarrow> bool" where
  "has_type impl VEmptyTuple x = (case x of RUnit \<Rightarrow> True | _ \<Rightarrow> False)"
| "has_type impl VBool x = (case x of RBool _ \<Rightarrow> True | _ \<Rightarrow> False)"
| "has_type impl (VString _ _) x =
     (case x of RStr s \<Rightarrow> valid_utf8 s \<and> length s < 2 ^ 32 | _ \<Rightarrow> False)"
| "has_type impl (VCow v) x = has_type impl v x"
| "has_type impl (VOption v) x =
     (case x of ROpt y \<Rightarrow> (case y of None \<Rightarrow> True | Some z \<Rightarrow> has_type impl v z) | _ \<Rightarrow> False)"
| "has_type impl (VArray v n) x =
     (case x of RList xs \<Rightarrow> length xs = n \<and> list_all (self_type (impl v)) xs | _ \<Rightarrow> False)"
| "has_type impl (VVec v m) x =
     (case x of RList xs \<Rightarrow> length xs < 2 ^ 32 \<and> list_all (self_type (impl v)) xs | _ \<Rightarrow> False)"
| "has_type impl (VDelegated d) x = self_type d x"
| "has_type impl v x = bits_type (fixed_bytes v) x"

text \<open>
  Fields the macro handles: the expansion of a \<open>Cow\<close> around a one-byte type or an option
  stops at \<open>unreachable!()\<close> and one around \<open>()\<close> does not compile; under an option, a
  \<open>Cow\<close> around a type of static size is written twice.
\<close>

fun under_option_ok :: "field_value \<Rightarrow> bool" where
  "under_option_ok (VCow v) \<longleftrightarrow> \<not> is_static v \<and> under_option_ok v"
| "under_option_ok _ \<longleftrightarrow> True"

fun expands :: "field_value \<Rightarrow> bool" where
  "expands (VCow v) \<longleftrightarrow> expands v \<and> fixed_bytes v \<noteq> 1 \<and> \<not> (is_static v \<and> fixed_bytes v = 0)"
| "expands (VOption v) \<longleftrightarrow> expands v"
| "expands _ \<longleftrightarrow> True"

fun field_ok :: "(field_value \<Rightarrow> rval byte_repr) \<Rightarrow> field_value \<Rightarrow> bool" where
  "field_ok impl (VCow v) \<longleftrightarrow> field_ok impl v \<and> expands (VCow v)"
| "field_ok impl (VOption v) \<longleftrightarrow> field_ok impl v \<and> expands (VOption v) \<and> under_option_ok v"
| "field_ok impl (VArray v _) \<longleftrightarrow> lawful_repr (impl v)"
| "field_ok impl (VVec v _) \<longleftrightarrow> lawful_repr (impl v)"
| "field_ok impl (VDelegated d) \<longleftrightarrow> lawful_repr d"
| "field_ok impl _ \<longleftrightarrow> True"

section \<open>The bytes of a field\<close>

fun fixed_enc :: "field_value \<Rightarrow> rval \<Rightarrow> u8 list" where
  "fixed_enc VEmptyTuple x = []"
| "fixed_enc VBool x = [if rbool x then 1 else 0]"
| "fixed_enc (VString _ _) x = to_le_bytes 4 (length (rstr x))"
| "fixed_enc (VVec _ _) x = to_le_bytes 4 (length (rlist x))"
| "fixed_enc (VOption _) x = [if ropt x \<noteq> None then 1 else 0]"
| "fixed_enc (VCow v) x = fixed_enc v x"
| "fixed_enc (VArray _ _) x = []"
| "fixed_enc (VDelegated _) x = []"
| "fixed_enc v x = to_le_bytes (fixed_bytes v) (rbits x)"

definition items_enc :: "rval byte_repr \<Rightarrow> rval list \<Rightarrow> u8 list" where
  "items_enc d xs = concat (map (encode d) xs)"

fun var_enc :: "(field_value \<Rightarrow> rval byte_repr) \<Rightarrow> field_value \<Rightarrow> rval \<Rightarrow> u8 list" where
  "var_enc impl (VString _ _) x = rstr x"
| "var_enc impl (VCow v) x = var_enc impl v x"
| "var_enc impl (VOption v) x =
     (case ropt x of Some y \<Rightarrow> fixed_enc v y @ var_enc impl v y | None \<Rightarrow> [])"
| "var_enc impl (VArray v _) x = items_enc (impl v) (rlist x)"
| "var_enc impl (VVec v _) x = items_enc (impl v) (rlist x)"
| "var_enc impl (VDelegated d) x = encode d x"
| "var_enc impl v x = []"

lemma length_fixed_enc [simp]: "length (fixed_enc v x) = fixed_bytes v"
  by (induction v) auto

lemma length_items_enc:
  assumes "lawful_repr d" "list_all (self_type d) xs"
  shows "length (items_enc d xs) = sum_list (map (byte_len d) xs)"
  using assms(2) by (induction xs) (auto simp: items_enc_def lawful_repr.encode_length [OF assms(1)])

lemma length_enc:
  "field_ok impl v \<Longrightarrow> has_type impl v x \<Longrightarrow>
   value_len impl v x = fixed_bytes v + length (var_enc impl v x)"
  by (induction v arbitrary: x)
     (auto simp: length_items_enc lawful_repr.encode_length split: rval.splits option.splits)

section \<open>Slices as concatenations\<close>

lemma store_segment [simp]:
  "length src = length old \<Longrightarrow> store (pre @ old @ post) (length pre) src = Ok (pre @ src @ post)"
  by (simp add: store_def)

lemma store_tail:
  "length src \<le> length post \<Longrightarrow>
   store (pre @ post) (length pre) src = Ok (pre @ src @ drop (length src) post)"
  by (simp add: store_def)

lemma load_segment [simp]: "load (pre @ seg @ post) (length pre) (length seg) = Ok seg"
  by (simp add: load_def)

lemma load_segment': "length seg = n \<Longrightarrow> load (pre @ seg @ post) (length pre) n = Ok seg"
  by auto

section \<open>Writing\<close>

definition writes_fixed :: "field_value \<Rightarrow> bool" where
  "writes_fixed v \<longleftrightarrow> \<not> (is_cow v \<and> \<not> is_static v)"

lemma static_number:
  "is_static v \<Longrightarrow> fixed_bytes v \<noteq> 0 \<Longrightarrow> fixed_bytes v \<noteq> 1 \<Longrightarrow>
   fixed_enc v x = to_le_bytes (fixed_bytes v) (rbits x)"
  by (induction v) auto

lemma one_byte: "n < 256 \<Longrightarrow> to_le_bytes (Suc 0) n = [word_of_nat n]"
  by simp

lemma write_fixed_static:
  assumes "field_ok impl v" "has_type impl v x" "length f = fixed_bytes v"
  shows "write_fixed_part v (Static (length A)) x (A @ f @ R, p) =
    Ok (A @ (if writes_fixed v then fixed_enc v x else f) @ R, p)"
  using assms static_number [of v x]
  by (cases v)
     (auto simp: write_fixed_part_def writes_fixed_def bits_type_def one_byte split: rval.splits option.splits)

lemma write_fixed_dynamic:
  assumes "field_ok impl v" "under_option_ok v" "has_type impl v x" "fixed_bytes v \<le> length R"
  shows "write_fixed_part v Dynamic x (A @ R, length A) =
    (if is_cow v then Ok (A @ R, length A)
     else Ok (A @ fixed_enc v x @ drop (fixed_bytes v) R, length A + fixed_bytes v))"
  using assms static_number [of v x]
  by (cases v)
     (auto simp: write_fixed_part_def bits_type_def one_byte store_tail split: rval.splits option.splits)

lemma write_via_ok:
  assumes "lawful_repr d" "self_type d x" "byte_len d x \<le> length R"
  shows "write_via d x (A @ R, length A) =
    Ok (A @ encode d x @ drop (byte_len d x) R, length A + length (encode d x))"
  using assms by (simp add: write_via_def lawful_repr.write_ok lawful_repr.encode_length)

lemma write_items_ok:
  assumes "lawful_repr d" "list_all (self_type d) xs" "length (items_enc d xs) \<le> length R"
  shows "write_items d xs (A @ R, length A) =
    Ok (A @ items_enc d xs @ drop (length (items_enc d xs)) R, length A + length (items_enc d xs))"
  using assms(2,3)
proof (induction xs arbitrary: A R)
  case Nil
  then show ?case by (simp add: items_enc_def)
next
  case (Cons x xs)
  have x: "length (encode d x) = byte_len d x"
    using Cons.prems lawful_repr.encode_length [OF assms(1)] by simp
  have "write_items d xs ((A @ encode d x) @ drop (byte_len d x) R, length (A @ encode d x)) =
    Ok ((A @ encode d x) @ items_enc d xs @ drop (length (items_enc d xs)) (drop (byte_len d x) R),
        length (A @ encode d x) + length (items_enc d xs))"
    using Cons.prems x by (intro Cons.IH) (simp_all add: items_enc_def)
  then show ?case
    using Cons.prems x write_via_ok [OF assms(1), of x R A]
    by (simp add: items_enc_def add.commute)
qed

lemma write_variable_leaf:
  assumes "field_ok impl v" "has_type impl v x" "\<not> is_cow v" "\<not> is_option v"
    and "length (var_enc impl v x) \<le> length R"
  shows "write_variable_part impl v off x (A @ R, length A) =
    Ok (A @ var_enc impl v x @ drop (length (var_enc impl v x)) R, length A + length (var_enc impl v x))"
  using assms
  by (cases v)
     (auto simp: store_tail write_items_ok write_via_ok lawful_repr.encode_length split: rval.splits)

lemma write_dynamic_noncow:
  assumes "field_ok impl v" "under_option_ok v" "has_type impl v x" "\<not> is_cow v"
    and "fixed_bytes v + n \<le> length R"
    and var: "\<And>A R. n \<le> length R \<Longrightarrow> write_variable_part impl v Dynamic x (A @ R, length A) =
      Ok (A @ w @ drop n R, length A + n)"
  shows "res_bind (write_fixed_part v Dynamic x (A @ R, length A)) (write_variable_part impl v Dynamic x) =
    Ok (A @ fixed_enc v x @ w @ drop (fixed_bytes v + n) R, length A + fixed_bytes v + n)"
  using write_fixed_dynamic [OF assms(1-3), of R A] assms(4,5)
    var [of "drop (fixed_bytes v) R" "A @ fixed_enc v x"]
  by (simp add: add.commute)

lemma write_dynamic_leaf:
  assumes "field_ok impl v" "under_option_ok v" "has_type impl v x" "\<not> is_cow v" "\<not> is_option v"
    and "fixed_bytes v + length (var_enc impl v x) \<le> length R"
  shows "res_bind (write_fixed_part v Dynamic x (A @ R, length A)) (write_variable_part impl v Dynamic x) =
    Ok (A @ fixed_enc v x @ var_enc impl v x @ drop (fixed_bytes v + length (var_enc impl v x)) R,
        length A + fixed_bytes v + length (var_enc impl v x))"
  using assms by (intro write_dynamic_noncow write_variable_leaf) simp_all

text \<open>A field under an option: both parts are written at \<open>byte_ptr\<close>.\<close>

lemma write_dynamic:
  assumes "field_ok impl v" "under_option_ok v" "has_type impl v x"
    and "fixed_bytes v + length (var_enc impl v x) \<le> length R"
  shows "res_bind (write_fixed_part v Dynamic x (A @ R, length A)) (write_variable_part impl v Dynamic x) =
    Ok (A @ fixed_enc v x @ var_enc impl v x @ drop (fixed_bytes v + length (var_enc impl v x)) R,
        length A + fixed_bytes v + length (var_enc impl v x))"
  using assms
proof (induction v arbitrary: x A R)
  case (VCow v)
  then show ?case using write_fixed_dynamic [of impl "VCow v" x R A] by simp
next
  case (VOption v)
  show ?case
  proof (rule write_dynamic_noncow [OF VOption.prems(1-3)])
    fix A R :: "u8 list" assume R: "length (var_enc impl (VOption v) x) \<le> length R"
    show "write_variable_part impl (VOption v) Dynamic x (A @ R, length A) =
        Ok (A @ var_enc impl (VOption v) x @ drop (length (var_enc impl (VOption v) x)) R,
            length A + length (var_enc impl (VOption v) x))"
    proof (cases "ropt x")
      case (Some y)
      then have "has_type impl v y" using VOption.prems(3) by (cases x) auto
      then show ?thesis
        using VOption.IH [of y R A] VOption.prems Some R by (simp add: add.assoc)
    qed simp
  qed (use VOption.prems in simp_all)
qed (rule write_dynamic_leaf; simp)+

lemma write_variable_noncow:
  assumes "field_ok impl v" "has_type impl v x" "\<not> is_cow v"
    and "length (var_enc impl v x) \<le> length R"
  shows "write_variable_part impl v off x (A @ R, length A) =
    Ok (A @ var_enc impl v x @ drop (length (var_enc impl v x)) R, length A + length (var_enc impl v x))"
proof (cases "is_option v")
  case False
  with assms show ?thesis by (intro write_variable_leaf)
next
  case True
  then obtain w where v: "v = VOption w" by (cases v) auto
  show ?thesis
  proof (cases "ropt x")
    case (Some y)
    then have "has_type impl w y" using v assms(2) by (cases x) auto
    then show ?thesis
      using write_dynamic [of impl w y R A] v assms Some by (simp add: add.assoc)
  qed (simp add: v)
qed

lemma write_variable_static_noncow:
  assumes "field_ok impl v" "has_type impl v x" "\<not> is_cow v" "f = fixed_enc v x"
    and "length (var_enc impl v x) \<le> length R" "p = length (A @ f @ B)"
  shows "write_variable_part impl v (Static (length A)) x (A @ f @ B @ R, p) =
    Ok (A @ fixed_enc v x @ B @ var_enc impl v x @ drop (length (var_enc impl v x)) R,
        p + length (var_enc impl v x))"
  using write_variable_noncow [OF assms(1-3,5), of "Static (length A)" "A @ f @ B"] assms(4,6)
  by simp

text \<open>
  A field at a known place: its fixed part is written there, after the fields before it
  (\<open>A\<close>) and before the rest of the fixed block and the variable parts so far (\<open>B\<close>).
\<close>

lemma write_variable_static:
  assumes "field_ok impl v" "has_type impl v x" "length f = fixed_bytes v"
    and "\<not> is_cow v \<Longrightarrow> f = fixed_enc v x"
    and "length (var_enc impl v x) \<le> length R" "p = length (A @ f @ B)"
  shows "write_variable_part impl v (Static (length A)) x (A @ f @ B @ R, p) =
    Ok (A @ fixed_enc v x @ B @ var_enc impl v x @ drop (length (var_enc impl v x)) R,
        p + length (var_enc impl v x))"
  using assms
proof (induction v arbitrary: f)
  case (VCow w)
  let ?f = "if writes_fixed w then fixed_enc w x else f"
  have "write_fixed_part w (Static (length A)) x (A @ f @ B @ R, p) = Ok (A @ ?f @ B @ R, p)"
    using write_fixed_static [of impl w x f A "B @ R" p] VCow.prems by simp
  moreover have "write_variable_part impl w (Static (length A)) x (A @ ?f @ B @ R, p) =
    Ok (A @ fixed_enc w x @ B @ var_enc impl w x @ drop (length (var_enc impl w x)) R,
      p + length (var_enc impl w x))"
  proof (rule VCow.IH)
    show "?f = fixed_enc w x" if "\<not> is_cow w" using that by (simp add: writes_fixed_def)
  qed (use VCow.prems in auto)
  ultimately show ?case by simp
qed (rule write_variable_static_noncow; simp)+

section \<open>Reading\<close>

fun fixval :: "field_value \<Rightarrow> rval \<Rightarrow> fixed_read" where
  "fixval (VCow v) x = FNothing"
| "fixval (VOption v) x = FTag (ropt x \<noteq> None)"
| "fixval (VString _ _) x = FLen (length (rstr x))"
| "fixval (VVec _ _) x = FLen (length (rlist x))"
| "fixval (VArray _ _) x = FNothing"
| "fixval (VDelegated _) x = FNothing"
| "fixval v x = FValue x"

lemma load_byte [simp]: "load (A @ b # R) (length A) (Suc 0) = Ok [b]"
  by (simp add: load_def)

lemma load_number [simp]: "load (A @ to_le_bytes k n @ R) (length A) k = Ok (to_le_bytes k n)"
  using load_segment' [of "to_le_bytes k n" k A R] by simp

lemma read_fixed_static:
  assumes "has_type impl v x"
  shows "read_fixed_part v (Static (length A)) (A @ fixed_enc v x @ R, p) = Ok (fixval v x, p)"
  using assms
  by (cases v)
     (auto simp: read_fixed_part_def bits_type_def one_byte from_to_le_bytes unat_of_nat
           simp del: to_le_bytes.simps split: rval.splits)

lemma read_fixed_dynamic:
  assumes "has_type impl v x"
  shows "read_fixed_part v Dynamic (A @ fixed_enc v x @ R, length A) =
    Ok (fixval v x, length A + (if is_cow v then 0 else fixed_bytes v))"
  using assms
  by (cases v)
     (auto simp: read_fixed_part_def bits_type_def one_byte from_to_le_bytes unat_of_nat
           simp del: to_le_bytes.simps split: rval.splits)

lemma read_via_ok:
  assumes "lawful_repr d" "self_type d x"
  shows "read_via d (A @ encode d x @ R) (length A) = Ok (x, length A + length (encode d x))"
  using assms by (simp add: read_via_def lawful_repr.read_ok lawful_repr.encode_length)

lemma read_items_ok:
  assumes "lawful_repr d" "list_all (self_type d) xs"
  shows "read_items d (length xs) (A @ items_enc d xs @ R) (length A) =
    Ok (xs, length A + length (items_enc d xs))"
  using assms(2)
proof (induction xs arbitrary: A)
  case Nil
  then show ?case by (simp add: items_enc_def)
next
  case (Cons x xs)
  then have "read_items d (length xs) ((A @ encode d x) @ items_enc d xs @ R) (length (A @ encode d x)) =
    Ok (xs, length (A @ encode d x) + length (items_enc d xs))"
    by (intro Cons.IH) simp
  then show ?case
    using Cons.prems read_via_ok [OF assms(1), of x A "items_enc d xs @ R"]
    by (simp add: items_enc_def add.assoc)
qed

lemma read_variable_leaf:
  assumes "field_ok impl v" "has_type impl v x" "\<not> is_cow v" "\<not> is_option v"
  shows "read_variable_part impl v off (fixval v x) (A @ var_enc impl v x @ R, length A) =
    Ok (x, length A + length (var_enc impl v x))"
  using assms
  by (cases v)
     (auto simp: read_via_ok read_items_ok from_utf8_lossy_valid bits_type_def split: rval.splits)

lemma read_dynamic_leaf:
  assumes "field_ok impl v" "has_type impl v x" "\<not> is_cow v" "\<not> is_option v"
  shows "res_bind (read_fixed_part v Dynamic (A @ fixed_enc v x @ var_enc impl v x @ R, length A))
      (\<lambda>(fx, p). read_variable_part impl v Dynamic fx (A @ fixed_enc v x @ var_enc impl v x @ R, p)) =
    Ok (x, length A + fixed_bytes v + length (var_enc impl v x))"
  using read_fixed_dynamic [OF assms(2), of A "var_enc impl v x @ R"]
    read_variable_leaf [OF assms, of Dynamic "A @ fixed_enc v x" R] assms(3)
  by simp

text \<open>A field under an option: both parts are read at \<open>byte_ptr\<close>.\<close>

lemma read_dynamic:
  assumes "field_ok impl v" "has_type impl v x"
  shows "res_bind (read_fixed_part v Dynamic (A @ fixed_enc v x @ var_enc impl v x @ R, length A))
      (\<lambda>(fx, p). read_variable_part impl v Dynamic fx (A @ fixed_enc v x @ var_enc impl v x @ R, p)) =
    Ok (x, length A + fixed_bytes v + length (var_enc impl v x))"
  using assms
proof (induction v arbitrary: x A R)
  case (VCow v)
  then show ?case using read_fixed_dynamic [of impl "VCow v" x A] by simp
next
  case (VOption v)
  let ?tag = "fixed_enc (VOption v) x"
  note fixed = read_fixed_dynamic [OF VOption.prems(2), of A]
  show ?case
  proof (cases "ropt x")
    case None
    then show ?thesis using fixed VOption.prems by (auto split: rval.splits option.splits)
  next
    case (Some y)
    then have "has_type impl v y" and x: "x = ROpt (Some y)" using VOption.prems(2) by (cases x; simp)+
    then have "res_bind (read_fixed_part v Dynamic
          ((A @ ?tag) @ fixed_enc v y @ var_enc impl v y @ R, length (A @ ?tag)))
        (\<lambda>(fx, p). read_variable_part impl v Dynamic fx
          ((A @ ?tag) @ fixed_enc v y @ var_enc impl v y @ R, p)) =
      Ok (y, length (A @ ?tag) + fixed_bytes v + length (var_enc impl v y))"
      using VOption.prems by (intro VOption.IH) auto
    then show ?thesis using fixed Some x
      by (auto simp: res_bind_Ok_iff)
  qed
qed (rule read_dynamic_leaf; simp)+

lemma read_variable_noncow:
  assumes "field_ok impl v" "has_type impl v x" "\<not> is_cow v"
  shows "read_variable_part impl v off (fixval v x) (A @ var_enc impl v x @ R, length A) =
    Ok (x, length A + length (var_enc impl v x))"
proof (cases "is_option v")
  case False
  with assms show ?thesis by (intro read_variable_leaf)
next
  case True
  then obtain w where v: "v = VOption w" by (cases v) auto
  then obtain o' where x: "x = ROpt o'" using assms(2) by (cases x) auto
  show ?thesis
  proof (cases o')
    case (Some y)
    then have "has_type impl w y" using v x assms(2) by simp
    then show ?thesis
      using read_dynamic [of impl w y A R] v x assms Some
      by (auto simp: res_bind_Ok_iff)
  qed (simp add: v x)
qed

lemma read_variable_static_noncow:
  assumes "field_ok impl v" "has_type impl v x" "\<not> is_cow v"
    and "p = length (A @ fixed_enc v x @ B)"
  shows "read_variable_part impl v (Static (length A)) (fixval v x)
      (A @ fixed_enc v x @ B @ var_enc impl v x @ R, p) =
    Ok (x, p + length (var_enc impl v x))"
  using read_variable_noncow [OF assms(1-3), of "Static (length A)" "A @ fixed_enc v x @ B" R] assms(4)
  by simp

text \<open>A field at a known place, read back from where \<open>write_variable_static\<close> put it.\<close>

lemma read_variable_static:
  assumes "field_ok impl v" "has_type impl v x" "p = length (A @ fixed_enc v x @ B)"
  shows "read_variable_part impl v (Static (length A)) (fixval v x)
      (A @ fixed_enc v x @ B @ var_enc impl v x @ R, p) =
    Ok (x, p + length (var_enc impl v x))"
  using assms
proof (induction v)
  case (VCow w)
  then show ?case
    using read_fixed_static [of impl w x A "B @ var_enc impl w x @ R" p] by simp
qed (rule read_variable_static_noncow; simp)+

end
