(* ===== verification/DeriveGroup.thy ===== *)
theory DeriveGroup
  imports DeriveCodec
begin

text \<open>
  \<open>derive/src/data_group.rs\<close> and \<open>derive/src/lib.rs\<close>: the fields of a struct or of an enum
  variant as a group (all fixed parts first, at offsets computed by the macro, then the
  variable parts one after the other), and the trait implementations the macros produce
  for structs, enums and the standard types. Enums have at most 256 variants: for more, the
  code the macro emits to access the tag does not compile.
\<close>

section \<open>Groups of fields\<close>

text \<open>
  \<open>Field::new\<close> over the fields of a group: the offset in \<open>Context\<close> grows by the fixed bytes
  of each field.
\<close>

fun make_fields :: "nat \<Rightarrow> field_value list \<Rightarrow> (byte_offset \<times> field_value) list" where
  "make_fields offset [] = []"
| "make_fields offset (v # vs) = (Static offset, v) # make_fields (offset + fixed_bytes v) vs"

definition group_fixed_bytes :: "nat \<Rightarrow> field_value list \<Rightarrow> nat" where
  "group_fixed_bytes offset vs = offset + sum_list (map fixed_bytes vs)"

fun write_fixed_all :: "(byte_offset \<times> field_value) list \<Rightarrow> rval list \<Rightarrow> cursor \<Rightarrow> cursor res" where
  "write_fixed_all ((off, v) # fs) (x # xs) c =
     res_bind (write_fixed_part v off x c) (write_fixed_all fs xs)"
| "write_fixed_all _ _ c = Ok c"

fun write_variable_all ::
  "(field_value \<Rightarrow> rval byte_repr) \<Rightarrow> (byte_offset \<times> field_value) list \<Rightarrow> rval list \<Rightarrow> cursor \<Rightarrow> cursor res"
where
  "write_variable_all impl ((off, v) # fs) (x # xs) c =
     res_bind (write_variable_part impl v off x c) (write_variable_all impl fs xs)"
| "write_variable_all impl _ _ c = Ok c"

text \<open>\<open>Fields::write\<close> with the context starting at \<open>offset\<close>.\<close>

definition group_write ::
  "(field_value \<Rightarrow> rval byte_repr) \<Rightarrow> nat \<Rightarrow> field_value list \<Rightarrow> rval list \<Rightarrow> u8 list \<Rightarrow> u8 list res" where
  "group_write impl offset vs xs bytes =
     (let fs = make_fields offset vs
      in res_bind (write_fixed_all fs xs (bytes, 0)) (\<lambda>(bytes', _).
           res_bind (write_variable_all impl fs xs (bytes', group_fixed_bytes offset vs))
             (\<lambda>(bytes'', _). Ok bytes'')))"

fun read_fixed_all :: "(byte_offset \<times> field_value) list \<Rightarrow> u8 list \<Rightarrow> fixed_read list res" where
  "read_fixed_all [] bytes = Ok []"
| "read_fixed_all ((off, v) # fs) bytes =
     res_bind (read_fixed_part v off (bytes, 0)) (\<lambda>(fx, _).
       res_bind (read_fixed_all fs bytes) (\<lambda>fxs. Ok (fx # fxs)))"

fun read_variable_all ::
  "(field_value \<Rightarrow> rval byte_repr) \<Rightarrow> (byte_offset \<times> field_value) list \<Rightarrow> fixed_read list \<Rightarrow> cursor
     \<Rightarrow> rval list res"
where
  "read_variable_all impl ((off, v) # fs) (fx # fxs) c =
     res_bind (read_variable_part impl v off fx c) (\<lambda>(x, p).
       res_bind (read_variable_all impl fs fxs (fst c, p)) (\<lambda>xs. Ok (x # xs)))"
| "read_variable_all impl _ _ c = Ok []"

text \<open>\<open>Fields::read\<close>.\<close>

definition group_read ::
  "(field_value \<Rightarrow> rval byte_repr) \<Rightarrow> nat \<Rightarrow> field_value list \<Rightarrow> u8 list \<Rightarrow> rval list res" where
  "group_read impl offset vs bytes =
     (let fs = make_fields offset vs
      in res_bind (read_fixed_all fs bytes) (\<lambda>fxs.
           read_variable_all impl fs fxs (bytes, group_fixed_bytes offset vs)))"

text \<open>\<open>Fields::length\<close>: the lengths of the fields added up.\<close>

definition group_len :: "(field_value \<Rightarrow> rval byte_repr) \<Rightarrow> field_value list \<Rightarrow> rval list \<Rightarrow> nat" where
  "group_len impl vs xs = sum_list (map2 (value_len impl) vs xs)"

definition group_min :: "(field_value \<Rightarrow> rval byte_repr) \<Rightarrow> field_value list \<Rightarrow> nat" where
  "group_min impl vs = sum_list (map (value_min impl) vs)"

definition group_max :: "(field_value \<Rightarrow> rval byte_repr) \<Rightarrow> field_value list \<Rightarrow> nat" where
  "group_max impl vs = sum_list (map (value_max impl) vs)"

definition group_static :: "field_value list \<Rightarrow> bool" where
  "group_static vs \<longleftrightarrow> list_all is_static vs"

section \<open>Structs\<close>

text \<open>\<open>fn impl_for_struct\<close>; unit structs are groups without fields.\<close>

definition struct_repr :: "(field_value \<Rightarrow> rval byte_repr) \<Rightarrow> field_value list \<Rightarrow> rval byte_repr" where
  "struct_repr impl vs =
     \<lparr>self_type = (\<lambda>x. case x of RTuple xs \<Rightarrow> list_all2 (has_type impl) vs xs | _ \<Rightarrow> False),
      min_byte_len = group_min impl vs,
      max_byte_len = group_max impl vs,
      byte_len = (\<lambda>x. group_len impl vs (rtuple x)),
      write_to_bytes = (\<lambda>x bytes. group_write impl 0 vs (rtuple x) bytes),
      from_bytes = (\<lambda>bytes. res_bind (group_read impl 0 vs bytes) (\<lambda>xs. Ok (RTuple xs)))\<rparr>"

section \<open>Enums\<close>

text \<open>\<open>usize::ilog2\<close>, and the bytes of the tag: the bits of the largest tag rounded up.\<close>

fun ilog2 :: "nat \<Rightarrow> nat" where
  "ilog2 n = (if n < 2 then 0 else Suc (ilog2 (n div 2)))"

declare ilog2.simps [simp del]

definition variant_bit_len :: "nat \<Rightarrow> nat" where
  "variant_bit_len n = (if n \<le> 1 then 0 else ilog2 (n - 1) + 1)"

definition variant_len :: "nat \<Rightarrow> nat" where
  "variant_len n = (variant_bit_len n + 7) div 8"

text \<open>
  \<open>const_min_max_list\<close>: the nested conditional it emits, evaluated. A group whose minimum
  (maximum) has a part the macro does not know is compared in that conditional.
\<close>

fun const_pick :: "(nat \<Rightarrow> nat \<Rightarrow> bool) \<Rightarrow> nat list \<Rightarrow> nat" where
  "const_pick R [] = 0"
| "const_pick R [n] = n"
| "const_pick R (n # m # ns) = (if list_all (R n) (m # ns) then n else const_pick R (m # ns))"

fun unknown_min :: "field_value \<Rightarrow> bool" where
  "unknown_min (VCow v) = unknown_min v"
| "unknown_min (VArray _ _) = True"
| "unknown_min (VDelegated _) = True"
| "unknown_min _ = False"

fun unknown_max :: "field_value \<Rightarrow> bool" where
  "unknown_max (VString _ _) = True"
| "unknown_max (VCow v) = unknown_max v"
| "unknown_max (VOption _) = True"
| "unknown_max (VArray _ _) = True"
| "unknown_max (VVec _ _) = True"
| "unknown_max (VDelegated _) = True"
| "unknown_max _ = False"

definition usize_MAX :: nat where
  "usize_MAX = 2 ^ 64 - 1"

definition lowest_min_len :: "(field_value \<Rightarrow> rval byte_repr) \<Rightarrow> field_value list list \<Rightarrow> nat \<Rightarrow> nat" where
  "lowest_min_len impl variants vlen =
     (let known = filter (\<lambda>vs. \<not> list_ex unknown_min vs) variants;
          unknown = filter (list_ex unknown_min) variants;
          known_min = (if known = [] then usize_MAX
                       else Min (set (map (\<lambda>vs. sum_list (map fixed_bytes vs)) known)))
      in if unknown = [] then known_min + vlen
         else const_pick (\<le>) (known_min # map (group_min impl) unknown) + vlen)"

definition lowest_max_len :: "(field_value \<Rightarrow> rval byte_repr) \<Rightarrow> field_value list list \<Rightarrow> nat \<Rightarrow> nat" where
  "lowest_max_len impl variants vlen =
     (let known = filter (\<lambda>vs. \<not> list_ex unknown_max vs) variants;
          unknown = filter (list_ex unknown_max) variants;
          known_max = (if known = [] then 0
                       else Max (set (map (\<lambda>vs. sum_list (map fixed_bytes vs)) known)))
      in if unknown = [] then known_max + vlen
         else const_pick (\<ge>) (known_max # map (group_max impl) unknown) + vlen)"

fun renum :: "rval \<Rightarrow> nat \<times> rval list" where
  "renum (REnum i xs) = (i, xs)" | "renum _ = (0, [])"

text \<open>
  \<open>fn impl_for_enum\<close>: the fields of the variant first, then its number as the first byte;
  an enum of one variant has no tag.
\<close>

definition enum_repr :: "(field_value \<Rightarrow> rval byte_repr) \<Rightarrow> field_value list list \<Rightarrow> rval byte_repr" where
  "enum_repr impl variants =
     (let n = length variants; vlen = variant_len n
      in \<lparr>self_type = (\<lambda>x. case x of
            REnum i xs \<Rightarrow> i < n \<and> list_all2 (has_type impl) (variants ! i) xs | _ \<Rightarrow> False),
          min_byte_len = lowest_min_len impl variants vlen,
          max_byte_len = lowest_max_len impl variants vlen,
          byte_len = (\<lambda>x. case renum x of (i, xs) \<Rightarrow> group_len impl (variants ! i) xs + vlen),
          write_to_bytes = (\<lambda>x bytes. case renum x of (i, xs) \<Rightarrow>
            res_bind (group_write impl vlen (variants ! i) xs bytes) (\<lambda>bytes'.
              if n \<le> 1 then Ok bytes' else store bytes' 0 [word_of_nat i])),
          from_bytes = (\<lambda>bytes.
            if n = 1 then res_bind (group_read impl vlen (variants ! 0) bytes) (\<lambda>xs. Ok (REnum 0 xs))
            else res_bind (load bytes 0 1) (\<lambda>tag.
              let i = unat (hd tag)
              in if i < n then
                   res_bind (group_read impl vlen (variants ! i) bytes) (\<lambda>xs. Ok (REnum i xs))
                 else Err InvalidValue))\<rparr>)"

section \<open>The standard types\<close>

text \<open>\<open>fn derive_for\<close>: one field that is the whole value.\<close>

definition derive_for :: "(field_value \<Rightarrow> rval byte_repr) \<Rightarrow> field_value \<Rightarrow> rval byte_repr" where
  "derive_for impl v =
     \<lparr>self_type = has_type impl v,
      min_byte_len = value_min impl v,
      max_byte_len = value_max impl v,
      byte_len = value_len impl v,
      write_to_bytes = (\<lambda>x bytes.
        res_bind (write_fixed_part v (Static 0) x (bytes, 0)) (\<lambda>(bytes', _).
          res_bind (write_variable_part impl v (Static 0) x (bytes', fixed_bytes v))
            (\<lambda>(bytes'', _). Ok bytes''))),
      from_bytes = (\<lambda>bytes.
        res_bind (read_fixed_part v (Static 0) (bytes, 0)) (\<lambda>(fx, _).
          res_bind (read_variable_part impl v (Static 0) fx (bytes, fixed_bytes v))
            (\<lambda>(x, _). Ok x)))\<rparr>"

text \<open>A type without values, for the element of a type that has none; it is never called.\<close>

definition no_impl :: "rval byte_repr" where
  "no_impl = \<lparr>self_type = (\<lambda>_. False), min_byte_len = 0, max_byte_len = 0, byte_len = (\<lambda>_. 0),
              write_to_bytes = (\<lambda>_ _. Panic), from_bytes = (\<lambda>_. Panic)\<rparr>"

text \<open>
  The implementations of \<open>byte_repr.rs\<close> (\<open>derive_for!(...)\<close>), looked up for an element
  type: the generic ones delegate to the implementation of their parameter.
\<close>

primrec impl_of :: "field_value \<Rightarrow> rval byte_repr" where
  "impl_of VEmptyTuple = derive_for (\<lambda>_. no_impl) VEmptyTuple"
| "impl_of VBool = derive_for (\<lambda>_. no_impl) VBool"
| "impl_of VU8 = derive_for (\<lambda>_. no_impl) VU8"
| "impl_of VI8 = derive_for (\<lambda>_. no_impl) VI8"
| "impl_of VU16 = derive_for (\<lambda>_. no_impl) VU16"
| "impl_of VI16 = derive_for (\<lambda>_. no_impl) VI16"
| "impl_of VU32 = derive_for (\<lambda>_. no_impl) VU32"
| "impl_of VI32 = derive_for (\<lambda>_. no_impl) VI32"
| "impl_of VF32 = derive_for (\<lambda>_. no_impl) VF32"
| "impl_of VU64 = derive_for (\<lambda>_. no_impl) VU64"
| "impl_of VI64 = derive_for (\<lambda>_. no_impl) VI64"
| "impl_of VF64 = derive_for (\<lambda>_. no_impl) VF64"
| "impl_of VUSize = derive_for (\<lambda>_. no_impl) VUSize"
| "impl_of VISize = derive_for (\<lambda>_. no_impl) VISize"
| "impl_of VU128 = derive_for (\<lambda>_. no_impl) VU128"
| "impl_of VI128 = derive_for (\<lambda>_. no_impl) VI128"
| "impl_of (VString m b) = derive_for (\<lambda>_. no_impl) (VString 1020 False)"
| "impl_of (VCow v) = derive_for (\<lambda>_. no_impl) (VCow (VDelegated (impl_of v)))"
| "impl_of (VOption v) = derive_for (\<lambda>_. no_impl) (VOption (VDelegated (impl_of v)))"
| "impl_of (VArray v n) = derive_for (\<lambda>_. impl_of v) (VArray (VDelegated (impl_of v)) n)"
| "impl_of (VVec v m) = derive_for (\<lambda>_. impl_of v) (VVec (VDelegated (impl_of v)) 1000)"
| "impl_of (VDelegated d) = d"

end
