(* ===== verification/DeriveLaws.thy ===== *)
theory DeriveLaws
  imports DeriveGroup
begin

text \<open>
  The implementations the macros produce satisfy the laws of the trait: what a struct, an
  enum variant or a standard type writes is its fixed block followed by its variable
  parts, and reading that back returns the value.
\<close>

section \<open>The bytes of a group\<close>

definition group_fixed_enc :: "field_value list \<Rightarrow> rval list \<Rightarrow> u8 list" where
  "group_fixed_enc vs xs = concat (map2 fixed_enc vs xs)"

definition group_var_enc :: "(field_value \<Rightarrow> rval byte_repr) \<Rightarrow> field_value list \<Rightarrow> rval list \<Rightarrow> u8 list" where
  "group_var_enc impl vs xs = concat (map2 (var_enc impl) vs xs)"

definition group_enc :: "(field_value \<Rightarrow> rval byte_repr) \<Rightarrow> field_value list \<Rightarrow> rval list \<Rightarrow> u8 list" where
  "group_enc impl vs xs = group_fixed_enc vs xs @ group_var_enc impl vs xs"

lemma group_enc_simps [simp]:
  "group_fixed_enc [] xs = []" "group_var_enc impl [] xs = []"
  "group_fixed_enc (v # vs) (x # xs) = fixed_enc v x @ group_fixed_enc vs xs"
  "group_var_enc impl (v # vs) (x # xs) = var_enc impl v x @ group_var_enc impl vs xs"
  by (simp_all add: group_fixed_enc_def group_var_enc_def)

lemma length_group_fixed_enc:
  "list_all2 (has_type impl) vs xs \<Longrightarrow> length (group_fixed_enc vs xs) = sum_list (map fixed_bytes vs)"
  by (induction rule: list_all2_induct) auto

lemma length_group_enc:
  "list_all2 (has_type impl) vs xs \<Longrightarrow> list_all (field_ok impl) vs \<Longrightarrow>
   length (group_enc impl vs xs) = group_len impl vs xs"
  by (induction rule: list_all2_induct) (auto simp: group_enc_def group_len_def length_enc)

section \<open>Writing a group\<close>

text \<open>
  After the fixed phase, the block holds the fixed part of every field except those of a
  \<open>Cow\<close>, which are stored in the variable phase.
\<close>

inductive block_ready :: "field_value list \<Rightarrow> rval list \<Rightarrow> u8 list \<Rightarrow> bool" where
  block_Nil: "block_ready [] [] []"
| block_Cons: "length f = fixed_bytes v \<Longrightarrow> (\<not> is_cow v \<Longrightarrow> f = fixed_enc v x) \<Longrightarrow>
    block_ready vs xs F \<Longrightarrow> block_ready (v # vs) (x # xs) (f @ F)"

inductive_cases block_ready_Cons: "block_ready (v # vs) (x # xs) F"

lemma write_fixed_all_ok:
  assumes "list_all2 (has_type impl) vs xs" "list_all (field_ok impl) vs"
    and "length F = sum_list (map fixed_bytes vs)"
  shows "\<exists>F'. block_ready vs xs F' \<and>
    write_fixed_all (make_fields (length A) vs) xs (A @ F @ R, p) = Ok (A @ F' @ R, p)"
  using assms
proof (induction vs xs arbitrary: A F rule: list_all2_induct)
  case Nil
  then show ?case by (auto intro: block_Nil)
next
  case (Cons v vs x xs)
  let ?f = "take (fixed_bytes v) F" and ?F = "drop (fixed_bytes v) F"
  let ?g = "if writes_fixed v then fixed_enc v x else ?f"
  have F: "F = ?f @ ?F" "length ?f = fixed_bytes v" using Cons.prems by simp_all
  have g: "length ?g = fixed_bytes v" using F(2) by simp
  have "\<exists>F'. block_ready vs xs F' \<and>
      write_fixed_all (make_fields (length (A @ ?g)) vs) xs ((A @ ?g) @ ?F @ R, p) =
      Ok ((A @ ?g) @ F' @ R, p)"
    using Cons.prems by (intro Cons.IH) simp_all
  then obtain F' where F': "block_ready vs xs F'"
      "write_fixed_all (make_fields (length A + fixed_bytes v) vs) xs (A @ ?g @ ?F @ R, p) =
       Ok (A @ ?g @ F' @ R, p)"
    unfolding length_append g append.assoc by blast
  have "write_fixed_part v (Static (length A)) x (A @ ?f @ ?F @ R, p) = Ok (A @ ?g @ ?F @ R, p)"
    using Cons.prems Cons.hyps F(2) by (intro write_fixed_static) simp_all
  then have "write_fixed_part v (Static (length A)) x (A @ F @ R, p) = Ok (A @ ?g @ ?F @ R, p)"
    by (metis append.assoc append_take_drop_id)
  moreover have "block_ready (v # vs) (x # xs) (?g @ F')"
    using F F' by (intro block_Cons) (auto simp: writes_fixed_def)
  ultimately show ?case using F' by (intro exI [of _ "?g @ F'"]) simp
qed

lemma write_variable_all_ok:
  assumes "list_all2 (has_type impl) vs xs" "list_all (field_ok impl) vs"
    and "block_ready vs xs F" "p = length (A @ F @ V)"
    and "length (group_var_enc impl vs xs) \<le> length R"
  shows "write_variable_all impl (make_fields (length A) vs) xs (A @ F @ V @ R, p) =
    Ok (A @ group_fixed_enc vs xs @ V @ group_var_enc impl vs xs
          @ drop (length (group_var_enc impl vs xs)) R,
        p + length (group_var_enc impl vs xs))"
  using assms
proof (induction vs xs arbitrary: A F V R p rule: list_all2_induct)
  case Nil
  then show ?case by (auto elim: block_ready.cases)
next
  case (Cons v vs x xs)
  from Cons.prems(2) obtain f F' where F: "F = f @ F'" "length f = fixed_bytes v"
      "\<not> is_cow v \<Longrightarrow> f = fixed_enc v x" "block_ready vs xs F'"
    by (auto elim: block_ready_Cons)
  let ?V = "V @ var_enc impl v x" and ?R = "drop (length (var_enc impl v x)) R"
  have "write_variable_part impl v (Static (length A)) x (A @ f @ (F' @ V) @ R, p) =
      Ok (A @ fixed_enc v x @ (F' @ V) @ var_enc impl v x @ ?R, p + length (var_enc impl v x))"
    using Cons.prems Cons.hyps F by (intro write_variable_static) auto
  moreover have "write_variable_all impl (make_fields (length (A @ fixed_enc v x)) vs) xs
      ((A @ fixed_enc v x) @ F' @ ?V @ ?R, p + length (var_enc impl v x)) =
    Ok ((A @ fixed_enc v x) @ group_fixed_enc vs xs @ ?V @ group_var_enc impl vs xs
          @ drop (length (group_var_enc impl vs xs)) ?R,
        p + length (var_enc impl v x) + length (group_var_enc impl vs xs))"
    using Cons.prems Cons.hyps F by (intro Cons.IH) auto
  ultimately show ?case using F by (simp add: add.commute add.left_commute)
qed

theorem group_write_ok:
  assumes "list_all2 (has_type impl) vs xs" "list_all (field_ok impl) vs"
    and "offset + group_len impl vs xs \<le> length bytes"
  shows "group_write impl offset vs xs bytes =
    Ok (take offset bytes @ group_enc impl vs xs @ drop (offset + group_len impl vs xs) bytes)"
proof -
  let ?n = "sum_list (map fixed_bytes vs)"
  let ?A = "take offset bytes" and ?F = "take ?n (drop offset bytes)" and ?R = "drop (offset + ?n) bytes"
  have len: "group_len impl vs xs = ?n + length (group_var_enc impl vs xs)"
    using length_group_enc [OF assms(1,2)] length_group_fixed_enc [OF assms(1)]
    by (simp add: group_enc_def)
  have "?R = drop ?n (drop offset bytes)" by (simp add: add.commute)
  then have bytes: "bytes = ?A @ ?F @ ?R" "length ?A = offset" "length ?F = ?n"
    using assms(3) len by (simp_all only: append_take_drop_id) auto
  obtain F' where F': "block_ready vs xs F'"
      "write_fixed_all (make_fields offset vs) xs (bytes, 0) = Ok (?A @ F' @ ?R, 0)"
    using write_fixed_all_ok [OF assms(1,2) bytes(3), of ?A ?R 0] bytes by metis
  have "length F' = ?n"
    using F'(1) by (induction rule: block_ready.induct) auto
  then have "write_variable_all impl (make_fields (length ?A) vs) xs (?A @ F' @ [] @ ?R, offset + ?n) =
    Ok (?A @ group_fixed_enc vs xs @ [] @ group_var_enc impl vs xs
          @ drop (length (group_var_enc impl vs xs)) ?R,
        offset + ?n + length (group_var_enc impl vs xs))"
    using F' assms bytes(2) len by (intro write_variable_all_ok) auto
  then show ?thesis
    using F'(2) bytes(2) len
    by (simp add: group_write_def Let_def group_fixed_bytes_def group_enc_def add.assoc
        add.commute [of "length (group_var_enc impl vs xs)"])
qed

section \<open>Reading a group\<close>

lemma read_fixed_all_ok:
  assumes "list_all2 (has_type impl) vs xs"
  shows "read_fixed_all (make_fields (length A) vs) (A @ group_fixed_enc vs xs @ R) =
    Ok (map2 fixval vs xs)"
  using assms
proof (induction vs xs arbitrary: A rule: list_all2_induct)
  case (Cons v vs x xs)
  then show ?case
    using Cons.IH [of "A @ fixed_enc v x"] read_fixed_static [of impl v x A "group_fixed_enc vs xs @ R" 0]
    by simp
qed simp

lemma read_variable_all_ok:
  assumes "list_all2 (has_type impl) vs xs" "list_all (field_ok impl) vs"
    and "p = length (A @ group_fixed_enc vs xs @ V)"
  shows "read_variable_all impl (make_fields (length A) vs) (map2 fixval vs xs)
      (A @ group_fixed_enc vs xs @ V @ group_var_enc impl vs xs @ R, p) = Ok xs"
  using assms
proof (induction vs xs arbitrary: A V p rule: list_all2_induct)
  case (Cons v vs x xs)
  have "read_variable_part impl v (Static (length A)) (fixval v x)
      (A @ fixed_enc v x @ (group_fixed_enc vs xs @ V) @ var_enc impl v x @ group_var_enc impl vs xs @ R, p) =
    Ok (x, p + length (var_enc impl v x))"
    using Cons.prems Cons.hyps by (intro read_variable_static) auto
  moreover have "read_variable_all impl (make_fields (length (A @ fixed_enc v x)) vs) (map2 fixval vs xs)
      ((A @ fixed_enc v x) @ group_fixed_enc vs xs @ (V @ var_enc impl v x) @ group_var_enc impl vs xs @ R,
       p + length (var_enc impl v x)) = Ok xs"
    using Cons.prems Cons.hyps by (intro Cons.IH) auto
  ultimately show ?case by simp
qed simp

theorem group_read_ok:
  assumes "list_all2 (has_type impl) vs xs" "list_all (field_ok impl) vs"
  shows "group_read impl (length A) vs (A @ group_enc impl vs xs @ R) = Ok xs"
  using read_fixed_all_ok [OF assms(1), of A "group_var_enc impl vs xs @ R"]
    read_variable_all_ok [OF assms refl, of A "[]" R] length_group_fixed_enc [OF assms(1)]
  by (simp add: group_read_def Let_def group_fixed_bytes_def group_enc_def)

end
