(* ===== verification/DeriveImpls.thy ===== *)
theory DeriveImpls
  imports DeriveLaws
begin

text \<open>
  The implementations of the trait that the derive macros and \<open>derive_for!\<close> produce are
  lawful: structs, enums of at most 256 variants, and the standard types of
  \<open>byte_repr.rs\<close>. The interpretations at the end apply the locale to the implementations
  for numbers and flags, for which \<open>write_many\<close> and \<open>read_many\<close> follow.
\<close>

section \<open>Bounds of a group\<close>

lemma sum_list_bounded:
  "(\<And>x. x \<in> set xs \<Longrightarrow> (n::nat) \<le> f x) \<Longrightarrow> n * length xs \<le> sum_list (map f xs)"
  by (induction xs) (auto simp: add_mono)

lemma value_min_le:
  "field_ok impl v \<Longrightarrow> has_type impl v x \<Longrightarrow> value_min impl v \<le> value_len impl v x"
proof (induction v arbitrary: x)
  case (VArray v n)
  then obtain xs where "x = RList xs" "length xs = n" "list_all (self_type (impl v)) xs"
    by (auto split: rval.splits)
  moreover have "lawful_repr (impl v)" using VArray.prems by simp
  ultimately show ?case
    using sum_list_bounded [of xs "min_byte_len (impl v)" "byte_len (impl v)"]
    by (auto simp: list_all_iff lawful_repr.min_le)
qed (auto simp: lawful_repr.min_le)

lemma group_min_le:
  "list_all2 (has_type impl) vs xs \<Longrightarrow> list_all (field_ok impl) vs \<Longrightarrow>
   group_min impl vs \<le> group_len impl vs xs"
  by (induction rule: list_all2_induct)
     (auto simp: group_min_def group_len_def add_mono value_min_le)

lemma group_static_len:
  assumes "group_static vs" "list_all2 (has_type impl) vs xs"
  shows "group_len impl vs xs = sum_list (map fixed_bytes vs)"
proof -
  have static: "value_len impl v x = fixed_bytes v" if "is_static v" for v x
    using that by (induction v) auto
  from assms(2,1) show ?thesis
    by (induction rule: list_all2_induct) (auto simp: group_len_def group_static_def static)
qed

section \<open>Structs\<close>

lemma encode_eqI:
  "write_to_bytes d x (replicate (byte_len d x) 0) = Ok bs \<Longrightarrow> encode d x = bs"
  by (simp add: encode_def)

lemma encode_struct:
  assumes "list_all (field_ok impl) vs" "list_all2 (has_type impl) vs xs"
  shows "encode (struct_repr impl vs) (RTuple xs) = group_enc impl vs xs"
  using group_write_ok [OF assms(2,1), of 0] by (intro encode_eqI) (simp add: struct_repr_def)

lemma struct_repr_lawful:
  assumes ok: "list_all (field_ok impl) vs"
  shows "lawful_repr (struct_repr impl vs)"
proof
  fix x bs rest
  assume "self_type (struct_repr impl vs) x"
  then obtain xs where x: "x = RTuple xs" and ty: "list_all2 (has_type impl) vs xs"
    by (auto simp: struct_repr_def split: rval.splits)
  note enc = encode_struct [OF ok ty]
  show "write_to_bytes (struct_repr impl vs) x bs =
      Ok (encode (struct_repr impl vs) x @ drop (byte_len (struct_repr impl vs) x) bs)"
    if "byte_len (struct_repr impl vs) x \<le> length bs"
    using that group_write_ok [OF ty ok, of 0 bs] enc x by (simp add: struct_repr_def)
  show "length (encode (struct_repr impl vs) x) = byte_len (struct_repr impl vs) x"
    using length_group_enc [OF ty ok] enc x by (simp add: struct_repr_def)
  show "from_bytes (struct_repr impl vs) (encode (struct_repr impl vs) x @ rest) = Ok x"
    using group_read_ok [OF ty ok, of "[]" rest] enc x by (simp add: struct_repr_def)
  show "min_byte_len (struct_repr impl vs) \<le> byte_len (struct_repr impl vs) x"
    using group_min_le [OF ty ok] x by (simp add: struct_repr_def)
qed

section \<open>Enums\<close>

lemma ilog2_lt: "0 < n \<Longrightarrow> n < 2 ^ (ilog2 n + 1) \<and> 2 ^ ilog2 n \<le> n"
proof (induction n rule: ilog2.induct)
  case (1 n)
  show ?case
  proof (cases "n < 2")
    case True
    then show ?thesis using 1 by (simp add: ilog2.simps)
  next
    case False
    then have "n div 2 < 2 ^ (ilog2 (n div 2) + 1) \<and> 2 ^ ilog2 (n div 2) \<le> n div 2"
      using 1 by auto
    moreover have "ilog2 n = Suc (ilog2 (n div 2))" using False by (subst ilog2.simps) simp
    ultimately show ?thesis by auto
  qed
qed

lemma ilog2_le: "0 < n \<Longrightarrow> n < 2 ^ k \<Longrightarrow> ilog2 n < k"
  using ilog2_lt [of n] power_strict_increasing_iff [of "2::nat" "ilog2 n" k] by linarith

text \<open>A tag of one byte is enough for 256 variants.\<close>

lemma variant_len_cases:
  assumes "0 < n" "n \<le> 256"
  shows "variant_len n = (if n = 1 then 0 else 1)"
proof (cases "n = 1")
  case False
  then have "ilog2 (n - 1) < 8" using assms by (intro ilog2_le) auto
  then show ?thesis using False assms by (auto simp: variant_len_def variant_bit_len_def)
qed (simp add: variant_len_def variant_bit_len_def)

lemma const_pick_min: "m \<in> set ns \<Longrightarrow> const_pick (\<le>) ns \<le> m"
proof (induction ns arbitrary: m)
  case (Cons n ns)
  show ?case
  proof (cases ns)
    case (Cons k ks)
    have all: "\<forall>m \<in> set ns. const_pick (\<le>) ns \<le> m" using Cons.IH by blast
    show ?thesis
    proof (cases "list_all ((\<le>) n) ns")
      case True
      then show ?thesis using Cons Cons.prems by (auto simp: list_all_iff)
    next
      case False
      then obtain l where "l \<in> set ns" "l < n" by (auto simp: list_all_iff not_le)
      then have "const_pick (\<le>) ns \<le> n" using all by force
      then have "const_pick (\<le>) ns \<le> m" using all Cons.prems by auto
      then show ?thesis using False Cons by auto
    qed
  qed (use Cons.prems in simp)
qed simp

lemma known_min_eq: "\<not> unknown_min v \<Longrightarrow> value_min impl v = fixed_bytes v"
  by (induction v) auto

lemma known_group_min:
  "\<not> list_ex unknown_min vs \<Longrightarrow> group_min impl vs = sum_list (map fixed_bytes vs)"
  by (induction vs) (auto simp: group_min_def known_min_eq)

lemma lowest_min_le:
  assumes "vs \<in> set variants"
  shows "lowest_min_len impl variants vlen \<le> group_min impl vs + vlen"
proof (cases "list_ex unknown_min vs")
  case True
  then show ?thesis using assms
    by (auto simp: lowest_min_len_def Let_def filter_empty_conv intro!: const_pick_min)
next
  case False
  let ?known = "filter (\<lambda>vs. \<not> list_ex unknown_min vs) variants"
  let ?m = "Min (set (map (\<lambda>vs. sum_list (map fixed_bytes vs)) ?known))"
  have "vs \<in> set ?known" "?known \<noteq> []" using False assms by (auto simp: filter_empty_conv)
  then have "?m \<le> group_min impl vs" by (auto simp: known_group_min [OF False])
  moreover have "const_pick (\<le>) (?m # ns) \<le> ?m" for ns by (intro const_pick_min) simp
  ultimately show ?thesis using \<open>?known \<noteq> []\<close>
    by (auto simp: lowest_min_len_def Let_def intro: order_trans)
qed

lemma enum_write:
  assumes "list_all (list_all (field_ok impl)) variants" "length variants \<le> 256"
    and i: "i < length variants" "list_all2 (has_type impl) (variants ! i) xs"
    and len: "byte_len (enum_repr impl variants) (REnum i xs) \<le> length bs"
  shows "write_to_bytes (enum_repr impl variants) (REnum i xs) bs =
    Ok ((if length variants = 1 then [] else [word_of_nat i]) @ group_enc impl (variants ! i) xs
        @ drop (byte_len (enum_repr impl variants) (REnum i xs)) bs)"
proof -
  have ok: "list_all (field_ok impl) (variants ! i)" using assms(1) i(1) by (simp add: list_all_length)
  have vlen: "variant_len (length variants) = (if length variants = 1 then 0 else 1)"
    using assms(2) i(1) by (intro variant_len_cases) auto
  note group = group_write_ok [OF i(2) ok, of "variant_len (length variants)" bs]
  show ?thesis
  proof (cases "length variants = 1")
    case True
    then show ?thesis using group len vlen by (simp add: enum_repr_def Let_def)
  next
    case False
    then have "\<not> length variants \<le> 1" using i(1) by linarith
    then show ?thesis using False group len vlen
      by (auto simp: enum_repr_def Let_def store_def)
  qed
qed

lemma encode_enum:
  assumes "list_all (list_all (field_ok impl)) variants" "length variants \<le> 256"
    and "i < length variants" "list_all2 (has_type impl) (variants ! i) xs"
  shows "encode (enum_repr impl variants) (REnum i xs) =
    (if length variants = 1 then [] else [word_of_nat i]) @ group_enc impl (variants ! i) xs"
  using enum_write [OF assms] by (intro encode_eqI) simp

lemma enum_read:
  assumes "list_all (list_all (field_ok impl)) variants" "length variants \<le> 256"
    and i: "i < length variants" "list_all2 (has_type impl) (variants ! i) xs"
  shows "from_bytes (enum_repr impl variants)
      ((if length variants = 1 then [] else [word_of_nat i]) @ group_enc impl (variants ! i) xs @ rest) =
    Ok (REnum i xs)"
proof -
  have ok: "list_all (field_ok impl) (variants ! i)" using assms(1) i(1) by (simp add: list_all_length)
  have vlen: "variant_len (length variants) = (if length variants = 1 then 0 else 1)"
    using assms(2) i(1) by (intro variant_len_cases) auto
  show ?thesis
  proof (cases "length variants = 1")
    case True
    then show ?thesis using group_read_ok [OF i(2) ok, of "[]" rest] i(1) vlen
      by (simp add: enum_repr_def Let_def)
  next
    case False
    have "unat (word_of_nat i :: u8) = i" using i(1) assms(2) by (simp add: unat_of_nat)
    then show ?thesis using False group_read_ok [OF i(2) ok, of "[word_of_nat i]" rest] i(1) vlen
      by (simp add: enum_repr_def Let_def load_def)
  qed
qed

lemma enum_repr_lawful:
  assumes ok: "list_all (list_all (field_ok impl)) variants" and n: "length variants \<le> 256"
  shows "lawful_repr (enum_repr impl variants)"
proof
  let ?d = "enum_repr impl variants"
  fix x bs rest
  assume "self_type ?d x"
  then obtain i xs where x: "x = REnum i xs" and i: "i < length variants"
      and ty: "list_all2 (has_type impl) (variants ! i) xs"
    by (auto simp: enum_repr_def Let_def split: rval.splits)
  note enc = encode_enum [OF ok n i ty]
  have oki: "list_all (field_ok impl) (variants ! i)" using ok i by (simp add: list_all_length)
  have vlen: "variant_len (length variants) = (if length variants = 1 then 0 else 1)"
    using n i by (intro variant_len_cases) auto
  show "write_to_bytes ?d x bs = Ok (encode ?d x @ drop (byte_len ?d x) bs)"
    if "byte_len ?d x \<le> length bs"
    using enum_write [OF ok n i ty] enc x that by simp
  show "length (encode ?d x) = byte_len ?d x"
    using length_group_enc [OF ty oki] enc x vlen by (simp add: enum_repr_def Let_def)
  show "from_bytes ?d (encode ?d x @ rest) = Ok x"
    using enum_read [OF ok n i ty, of rest] enc x by simp
  show "min_byte_len ?d \<le> byte_len ?d x"
    using lowest_min_le [of "variants ! i" variants impl "variant_len (length variants)"]
      group_min_le [OF ty oki] i x
    by (auto simp: enum_repr_def Let_def intro: order_trans)
qed

section \<open>The standard types\<close>

text \<open>\<open>derive_for\<close> is the code of a group of one field.\<close>

lemma write_variable_all_Nil: "write_variable_all impl [] [] = Ok"
  by (rule ext) simp

lemma res_bind_Ok: "res_bind m Ok = m"
  by (cases m) auto

lemma derive_for_write: "write_to_bytes (derive_for impl v) x bs = group_write impl 0 [v] [x] bs"
  by (cases "write_fixed_part v (Static 0) x (bs, 0)")
     (auto simp: derive_for_def group_write_def group_fixed_bytes_def Let_def
         write_variable_all_Nil res_bind_Ok
       split: prod.splits intro!: res_bind_cong)

lemma derive_for_lawful:
  assumes ok: "field_ok impl v"
  shows "lawful_repr (derive_for impl v)"
proof
  let ?d = "derive_for impl v"
  fix x bs rest
  assume "self_type ?d x"
  then have ty: "has_type impl v x" by (simp add: derive_for_def)
  have len: "byte_len ?d x = group_len impl [v] [x]" by (simp add: derive_for_def group_len_def)
  have enc: "encode ?d x = fixed_enc v x @ var_enc impl v x"
    using group_write_ok [of impl "[v]" "[x]" 0] ok ty len
    by (intro encode_eqI) (simp add: derive_for_write group_enc_def)
  show "write_to_bytes ?d x bs = Ok (encode ?d x @ drop (byte_len ?d x) bs)"
    if "byte_len ?d x \<le> length bs"
    using that group_write_ok [of impl "[v]" "[x]" 0 bs] ok ty len enc
    by (simp add: derive_for_write group_enc_def)
  show "length (encode ?d x) = byte_len ?d x"
    using length_enc [OF ok ty] enc by (simp add: derive_for_def)
  show "from_bytes ?d (encode ?d x @ rest) = Ok x"
    using read_fixed_static [OF ty, of "[]" "var_enc impl v x @ rest" 0]
      read_variable_static [OF ok ty, of "fixed_bytes v" "[]" "[]" rest] enc
    by (simp add: derive_for_def)
  show "min_byte_len ?d \<le> byte_len ?d x"
    using value_min_le [OF ok ty] by (simp add: derive_for_def)
qed

text \<open>Types whose delegated parts are lawful.\<close>

primrec delegates_ok :: "field_value \<Rightarrow> bool" where
  "delegates_ok VEmptyTuple = True" | "delegates_ok VBool = True"
| "delegates_ok VU8 = True" | "delegates_ok VI8 = True"
| "delegates_ok VU16 = True" | "delegates_ok VI16 = True"
| "delegates_ok VU32 = True" | "delegates_ok VI32 = True" | "delegates_ok VF32 = True"
| "delegates_ok VU64 = True" | "delegates_ok VI64 = True" | "delegates_ok VF64 = True"
| "delegates_ok VUSize = True" | "delegates_ok VISize = True"
| "delegates_ok VU128 = True" | "delegates_ok VI128 = True"
| "delegates_ok (VString m b) = True"
| "delegates_ok (VCow v) = delegates_ok v"
| "delegates_ok (VOption v) = delegates_ok v"
| "delegates_ok (VArray v n) = delegates_ok v"
| "delegates_ok (VVec v m) = delegates_ok v"
| "delegates_ok (VDelegated d) = lawful_repr d"

lemma impl_of_lawful: "delegates_ok v \<Longrightarrow> lawful_repr (impl_of v)"
  by (induction v) (auto intro!: derive_for_lawful)

interpretation bool_repr: lawful_repr "impl_of VBool" by (rule impl_of_lawful) simp
interpretation u8_repr: lawful_repr "impl_of VU8" by (rule impl_of_lawful) simp
interpretation u16_repr: lawful_repr "impl_of VU16" by (rule impl_of_lawful) simp
interpretation string_repr: lawful_repr "impl_of (VString m b)" for m b by (rule impl_of_lawful) simp

end
