(* ===== verification/Packet.thy ===== *)
theory Packet
  imports DeriveImpls
begin

text \<open>
  \<open>mini_udp/src/packet.rs\<close> and the type of \<open>mini_udp/src/packet_ack.rs\<close>: packets, their
  acknowledgement header and their derived wire format. The messages of a packet are values
  of a type chosen by the user of the library; its implementation of the trait is an
  argument. Structs are converted to the trees the derived code runs on by \<open>map_repr\<close>.
\<close>

section \<open>Constants\<close>

definition MAX_PACKET_DATA_LEN :: nat where
  "MAX_PACKET_DATA_LEN = 1024"

definition PACKET_HEADER_LEN :: nat where
  "PACKET_HEADER_LEN = 4 + 14 + 2 + 4"

definition MAX_PACKET_LEN :: nat where
  "MAX_PACKET_LEN = PACKET_HEADER_LEN + MAX_PACKET_DATA_LEN"

section \<open>The types\<close>

record packet_ack =
  sequence_id :: u16
  reliable_newest_received :: u16
  reliable_ack_bits :: u32
  ordered_newest_received :: u16
  ordered_ack_bits :: u32

record packet =
  ack :: packet_ack
  reliable :: bool
  ordered :: bool
  messages :: "rval list"

text \<open>\<open>fn heartbeat\<close>.\<close>

definition heartbeat :: "packet_ack \<Rightarrow> packet" where
  "heartbeat a = \<lparr>ack = a, reliable = False, ordered = False, messages = []\<rparr>"

section \<open>The derived wire format\<close>

text \<open>The implementation for a type whose values are represented by trees.\<close>

definition map_repr :: "('a \<Rightarrow> rval) \<Rightarrow> (rval \<Rightarrow> 'a) \<Rightarrow> rval byte_repr \<Rightarrow> 'a byte_repr" where
  "map_repr to back d =
     \<lparr>self_type = (\<lambda>x. self_type d (to x)),
      min_byte_len = min_byte_len d,
      max_byte_len = max_byte_len d,
      byte_len = (\<lambda>x. byte_len d (to x)),
      write_to_bytes = (\<lambda>x bs. write_to_bytes d (to x) bs),
      from_bytes = (\<lambda>bs. res_bind (from_bytes d bs) (\<lambda>x. Ok (back x)))\<rparr>"

lemma map_repr_lawful:
  assumes "lawful_repr d" "\<And>x. back (to x) = x"
  shows "lawful_repr (map_repr to back d)"
proof -
  note d = lawful_repr.write_ok [OF assms(1)] lawful_repr.encode_length [OF assms(1)]
    lawful_repr.read_ok [OF assms(1)] lawful_repr.min_le [OF assms(1)]
  have enc: "encode (map_repr to back d) x = encode d (to x)" for x
    by (simp add: encode_def map_repr_def)
  show ?thesis
    by standard (use assms(2) enc in \<open>simp_all add: map_repr_def d\<close>)
qed

definition ack_fields :: "field_value list" where
  "ack_fields = [VU16, VU16, VU32, VU16, VU32]"

fun ack_to_rval :: "packet_ack \<Rightarrow> rval" where
  "ack_to_rval a =
     RTuple [RBits (unat (sequence_id a)), RBits (unat (reliable_newest_received a)),
             RBits (unat (reliable_ack_bits a)), RBits (unat (ordered_newest_received a)),
             RBits (unat (ordered_ack_bits a))]"

definition rval_to_ack :: "rval \<Rightarrow> packet_ack" where
  "rval_to_ack x =
     (let w = \<lambda>i. rbits (rtuple x ! i)
      in \<lparr>sequence_id = word_of_nat (w 0), reliable_newest_received = word_of_nat (w 1),
          reliable_ack_bits = word_of_nat (w 2), ordered_newest_received = word_of_nat (w 3),
          ordered_ack_bits = word_of_nat (w 4)\<rparr>)"

text \<open>\<open>derive(ByteRepr)\<close> for \<open>PacketAck\<close>, and the same code seen from the struct \<open>Packet\<close>.\<close>

definition packet_ack_repr :: "packet_ack byte_repr" where
  "packet_ack_repr = map_repr ack_to_rval rval_to_ack (struct_repr impl_of ack_fields)"

definition packet_fields :: "rval byte_repr \<Rightarrow> field_value list" where
  "packet_fields m =
     [VDelegated (struct_repr impl_of ack_fields), VBool, VBool, VVec (VDelegated m) 1000]"

fun packet_to_rval :: "packet \<Rightarrow> rval" where
  "packet_to_rval p =
     RTuple [ack_to_rval (ack p), RBool (reliable p), RBool (ordered p), RList (messages p)]"

definition rval_to_packet :: "rval \<Rightarrow> packet" where
  "rval_to_packet x =
     \<lparr>ack = rval_to_ack (rtuple x ! 0), reliable = rbool (rtuple x ! 1),
      ordered = rbool (rtuple x ! 2), messages = rlist (rtuple x ! 3)\<rparr>"

definition packet_repr :: "rval byte_repr \<Rightarrow> packet byte_repr" where
  "packet_repr m = map_repr packet_to_rval rval_to_packet (struct_repr impl_of (packet_fields m))"

section \<open>Laws and lengths\<close>

lemma struct_repr_simps:
  "self_type (struct_repr impl vs) (RTuple xs) = list_all2 (has_type impl) vs xs"
  "byte_len (struct_repr impl vs) (RTuple xs) = group_len impl vs xs"
  "min_byte_len (struct_repr impl vs) = group_min impl vs"
  "max_byte_len (struct_repr impl vs) = group_max impl vs"
  by (simp_all add: struct_repr_def)

lemma map_repr_simps:
  "self_type (map_repr to back d) x = self_type d (to x)"
  "byte_len (map_repr to back d) x = byte_len d (to x)"
  "min_byte_len (map_repr to back d) = min_byte_len d"
  "max_byte_len (map_repr to back d) = max_byte_len d"
  by (simp_all add: map_repr_def)

lemma unat_u32_lt: "unat (x :: u32) < 4294967296"
proof -
  have "unat x < 2 ^ LENGTH(32)" by (rule unsigned_less)
  then show ?thesis by simp
qed

lemma rval_ack_inverse: "rval_to_ack (ack_to_rval a) = a"
  by (simp add: rval_to_ack_def Let_def)

lemma rval_packet_inverse: "rval_to_packet (packet_to_rval p) = p"
  by (simp add: rval_to_packet_def rval_ack_inverse del: ack_to_rval.simps)

lemma ack_struct_lawful: "lawful_repr (struct_repr impl_of ack_fields)"
  by (rule struct_repr_lawful) (simp add: ack_fields_def)

interpretation ack_repr: lawful_repr packet_ack_repr
  unfolding packet_ack_repr_def by (intro map_repr_lawful ack_struct_lawful rval_ack_inverse)

lemma packet_repr_lawful: "lawful_repr m \<Longrightarrow> lawful_repr (packet_repr m)"
  unfolding packet_repr_def
  by (intro map_repr_lawful struct_repr_lawful rval_packet_inverse)
     (simp add: packet_fields_def ack_struct_lawful)

lemma ack_self_type: "self_type (struct_repr impl_of ack_fields) (ack_to_rval a)"
  by (simp add: struct_repr_simps ack_fields_def bits_type_def unat_u16_lt unat_u32_lt)

lemma ack_byte_len: "byte_len (struct_repr impl_of ack_fields) (ack_to_rval a) = 14"
  by (simp add: struct_repr_simps ack_fields_def group_len_def)

lemma packet_ack_len [simp]:
  "min_byte_len packet_ack_repr = 14" "max_byte_len packet_ack_repr = 14"
  "byte_len packet_ack_repr a = 14"
  using ack_byte_len [of a]
  by (simp_all add: packet_ack_repr_def map_repr_simps struct_repr_simps(3,4) ack_fields_def
    group_min_def group_max_def del: ack_to_rval.simps)

lemmas packet_layout = packet_repr_def map_repr_simps struct_repr_simps packet_fields_def

lemma packet_self_type:
  "self_type (packet_repr m) p \<longleftrightarrow> length (messages p) < 2 ^ 32 \<and> list_all (self_type m) (messages p)"
  using ack_self_type [of "ack p"] by (simp add: packet_layout del: ack_to_rval.simps)

lemma packet_byte_len:
  "byte_len (packet_repr m) p = 20 + sum_list (map (byte_len m) (messages p))"
  using ack_byte_len [of "ack p"]
  by (simp add: packet_layout group_len_def del: ack_to_rval.simps)

lemma packet_min_len: "min_byte_len (packet_repr m) = 20"
  by (simp add: packet_layout ack_fields_def group_min_def)

lemma packet_max_len: "max_byte_len (packet_repr m) = 20 + 1000 * max_byte_len m"
  by (simp add: packet_layout ack_fields_def group_max_def)

end
