(* ===== verification/CodecSpec.thy ===== *)
theory CodecSpec
  imports Packet
begin

text \<open>
  What the trait \<open>ByteRepr\<close> and its derived implementations guarantee: exact lengths and
  round trips for structs, enums, the standard types and sequences of values, and what
  happens to bytes nobody wrote: unknown tags, short slices, invalid UTF-8.
\<close>

section \<open>Round trips\<close>

text \<open>
  C22. A derived struct: writing into any slice that is long enough stores exactly
  \<open>byte_len\<close> bytes, leaves the rest of the slice alone, and reading returns the value. It holds
  for fields that are \<open>field_ok\<close>: the element types of arrays and vectors and the types the macro
  delegates to keep the laws of the trait themselves; no \<open>Cow\<close> is around a type of one byte, an
  \<open>Option\<close> or \<open>()\<close>, for which the macro emits no code; and under an \<open>Option\<close> no \<open>Cow\<close> is around a
  type of static size such as a number. The last condition is needed: such a field is written
  twice (\<open>option_cow_written_twice\<close>).
\<close>

theorem struct_roundtrip:
  assumes "list_all (field_ok impl_of) vs" "list_all2 (has_type impl_of) vs xs"
    and "byte_len (struct_repr impl_of vs) (RTuple xs) \<le> length bs"
  shows "\<exists>bs'. write_to_bytes (struct_repr impl_of vs) (RTuple xs) bs = Ok bs'
    \<and> length bs' = length bs
    \<and> drop (byte_len (struct_repr impl_of vs) (RTuple xs)) bs' =
      drop (byte_len (struct_repr impl_of vs) (RTuple xs)) bs
    \<and> from_bytes (struct_repr impl_of vs) bs' = Ok (RTuple xs)
    \<and> min_byte_len (struct_repr impl_of vs) \<le> byte_len (struct_repr impl_of vs) (RTuple xs)"
proof -
  let ?d = "struct_repr impl_of vs"
  have ty: "self_type ?d (RTuple xs)" using assms(2) by (simp add: struct_repr_simps)
  note law = struct_repr_lawful [OF assms(1)]
  show ?thesis
    using lawful_repr.write_ok [OF law ty assms(3)] lawful_repr.encode_length [OF law ty]
      lawful_repr.read_ok [OF law ty] lawful_repr.min_le [OF law ty] assms(3) by simp
qed

definition greeting_fields :: "field_value list" where
  "greeting_fields = [VString 1020 False, VOption VU16, VArray VBool 2]"

definition greeting :: "rval list" where
  "greeting = [RStr [104, 105], ROpt (Some (RBits 513)), RList [RBool True, RBool False]]"

lemma greeting_ok:
  "list_all (field_ok impl_of) greeting_fields" "list_all2 (has_type impl_of) greeting_fields greeting"
  "byte_len (struct_repr impl_of greeting_fields) (RTuple greeting) = 11"
proof -
  show "list_all (field_ok impl_of) greeting_fields"
    using impl_of_lawful [of VBool] by (simp add: greeting_fields_def)
  show "list_all2 (has_type impl_of) greeting_fields greeting"
    by (simp add: greeting_fields_def greeting_def bits_type_def derive_for_def valid_utf8.simps)
  show "byte_len (struct_repr impl_of greeting_fields) (RTuple greeting) = 11"
    by (simp add: struct_repr_simps greeting_fields_def greeting_def group_len_def derive_for_def)
qed

theorem struct_roundtrip_witness:
  "\<exists>bs'. write_to_bytes (struct_repr impl_of greeting_fields) (RTuple greeting) (replicate 12 255) = Ok bs'
    \<and> from_bytes (struct_repr impl_of greeting_fields) bs' = Ok (RTuple greeting)"
  using struct_roundtrip [OF greeting_ok(1,2), of "replicate 12 255"] greeting_ok(3)
  by auto

text \<open>
  C23. A derived enum of at most 256 variants all of whose fields are \<open>field_ok\<close>, that is, with
  lawful element and delegated types, no \<open>Cow\<close> around a type of one byte, an \<open>Option\<close> or \<open>()\<close>, and
  no \<open>Cow\<close> around a type of static size under an \<open>Option\<close>: it round trips like a struct, and it
  spends no byte on the tag when it has one variant and one byte otherwise.
\<close>

theorem enum_roundtrip:
  assumes "list_all (list_all (field_ok impl_of)) variants" "length variants \<le> 256"
    and "i < length variants" "list_all2 (has_type impl_of) (variants ! i) xs"
    and "byte_len (enum_repr impl_of variants) (REnum i xs) \<le> length bs"
  shows "\<exists>bs'. write_to_bytes (enum_repr impl_of variants) (REnum i xs) bs = Ok bs'
    \<and> length bs' = length bs
    \<and> drop (byte_len (enum_repr impl_of variants) (REnum i xs)) bs' =
      drop (byte_len (enum_repr impl_of variants) (REnum i xs)) bs
    \<and> from_bytes (enum_repr impl_of variants) bs' = Ok (REnum i xs)
    \<and> min_byte_len (enum_repr impl_of variants) \<le> byte_len (enum_repr impl_of variants) (REnum i xs)
    \<and> byte_len (enum_repr impl_of variants) (REnum i xs) =
        group_len impl_of (variants ! i) xs + (if length variants = 1 then 0 else 1)"
proof -
  let ?d = "enum_repr impl_of variants"
  have ty: "self_type ?d (REnum i xs)" using assms(3,4) by (simp add: enum_repr_def Let_def)
  note law = enum_repr_lawful [OF assms(1,2)]
  have "variant_len (length variants) = (if length variants = 1 then 0 else 1)"
    using assms(2,3) by (intro variant_len_cases) auto
  then have "byte_len ?d (REnum i xs) =
      group_len impl_of (variants ! i) xs + (if length variants = 1 then 0 else 1)"
    by (simp add: enum_repr_def Let_def)
  then show ?thesis
    using lawful_repr.write_ok [OF law ty assms(5)] lawful_repr.encode_length [OF law ty]
      lawful_repr.read_ok [OF law ty] lawful_repr.min_le [OF law ty] assms(5) by auto
qed

text \<open>The messages of the repository's own tests: \<open>Hello\<close> and \<open>Wave(u16)\<close>.\<close>

definition test_message :: "rval byte_repr" where
  "test_message = enum_repr impl_of [[], [VU16]]"

lemma test_message_lawful: "lawful_repr test_message"
  unfolding test_message_def by (rule enum_repr_lawful) simp_all

lemma test_message_simps [simp]:
  "self_type test_message (REnum 0 [])" "self_type test_message (REnum 1 [RBits 9284])"
  "byte_len test_message (REnum 0 []) = 1" "byte_len test_message (REnum (Suc 0) [RBits n]) = 3"
proof -
  have "variant_len 2 = 1" using variant_len_cases [of 2] by simp
  then show "self_type test_message (REnum 0 [])" "self_type test_message (REnum 1 [RBits 9284])"
    "byte_len test_message (REnum 0 []) = 1" "byte_len test_message (REnum (Suc 0) [RBits n]) = 3"
    by (simp_all add: test_message_def enum_repr_def Let_def bits_type_def group_len_def numeral_2_eq_2)
qed

theorem enum_roundtrip_witness:
  "\<exists>bs'. write_to_bytes test_message (REnum 1 [RBits 9284]) (replicate 3 0) = Ok bs'
    \<and> from_bytes test_message bs' = Ok (REnum 1 [RBits 9284])"
  using enum_roundtrip [of "[[], [VU16]]" 1 "[RBits 9284]" "replicate 3 0"]
    test_message_simps(4) [of 9284]
  by (auto simp: test_message_def bits_type_def)

text \<open>
  C24. The implementations for the standard types, nested in any way (numbers, flags,
  strings, \<open>Cow\<close>, \<open>Option\<close>, arrays, vectors), round trip.
\<close>

theorem std_roundtrip:
  assumes "delegates_ok v" "self_type (impl_of v) x" "byte_len (impl_of v) x \<le> length bs"
  shows "\<exists>bs'. write_to_bytes (impl_of v) x bs = Ok bs' \<and> length bs' = length bs
    \<and> drop (byte_len (impl_of v) x) bs' = drop (byte_len (impl_of v) x) bs
    \<and> from_bytes (impl_of v) bs' = Ok x \<and> min_byte_len (impl_of v) \<le> byte_len (impl_of v) x"
proof -
  note law = impl_of_lawful [OF assms(1)]
  show ?thesis
    using lawful_repr.write_ok [OF law assms(2,3)] lawful_repr.encode_length [OF law assms(2)]
      lawful_repr.read_ok [OF law assms(2)] lawful_repr.min_le [OF law assms(2)] assms(3) by simp
qed

theorem std_roundtrip_witness:
  "\<exists>bs'. write_to_bytes (impl_of (VOption VU16)) (ROpt (Some (RBits 513))) [9, 9, 9] = Ok bs'
    \<and> from_bytes (impl_of (VOption VU16)) bs' = Ok (ROpt (Some (RBits 513)))"
  using std_roundtrip [of "VOption VU16" "ROpt (Some (RBits 513))" "[9, 9, 9]"]
  by (auto simp: derive_for_def bits_type_def)

text \<open>
  \<open>write_many\<close> into a slice that is long enough writes all values one after the other,
  and \<open>read_many\<close> on the written bytes returns them all and the number of bytes, provided no
  value has length zero.
\<close>

lemma many_roundtrip:
  assumes "delegates_ok v" "\<forall>x \<in> set xs. self_type (impl_of v) x \<and> 0 < byte_len (impl_of v) x"
    and "sum_list (map (byte_len (impl_of v)) xs) \<le> length bs"
  shows "\<exists>bs'. write_many (impl_of v) xs bs =
      Ok ((length xs, sum_list (map (byte_len (impl_of v)) xs)), bs')
    \<and> read_many (impl_of v) (take (sum_list (map (byte_len (impl_of v)) xs)) bs') =
      Some (Ok (xs, sum_list (map (byte_len (impl_of v)) xs)))"
proof -
  note law = impl_of_lawful [OF assms(1)]
  have "length (concat (map (encode (impl_of v)) xs)) = sum_list (map (byte_len (impl_of v)) xs)"
    using assms(2) by (induction xs) (auto simp: lawful_repr.encode_length [OF law])
  then show ?thesis
    using lawful_repr.write_many_ok [OF law, of xs bs] lawful_repr.read_many_ok [OF law, of xs] assms(2,3)
    by simp
qed

text \<open>
  A type marked \<open>StaticByteRepr\<close> by its fields has one length: every value of it takes
  \<open>MIN_BYTE_LEN\<close> bytes, which is also \<open>MAX_BYTE_LEN\<close>.
\<close>

lemma static_length:
  assumes "group_static vs" "list_all2 (has_type impl_of) vs xs"
  shows "byte_len (struct_repr impl_of vs) (RTuple xs) = min_byte_len (struct_repr impl_of vs)
    \<and> min_byte_len (struct_repr impl_of vs) = max_byte_len (struct_repr impl_of vs)"
proof -
  have "value_min impl_of v = fixed_bytes v \<and> value_max impl_of v = fixed_bytes v" if "is_static v" for v
    using that by (induction v) auto
  then have "group_min impl_of vs = sum_list (map fixed_bytes vs)"
      "group_max impl_of vs = sum_list (map fixed_bytes vs)"
    using assms(1) by (induction vs) (auto simp: group_min_def group_max_def group_static_def)
  then show ?thesis using group_static_len [OF assms] by (simp add: struct_repr_simps)
qed

section \<open>Bytes nobody wrote\<close>

text \<open>
  Reading an enum of 2 to 256 variants fails with \<open>InvalidValue\<close> on a tag that is no
  variant, whatever follows it, and with \<open>SliceTooShort\<close> on an empty slice.
\<close>

lemma enum_unknown_tag:
  assumes "2 \<le> length variants" "length variants \<le> unat b"
  shows "from_bytes (enum_repr impl_of variants) (b # bs) = Err InvalidValue
    \<and> from_bytes (enum_repr impl_of variants) [] = Err SliceTooShort"
  using assms by (simp add: enum_repr_def Let_def load_def)

text \<open>
  Whatever bytes a string field holds, a string is read, and it is valid UTF-8; valid
  bytes are read unchanged.
\<close>

lemma lossy_decoding:
  assumes "length s < 2 ^ 32"
  shows "\<exists>s'. from_bytes (impl_of (VString m b)) (to_le_bytes 4 (length s) @ s @ rest) = Ok (RStr s')
    \<and> valid_utf8 s' \<and> (valid_utf8 s \<longrightarrow> s' = s)"
proof -
  have "load (to_le_bytes 4 (length s) @ s @ rest) 0 4 = Ok (to_le_bytes 4 (length s))"
    by (simp add: load_def)
  moreover have "from_le_bytes (to_le_bytes 4 (length s)) = length s"
    using assms by (intro from_to_le_bytes) simp
  ultimately have "from_bytes (impl_of (VString m b)) (to_le_bytes 4 (length s) @ s @ rest) =
      Ok (RStr (from_utf8_lossy s))"
    by (simp add: derive_for_def read_fixed_part_def del: to_le_bytes.simps)
  then show ?thesis using valid_from_utf8_lossy from_utf8_lossy_valid by auto
qed

text \<open>
  Reading a string whose length prefix promises more bytes than the slice has panics,
  where the trait's documentation promises the error \<open>SliceTooShort\<close>.
\<close>

lemma string_prefix_panics:
  assumes "length bs < n" "n < 2 ^ 32"
  shows "from_bytes (impl_of (VString m b)) (to_le_bytes 4 n @ bs) = Panic"
proof -
  have "load (to_le_bytes 4 n @ bs) 0 4 = Ok (to_le_bytes 4 n)" by (simp add: load_def)
  moreover have "from_le_bytes (to_le_bytes 4 n) = n" using assms(2) by (intro from_to_le_bytes) simp
  ultimately show ?thesis using assms(1)
    by (simp add: derive_for_def read_fixed_part_def del: to_le_bytes.simps)
qed

text \<open>
  Under an \<open>Option\<close> a \<open>Cow\<close> of a number is written twice and read once: in
  \<open>struct { a: Option<Cow<u16>>, b: String }\<close> the bytes of \<open>b\<close> are written two places further
  than \<open>byte_len\<close> promises and than they are read from. A slice of \<open>byte_len\<close> bytes is too
  short, and in a longer one another string is read than was written.
\<close>

lemma option_cow_written_twice:
  defines "d \<equiv> struct_repr impl_of [VOption (VCow VU16), VString 1020 False]"
    and "x \<equiv> RTuple [ROpt (Some (RBits 513)), RStr [65]]"
  shows "self_type d x \<and> byte_len d x = 8
    \<and> write_to_bytes d x [0, 0, 0, 0, 0, 0, 0, 0] = Err SliceTooShort
    \<and> write_to_bytes d x [0, 0, 0, 0, 0, 0, 0, 0, 0, 0] = Ok [1, 1, 0, 0, 0, 1, 2, 1, 2, 65]
    \<and> from_bytes d [1, 1, 0, 0, 0, 1, 2, 1, 2, 65] = Ok (RTuple [ROpt (Some (RBits 513)), RStr [1]])"
proof -
  have bytes: "to_le_bytes 2 513 = [1, 2]" "to_le_bytes 4 1 = [1, 0, 0, 0]" "to_le_bytes 4 (Suc 0) = [1, 0, 0, 0]"
    "from_le_bytes [1, 2] = 513" "from_le_bytes [1, 0, 0, 0] = 1" "from_utf8_lossy [1] = [1]" "valid_utf8 [65]"
    by code_simp+
  have "self_type d x" "byte_len d x = 8"
    by (simp_all add: d_def x_def struct_repr_simps bits_type_def group_len_def bytes)
  moreover have "write_to_bytes d x [0, 0, 0, 0, 0, 0, 0, 0] = Err SliceTooShort"
    "write_to_bytes d x [0, 0, 0, 0, 0, 0, 0, 0, 0, 0] = Ok [1, 1, 0, 0, 0, 1, 2, 1, 2, 65]"
    by (simp_all add: d_def x_def struct_repr_def group_write_def write_fixed_part_def store_def
      group_fixed_bytes_def bytes)
  moreover have "from_bytes d [1, 1, 0, 0, 0, 1, 2, 1, 2, 65] = Ok (RTuple [ROpt (Some (RBits 513)), RStr [1]])"
    by (simp add: d_def struct_repr_def group_read_def read_fixed_part_def load_def group_fixed_bytes_def bytes)
  ultimately show ?thesis by simp
qed
text \<open>
  \<open>read_many\<close> of a type without bytes does not return on any slice that is not empty.
\<close>

lemma read_many_diverges:
  assumes "bs \<noteq> []"
  shows "read_many (impl_of VEmptyTuple) bs = None"
proof -
  let ?d = "impl_of VEmptyTuple"
  have d: "min_byte_len ?d = 0" "from_bytes ?d bs = Ok RUnit" "byte_len ?d RUnit = 0" for bs
    by (simp_all add: derive_for_def read_fixed_part_def)
  have "\<not> (d = ?d \<and> bytes = bs \<and> ptr = 0)"
    if "read_many_from d bytes ptr out = Some r" for d bytes ptr out r
  proof (rule read_many_from.raw_induct [OF _ that])
    fix f d' bytes' ptr' out' r'
    assume IH: "\<And>d bytes ptr out r. f d bytes ptr out = Some r \<Longrightarrow> \<not> (d = ?d \<and> bytes = bs \<and> ptr = 0)"
      and body: "(if ptr' < length bytes' \<and> min_byte_len d' \<le> length bytes' - ptr' then
          (case from_bytes d' (drop ptr' bytes') of
             Ok v \<Rightarrow> f d' bytes' (ptr' + byte_len d' v) (out' @ [v])
           | Err e \<Rightarrow> Some (Err e) | Panic \<Rightarrow> Some Panic)
        else Some (Ok (out', ptr'))) = Some r'"
    show "\<not> (d' = ?d \<and> bytes' = bs \<and> ptr' = 0)"
    proof
      assume "d' = ?d \<and> bytes' = bs \<and> ptr' = 0"
      then have "f ?d bs 0 (out' @ [RUnit]) = Some r'" using body d assms by simp
      then show False using IH by blast
    qed
  qed
  then have "read_many_from ?d bs 0 [] \<noteq> Some r" for r by blast
  then show ?thesis by (cases "read_many ?d bs") (auto simp: read_many_def)
qed

end
