(* ===== verification/Ack.thy ===== *)
theory Ack
  imports Packet RingIter
begin

text \<open>
  \<open>mini_udp/src/packet_ack.rs\<close>: \<open>PacketAck::new\<close>, which summarises the reliable packets
  received in two bit fields relative to the newest one, and \<open>acknowledge\<close>, which removes
  the packets a received summary names from the caches of sent packets. The locale
  \<open>ack_channel\<close> proves, for any two stores, that the two routines fit together.
\<close>

unbundle bit_operations_syntax

declare push_bit_of_1 [simp del]

section \<open>The routines\<close>

text \<open>
  One bit field of \<open>PacketAck::new\<close>. The shift is by less than 32 for the rings of 32
  items the code uses (\<open>ring_window.numbers_near\<close>).
\<close>

definition ack_bits :: "'a ring \<Rightarrow> u32" where
  "ack_bits r = fold (\<lambda>i bits. bits OR push_bit (unat (rb_newest_index r - i)) 1) (rb_keys r) 0"

definition packet_ack_new :: "u16 \<Rightarrow> 'a ring \<Rightarrow> 'b ring \<Rightarrow> packet_ack" where
  "packet_ack_new sid reliable_received ordered_received =
     \<lparr>sequence_id = sid,
      reliable_newest_received = rb_newest_index reliable_received,
      reliable_ack_bits = ack_bits reliable_received,
      ordered_newest_received = rb_newest_index ordered_received,
      ordered_ack_bits = ack_bits ordered_received\<rparr>"

text \<open>\<open>fn acknowledge\<close> on the two caches it changes.\<close>

definition acknowledge_step :: "packet_ack \<Rightarrow> nat \<Rightarrow> 'a ring \<times> 'b ring \<Rightarrow> 'a ring \<times> 'b ring" where
  "acknowledge_step a i rs =
     (let (rel, ord) = rs;
          rel' = (if reliable_ack_bits a AND push_bit i 1 \<noteq> 0
                  then snd (rb_take rel (reliable_newest_received a - word_of_nat i)) else rel);
          ord' = (if ordered_ack_bits a AND push_bit i 1 \<noteq> 0
                  then snd (rb_take ord (ordered_newest_received a - word_of_nat i)) else ord)
      in (rel', ord'))"

definition acknowledge_rings :: "packet_ack \<Rightarrow> 'a ring \<times> 'b ring \<Rightarrow> 'a ring \<times> 'b ring" where
  "acknowledge_rings a rs = fold (acknowledge_step a) [0..<32] rs"

section \<open>Bit fields\<close>

lemma bit_or_fold:
  "bit (fold (\<lambda>i b. b OR push_bit (f i) 1) is (b0 :: u32)) n \<longleftrightarrow>
   bit b0 n \<or> (n < 32 \<and> (\<exists>i\<in>set is. f i = n))"
proof (induction "is" arbitrary: b0)
  case (Cons i "is")
  have "bit (push_bit (f i) (1 :: u32)) n \<longleftrightarrow> n < 32 \<and> f i = n"
    by (auto simp: bit_push_bit_iff bit_1_iff)
  then show ?case by (auto simp: Cons bit_or_iff)
qed simp

locale ack_channel =
  recv: seq_window rinv rlookup rhead rcap rremove rnumbers +
  send: seq_store sinv slookup shead scap sremove
  for rinv :: "'r \<Rightarrow> bool" and rlookup :: "'r \<Rightarrow> u16 \<Rightarrow> 'a option" and rhead :: "'r \<Rightarrow> u16"
    and rcap :: "'r \<Rightarrow> nat" and rremove :: "'r \<Rightarrow> u16 \<Rightarrow> 'a option \<times> 'r"
    and rnumbers :: "'r \<Rightarrow> u16 list"
    and sinv :: "'s \<Rightarrow> bool" and slookup :: "'s \<Rightarrow> u16 \<Rightarrow> 'b option" and shead :: "'s \<Rightarrow> u16"
    and scap :: "'s \<Rightarrow> nat" and sremove :: "'s \<Rightarrow> u16 \<Rightarrow> 'b option \<times> 's"
begin

definition bits :: "'r \<Rightarrow> u32" where
  "bits r = fold (\<lambda>i b. b OR push_bit (unat (rhead r - i)) 1) (rnumbers r) 0"

lemma bit_bits:
  assumes "rinv r" "rcap r \<le> 32"
  shows "bit (bits r) n \<longleftrightarrow> n < 32 \<and> rlookup r (rhead r - word_of_nat n) \<noteq> None"
proof -
  have "(\<exists>i\<in>set (rnumbers r). ahead (rhead r) i = n) \<longleftrightarrow> rlookup r (rhead r - word_of_nat n) \<noteq> None"
    if "n < 32"
  proof (cases "n < rcap r")
    case True
    then show ?thesis using recv.number_at [OF assms(1)] that by simp
  next
    case False
    moreover have "ahead (rhead r) (rhead r - word_of_nat n) = n" using that by (intro ahead_offset) simp
    ultimately show ?thesis
      using recv.numbers_near [OF assms(1)] recv.lookup_near [OF assms(1)] by force
  qed
  then show ?thesis by (auto simp: bits_def bit_or_fold ahead_def)
qed

text \<open>What the receiver has is removed at the sender, and nothing else.\<close>

lemma acknowledged:
  assumes "rinv r" "rcap r \<le> 32" "sinv s"
  shows "slookup (fold (\<lambda>n s. if bit (bits r) n then snd (sremove s (rhead r - word_of_nat n)) else s)
      [0..<32] s) j = (if rlookup r j \<noteq> None then None else slookup s j)"
proof -
  have "(\<exists>n\<in>set [0..<32]. bit (bits r) n \<and> rhead r - word_of_nat n = j) \<longleftrightarrow> rlookup r j \<noteq> None"
  proof
    assume j: "rlookup r j \<noteq> None"
    then have "ahead (rhead r) j < 32"
      using recv.lookup_near [OF assms(1) j] assms(2) by linarith
    then show "\<exists>n\<in>set [0..<32]. bit (bits r) n \<and> rhead r - word_of_nat n = j"
      using j minus_ahead [of "rhead r" j]
      by (intro bexI [of _ "ahead (rhead r) j"]) (auto simp: bit_bits [OF assms(1,2)])
  qed (auto simp: bit_bits [OF assms(1,2)])
  then show ?thesis
    using send.remove_if_loop(3) [OF assms(3), of "bit (bits r)" "\<lambda>n. rhead r - word_of_nat n" "[0..<32]" j]
    by simp
qed

end

interpretation ring_ack: ack_channel rb_wf rb_get newest num_items rb_take rb_keys
    rb_wf rb_get newest num_items rb_take
  by unfold_locales

lemma ack_bits_eq: "ack_bits r = ring_ack.bits r"
  by (simp add: ack_bits_def ring_ack.bits_def rb_newest_index_def)

lemma bit_ack_bits:
  "rb_wf r \<Longrightarrow> num_items r = 32 \<Longrightarrow>
   bit (ack_bits r) n \<longleftrightarrow> n < 32 \<and> rb_get r (newest r - word_of_nat n) \<noteq> None"
  by (simp add: ack_bits_eq ring_ack.bit_bits)

section \<open>acknowledge\<close>

text \<open>The two caches are treated independently.\<close>

definition take_acked :: "u32 \<Rightarrow> u16 \<Rightarrow> 'a ring \<Rightarrow> 'a ring" where
  "take_acked bits newest_received r =
     fold (\<lambda>n r. if bit bits n then snd (rb_take r (newest_received - word_of_nat n)) else r) [0..<32] r"

lemma acknowledge_fold:
  "fold (acknowledge_step a) ns (rel, ord) =
   (fold (\<lambda>n r. if bit (reliable_ack_bits a) n
       then snd (rb_take r (reliable_newest_received a - word_of_nat n)) else r) ns rel,
    fold (\<lambda>n r. if bit (ordered_ack_bits a) n
       then snd (rb_take r (ordered_newest_received a - word_of_nat n)) else r) ns ord)"
  by (induction ns arbitrary: rel ord) (simp_all add: acknowledge_step_def Let_def bit_iff_and_push_bit_not_eq_0)

lemma acknowledge_rings_eq:
  "acknowledge_rings a (rel, ord) =
   (take_acked (reliable_ack_bits a) (reliable_newest_received a) rel,
    take_acked (ordered_ack_bits a) (ordered_newest_received a) ord)"
  by (simp add: acknowledge_rings_def take_acked_def acknowledge_fold)

lemma take_acked_shape [simp]:
  "num_items (take_acked b w r) = num_items r" "newest (take_acked b w r) = newest r"
  "rb_wf (take_acked b w r) = rb_wf r"
proof -
  have "same_shape r (fold (\<lambda>n r. if bit b n then snd (rb_take r (w - word_of_nat n)) else r) ns r)" for ns
    by (induction ns arbitrary: r) (auto simp: same_shape_def)
  then show "num_items (take_acked b w r) = num_items r" "newest (take_acked b w r) = newest r"
    "rb_wf (take_acked b w r) = rb_wf r"
    using same_shape_wf [of r "take_acked b w r"] by (simp_all add: take_acked_def same_shape_def)
qed

lemma rb_get_take_acked:
  assumes "rb_wf r"
  shows "rb_get (take_acked b w r) j =
    (if \<exists>n<32. bit b n \<and> w - word_of_nat n = j then None else rb_get r j)"
  using ring.remove_if_loop(3) [OF assms, of "bit b" "\<lambda>n. w - word_of_nat n" "[0..<32]" j]
  by (simp add: take_acked_def) (metis atLeastLessThan_iff zero_le)

lemma take_acked_of_receiver:
  assumes "rb_wf r" "num_items r = 32" "rb_wf s"
  shows "rb_get (take_acked (ack_bits r) (newest r) s) j = (if rb_get r j \<noteq> None then None else rb_get s j)"
  using ring_ack.acknowledged [OF assms(1) _ assms(3), of j] assms(2)
  by (simp add: take_acked_def ack_bits_eq)

end
