(* ===== verification/Socket.thy ===== *)
theory Socket
  imports Packet "HOL-Library.Multiset"
begin

text \<open>
  \<open>mini_udp/src/context.rs\<close>, \<open>communicator/socket.rs\<close> and the socket part of
  \<open>communicator/debug.rs\<close>. What the operating system and the crates \<open>rand\<close> and \<open>crc\<close>
  decide is data of the model: the readings of the clock, the datagrams handed over by the
  socket, which sends fail, the random draws and the checksum function. Durations and
  instants are nanoseconds.
\<close>

section \<open>The environment\<close>

type_synonym socket_addr = nat
type_synonym instant = int
type_synonym f64 = nat

text \<open>
  \<open>clock k\<close> is the result of the \<open>k\<close>-th call of \<open>Instant::now\<close>; an entry \<open>None\<close> of
  \<open>inbox\<close> is a call of \<open>recv\<close> that fails, as every call on an empty inbox does (the
  socket is non-blocking).
\<close>

record os =
  clock :: "nat \<Rightarrow> instant"
  readings :: nat
  inbox :: "(socket_addr \<times> u8 list) option list"
  outbox :: "(socket_addr option \<times> u8 list) list"
  send_ok :: "nat \<Rightarrow> bool"
  sends :: nat
  draw_bool :: "nat \<Rightarrow> f64 \<Rightarrow> bool"
  draw_range :: "nat \<Rightarrow> nat \<Rightarrow> nat \<Rightarrow> nat"
  draws :: nat

text \<open>
  \<open>crc::Algorithm<u32>\<close>, and what the build and the crates fix: the checksum function, the
  feature \<open>debug\<close>, and whether arithmetic that overflows panics (as in a development build) or
  wraps around.
\<close>

record crc_algorithm =
  crc_width :: nat
  crc_poly :: u32
  crc_init :: u32
  crc_refin :: bool
  crc_refout :: bool
  crc_xorout :: u32
  crc_check :: u32
  crc_residue :: u32

record crate_env =
  crc_checksum :: "crc_algorithm \<Rightarrow> u8 list \<Rightarrow> u32"
  feature_debug :: bool
  overflow_checks :: bool

section \<open>Contexts\<close>

text \<open>\<open>trait MiniUdpContext\<close> and its associated type \<open>REVERSE\<close> for \<open>UdpContext\<close>.\<close>

record udp_context =
  SEND :: "rval byte_repr"
  RECV :: "rval byte_repr"
  PROTOCOL_VERSION :: u32

definition REVERSE :: "udp_context \<Rightarrow> udp_context" where
  "REVERSE ctx = \<lparr>SEND = RECV ctx, RECV = SEND ctx, PROTOCOL_VERSION = PROTOCOL_VERSION ctx\<rparr>"

section \<open>The socket\<close>

record udp_socket =
  os_socket :: os
  data_buffer :: "u8 list"
  reliable_unordered_resend_interval :: nat
  reliable_ordered_resend_interval :: nat
  max_reliable_unordered_retries :: nat
  max_reliable_ordered_retries :: nat
  drop_probability :: "f64 option"
  corruption_probability :: "f64 option"
  fake_delay :: "nat \<times> nat"
  debug_logs :: bool
  fake_delayed_buffer :: "(socket_addr option \<times> u8 list \<times> nat \<times> instant) list"

definition from_millis :: "nat \<Rightarrow> nat" where
  "from_millis ms = ms * 1000000"

definition from_hours :: "nat \<Rightarrow> nat" where
  "from_hours h = h * 3600000000000"

text \<open>\<open>fn bind\<close>: \<open>None\<close> is the panic of \<open>expect\<close> when the system cannot bind the socket.\<close>

definition socket_bind :: "os option \<Rightarrow> udp_socket option" where
  "socket_bind bound =
     (case bound of
        None \<Rightarrow> None
      | Some o_s \<Rightarrow> Some
          \<lparr>os_socket = o_s, data_buffer = replicate MAX_PACKET_LEN 0,
           reliable_unordered_resend_interval = from_millis 100,
           reliable_ordered_resend_interval = from_millis 100,
           max_reliable_unordered_retries = 100, max_reliable_ordered_retries = 100,
           drop_probability = None, corruption_probability = None,
           fake_delay = (0, 0), debug_logs = False, fake_delayed_buffer = []\<rparr>)"

definition with_reliable_unordered_resend_interval :: "nat \<Rightarrow> udp_socket \<Rightarrow> udp_socket" where
  "with_reliable_unordered_resend_interval d s = s\<lparr>reliable_unordered_resend_interval := d\<rparr>"

definition with_reliable_ordered_resend_interval :: "nat \<Rightarrow> udp_socket \<Rightarrow> udp_socket" where
  "with_reliable_ordered_resend_interval d s = s\<lparr>reliable_ordered_resend_interval := d\<rparr>"

definition with_max_reliable_unordered_retries :: "nat \<Rightarrow> udp_socket \<Rightarrow> udp_socket" where
  "with_max_reliable_unordered_retries n s = s\<lparr>max_reliable_unordered_retries := n\<rparr>"

definition with_max_reliable_ordered_retries :: "nat \<Rightarrow> udp_socket \<Rightarrow> udp_socket" where
  "with_max_reliable_ordered_retries n s = s\<lparr>max_reliable_ordered_retries := n\<rparr>"

definition with_fake_drop :: "f64 \<Rightarrow> udp_socket \<Rightarrow> udp_socket" where
  "with_fake_drop p s = s\<lparr>drop_probability := Some p\<rparr>"

definition with_fake_corruption :: "f64 \<Rightarrow> udp_socket \<Rightarrow> udp_socket" where
  "with_fake_corruption p s = s\<lparr>corruption_probability := Some p\<rparr>"

definition with_fake_delay :: "nat \<times> nat \<Rightarrow> udp_socket \<Rightarrow> udp_socket" where
  "with_fake_delay r s = s\<lparr>fake_delay := r\<rparr>"

definition with_debug_logs :: "udp_socket \<Rightarrow> udp_socket" where
  "with_debug_logs s = s\<lparr>debug_logs := True\<rparr>"

section \<open>Access to the environment\<close>

text \<open>
  \<open>Instant::now\<close>, \<open>rand::random_bool\<close> and \<open>rand::random_range\<close> (not called on an empty range).
  \<open>random_bool\<close> panics unless its argument, here the bits of an \<open>f64\<close>, is between 0 and 1: one of the
  patterns up to that of 1.0, or negative zero.
\<close>

definition now :: "udp_socket \<Rightarrow> instant \<times> udp_socket" where
  "now s = (clock (os_socket s) (readings (os_socket s)),
            s\<lparr>os_socket := (os_socket s)\<lparr>readings := readings (os_socket s) + 1\<rparr>\<rparr>)"

definition is_probability :: "f64 \<Rightarrow> bool" where
  "is_probability p \<longleftrightarrow> p \<le> 0x3FF0000000000000 \<or> p = 0x8000000000000000"

definition random_bool :: "f64 \<Rightarrow> udp_socket \<Rightarrow> (bool \<times> udp_socket) option" where
  "random_bool p s =
     (if is_probability p then
        Some (draw_bool (os_socket s) (draws (os_socket s)) p,
              s\<lparr>os_socket := (os_socket s)\<lparr>draws := draws (os_socket s) + 1\<rparr>\<rparr>)
      else None)"

definition random_range :: "nat \<Rightarrow> nat \<Rightarrow> udp_socket \<Rightarrow> nat \<times> udp_socket" where
  "random_range a b s = (draw_range (os_socket s) (draws (os_socket s)) a b,
            s\<lparr>os_socket := (os_socket s)\<lparr>draws := draws (os_socket s) + 1\<rparr>\<rparr>)"

text \<open>\<open>elapsed\<close> is zero for an instant in the future.\<close>

definition elapsed :: "instant \<Rightarrow> udp_socket \<Rightarrow> nat \<times> udp_socket" where
  "elapsed i s = (case now s of (t, s') \<Rightarrow> (nat (t - i), s'))"

text \<open>
  \<open>SocketSendAddr::send\<close>: \<open>None\<close> for \<open>()\<close> (the connected address), \<open>Some\<close> for a
  \<open>SocketAddr\<close>. The slice expression panics where it is too long; the boolean says whether
  the system accepted the datagram.
\<close>

definition addr_send :: "socket_addr option \<Rightarrow> nat \<Rightarrow> udp_socket \<Rightarrow> (bool \<times> udp_socket) option" where
  "addr_send addr n s =
     (if n \<le> length (data_buffer s) then
        (let o_s = os_socket s; ok = send_ok o_s (sends o_s)
         in Some (ok, s\<lparr>os_socket := o_s\<lparr>sends := sends o_s + 1,
                outbox := outbox o_s @ (if ok then [(addr, take n (data_buffer s))] else [])\<rparr>\<rparr>))
      else None)"

text \<open>\<open>std::net::UdpSocket::recv_from\<close> (and \<open>recv\<close>): a datagram longer than the buffer is cut.\<close>

definition recv_from :: "udp_socket \<Rightarrow> (nat \<times> socket_addr) option \<times> udp_socket" where
  "recv_from s =
     (case inbox (os_socket s) of
        [] \<Rightarrow> (None, s)
      | None # rest \<Rightarrow> (None, s\<lparr>os_socket := (os_socket s)\<lparr>inbox := rest\<rparr>\<rparr>)
      | Some (a, d) # rest \<Rightarrow>
          (let n = min (length d) (length (data_buffer s))
           in (Some (n, a),
               s\<lparr>os_socket := (os_socket s)\<lparr>inbox := rest\<rparr>,
                 data_buffer := take n d @ drop n (data_buffer s)\<rparr>)))"

section \<open>Simulated delay\<close>

definition delay_packet :: "socket_addr option \<Rightarrow> nat \<Rightarrow> udp_socket \<Rightarrow> bool \<times> udp_socket" where
  "delay_packet addr n s =
     (if fst (fake_delay s) < snd (fake_delay s) then
        (case random_range (fst (fake_delay s)) (snd (fake_delay s)) s of (delay_ms, s1) \<Rightarrow>
         case now s1 of (t, s2) \<Rightarrow>
           (True, s2\<lparr>fake_delayed_buffer := fake_delayed_buffer s2 @
                 [(addr, data_buffer s2, n, t + int (from_millis delay_ms))]\<rparr>))
      else (False, s))"

text \<open>\<open>position\<close> reads the clock for every entry it looks at.\<close>

fun due_position ::
  "(socket_addr option \<times> u8 list \<times> nat \<times> instant) list \<Rightarrow> nat \<Rightarrow> udp_socket \<Rightarrow> nat option \<times> udp_socket"
where
  "due_position [] i s = (None, s)"
| "due_position ((a, b, n, t) # es) i s =
     (case now s of (t', s') \<Rightarrow>
        if t - t' \<le> 0 then (Some i, s') else due_position es (i + 1) s')"

definition swap_remove :: "nat \<Rightarrow> 'a list \<Rightarrow> 'a \<times> 'a list" where
  "swap_remove i xs = (xs ! i, butlast (xs[i := last xs]))"

definition read_delayed :: "udp_socket \<Rightarrow> (nat \<times> socket_addr option) option \<times> udp_socket" where
  "read_delayed s =
     (case due_position (fake_delayed_buffer s) 0 s of
        (None, s1) \<Rightarrow> (None, s1)
      | (Some i, s1) \<Rightarrow>
          (case swap_remove i (fake_delayed_buffer s1) of ((addr, buf, n, _), rest) \<Rightarrow>
             (Some (n, addr), s1\<lparr>fake_delayed_buffer := rest, data_buffer := buf\<rparr>)))"

section \<open>What the socket operations leave alone\<close>

text \<open>The settings and the length of the buffer never change.\<close>

definition same_config :: "udp_socket \<Rightarrow> udp_socket \<Rightarrow> bool" where
  "same_config s s' \<longleftrightarrow>
     reliable_unordered_resend_interval s' = reliable_unordered_resend_interval s
   \<and> reliable_ordered_resend_interval s' = reliable_ordered_resend_interval s
   \<and> max_reliable_unordered_retries s' = max_reliable_unordered_retries s
   \<and> max_reliable_ordered_retries s' = max_reliable_ordered_retries s
   \<and> length (data_buffer s') = length (data_buffer s)"

lemma same_config_refl [simp]: "same_config s s"
  by (simp add: same_config_def)

lemma same_config_trans [trans]: "same_config s s' \<Longrightarrow> same_config s' s'' \<Longrightarrow> same_config s s''"
  by (simp add: same_config_def)

lemma same_config_env [simp]:
  "same_config s (snd (now s))" "same_config s (snd (random_range a b s))"
  "same_config s (snd (elapsed i s))"
  "same_config s (s\<lparr>os_socket := o_s\<rparr>)" "same_config s (s\<lparr>fake_delayed_buffer := es\<rparr>)"
  "same_config s (s\<lparr>data_buffer := bs\<rparr>) \<longleftrightarrow> length bs = length (data_buffer s)"
  by (simp_all add: same_config_def now_def random_range_def elapsed_def)

lemma same_config_send: "addr_send addr n s = Some (b, s') \<Longrightarrow> same_config s s'"
  by (auto simp: addr_send_def Let_def split: if_splits)

lemma same_config_recv: "same_config s (snd (recv_from s))"
  by (auto simp: recv_from_def same_config_def Let_def split: list.splits option.splits)

lemma mset_swap_remove:
  assumes "i < length xs" "swap_remove i xs = (x, rest)"
  shows "mset xs = add_mset x (mset rest)"
proof -
  from assms(1) obtain ys y where xs: "xs = ys @ [y]" by (cases xs rule: rev_exhaust) auto
  have "rest = butlast (xs[i := y])" "x = xs ! i" using assms(2) xs by (simp_all add: swap_remove_def)
  then show ?thesis
    using assms(1) xs by (auto simp: list_update_append nth_append mset_update less_Suc_eq)
qed

lemma due_position_Some:
  assumes "due_position es i s = (Some k, s')"
  shows "i \<le> k \<and> k < i + length es \<and>
    (\<exists>m. snd (snd (snd (es ! (k - i)))) \<le> clock (os_socket s) m)"
  using assms
proof (induction es i s rule: due_position.induct)
  case (2 a b n t es i s)
  show ?case
  proof (cases "t - fst (now s) \<le> 0")
    case True
    then show ?thesis using 2(2) by (auto simp: now_def)
  next
    case False
    then have "due_position es (i + 1) (snd (now s)) = (Some k, s')"
      using 2(2) by (simp split: prod.splits)
    then have "i + 1 \<le> k \<and> k < i + 1 + length es \<and>
      (\<exists>m. snd (snd (snd (es ! (k - (i + 1))))) \<le> clock (os_socket (snd (now s))) m)"
      using 2(1) False by (metis prod.collapse)
    then show ?thesis by (auto simp: now_def nth_Cons' )
  qed
qed simp

lemma due_position_same: "fake_delayed_buffer (snd (due_position es i s)) = fake_delayed_buffer s"
  by (induction es i s rule: due_position.induct) (auto simp: now_def split: prod.splits)

text \<open>A delayed packet is delivered once, and not before its time.\<close>

lemma read_delayed_Some:
  assumes "read_delayed s = (Some (n, addr), s')"
  shows "\<exists>t m. mset (fake_delayed_buffer s) =
      add_mset (addr, data_buffer s', n, t) (mset (fake_delayed_buffer s'))
    \<and> t \<le> clock (os_socket s) m"
proof -
  obtain k s1 where k: "due_position (fake_delayed_buffer s) 0 s = (Some k, s1)"
    using assms by (auto simp: read_delayed_def split: prod.splits option.splits)
  have same: "fake_delayed_buffer s1 = fake_delayed_buffer s"
    using due_position_same [of "fake_delayed_buffer s" 0 s] k by simp
  obtain buf t rest where sw: "swap_remove k (fake_delayed_buffer s) = ((addr, buf, n, t), rest)"
      and s': "s' = s1\<lparr>fake_delayed_buffer := rest, data_buffer := buf\<rparr>"
    using assms k same by (auto simp: read_delayed_def split: prod.splits)
  have k': "k < length (fake_delayed_buffer s)"
      "\<exists>m. snd (snd (snd (fake_delayed_buffer s ! k))) \<le> clock (os_socket s) m"
    using due_position_Some [OF k] by simp_all
  have "fake_delayed_buffer s ! k = (addr, buf, n, t)" using sw by (simp add: swap_remove_def)
  then show ?thesis using mset_swap_remove [OF k'(1) sw] k'(2) s' by auto
qed

end
