(* ===== verification/Inner.thy ===== *)
theory Inner
  imports Ack Socket
begin

text \<open>
  \<open>mini_udp/src/communicator/inner.rs\<close>: the state of one connection and its sending half.
  \<open>flush_messages\<close> packs queued messages into packets, \<open>send_packets\<close> puts the packets
  that are due on the socket. The theorems about these routines are in \<open>Flush\<close> and
  \<open>Transmit\<close>; the receiving half is in \<open>Receive\<close>.
\<close>

section \<open>Outcomes\<close>

text \<open>What a call does: it returns, it panics, or a loop in it does not end.\<close>

datatype 'a outcome = Returns 'a | Panics | Diverges

fun outcome_bind :: "'a outcome \<Rightarrow> ('a \<Rightarrow> 'b outcome) \<Rightarrow> 'b outcome" where
  "outcome_bind (Returns x) f = f x"
| "outcome_bind Panics f = Panics"
| "outcome_bind Diverges f = Diverges"

definition or_panic :: "'a option \<Rightarrow> 'a outcome" where
  "or_panic x = (case x of Some y \<Rightarrow> Returns y | None \<Rightarrow> Panics)"

definition or_diverge :: "'a option \<Rightarrow> 'a outcome" where
  "or_diverge x = (case x of Some y \<Rightarrow> Returns y | None \<Rightarrow> Diverges)"

lemma or_panic_simps [simp]: "or_panic (Some x) = Returns x" "or_panic None = Panics"
  by (simp_all add: or_panic_def)

lemma or_diverge_simps [simp]: "or_diverge (Some x) = Returns x" "or_diverge None = Diverges"
  by (simp_all add: or_diverge_def)

section \<open>The state of a connection\<close>

record pending =
  pending_last_send :: instant
  remaining_retries :: nat
  pending_packet :: packet

record inner =
  reliable_send_packets :: "pending ring"
  reliable_ordered_send_packets :: "pending ring"
  reliable_received_packets :: "unit ring"
  reliable_ordered_received_packets :: "packet ring"
  ordered_read_packet_head :: u16
  unreliable_send_packet_id :: u16
  unreliable_send_packets :: "packet list"
  reliable_send_queue :: "rval list"
  reliable_ordered_send_queue :: "rval list"
  unreliable_send_queue :: "rval list"
  unordered_recv_queue :: "rval list"
  ordered_recv_queue :: "rval list"
  received_packet_duplicate :: bool
  last_seen :: instant
  last_send :: instant

text \<open>\<open>RingBuffer::new()\<close> with the default \<open>NUM_ITEMS = 32\<close>; its assertions hold.\<close>

definition rb_default :: "'a ring" where
  "rb_default = the (rb_new 32)"

definition inner_default :: "udp_socket \<Rightarrow> inner \<times> udp_socket" where
  "inner_default s =
     (case now s of (t1, s1) \<Rightarrow>
      case now s1 of (t2, s2) \<Rightarrow>
        (\<lparr>reliable_send_packets = rb_default, reliable_ordered_send_packets = rb_default,
          reliable_received_packets = rb_default, reliable_ordered_received_packets = rb_default,
          ordered_read_packet_head = 0, unreliable_send_packet_id = 0, unreliable_send_packets = [],
          reliable_send_queue = [], reliable_ordered_send_queue = [], unreliable_send_queue = [],
          unordered_recv_queue = [], ordered_recv_queue = [], received_packet_duplicate = False,
          last_seen = t1, last_send = t2\<rparr>, s2))"

section \<open>Packing messages\<close>

text \<open>The loop over the queue that counts \<open>included_msgs\<close>.\<close>

fun count_fitting :: "rval byte_repr \<Rightarrow> nat \<Rightarrow> rval list \<Rightarrow> nat" where
  "count_fitting d available [] = 0"
| "count_fitting d available (msg # msgs) =
     (if byte_len d msg \<le> available then Suc (count_fitting d (available - byte_len d msg) msgs)
      else 0)"

text \<open>One iteration of the loop of the function \<open>flush_messages\<close> for reliable packets.\<close>

definition flush_step ::
  "rval byte_repr \<Rightarrow> unit ring \<Rightarrow> packet ring \<Rightarrow> bool \<Rightarrow> pending ring \<Rightarrow> rval list \<Rightarrow> udp_socket
     \<Rightarrow> pending ring \<times> rval list \<times> udp_socket"
where
  "flush_step d rel ord is_ordered send_packets queue s =
     (let n = count_fitting d MAX_PACKET_DATA_LEN queue;
          sid = rb_next_index send_packets;
          p = \<lparr>ack = packet_ack_new sid rel ord, reliable = True, ordered = is_ordered,
               messages = take n queue\<rparr>;
          retries = (if is_ordered then max_reliable_ordered_retries s
                     else max_reliable_unordered_retries s);
          (t, s') = now s
      in (snd (rb_push send_packets
                \<lparr>pending_last_send = t - int (from_hours 1), remaining_retries = retries,
                 pending_packet = p\<rparr>),
          drop n queue, s'))"

partial_function (option) flush_loop ::
  "rval byte_repr \<Rightarrow> unit ring \<Rightarrow> packet ring \<Rightarrow> bool \<Rightarrow> pending ring \<Rightarrow> rval list \<Rightarrow> udp_socket
     \<Rightarrow> (pending ring \<times> rval list \<times> udp_socket) option"
where
  "flush_loop d rel ord is_ordered send_packets queue s =
     (if \<not> rb_push_will_override send_packets \<and> queue \<noteq> [] then
        (case flush_step d rel ord is_ordered send_packets queue s of (r, q, s') \<Rightarrow>
           flush_loop d rel ord is_ordered r q s')
      else Some (send_packets, queue, s))"

text \<open>One iteration of the loop over the unreliable queue, and that loop.\<close>

definition flush_unreliable_step :: "rval byte_repr \<Rightarrow> inner \<Rightarrow> inner" where
  "flush_unreliable_step d c =
     (let queue = unreliable_send_queue c;
          n = count_fitting d MAX_PACKET_DATA_LEN queue;
          sid = unreliable_send_packet_id c;
          p = \<lparr>ack = packet_ack_new sid (reliable_received_packets c) (reliable_ordered_received_packets c),
               reliable = False, ordered = False, messages = take n queue\<rparr>
      in c\<lparr>unreliable_send_packet_id := sid + 1, unreliable_send_queue := drop n queue,
           unreliable_send_packets := unreliable_send_packets c @ [p]\<rparr>)"

partial_function (option) flush_unreliable :: "rval byte_repr \<Rightarrow> inner \<Rightarrow> inner option" where
  "flush_unreliable d c =
     (if unreliable_send_queue c \<noteq> [] then flush_unreliable d (flush_unreliable_step d c)
      else Some c)"

text \<open>The method \<open>flush_messages\<close>.\<close>

definition flush_messages ::
  "udp_context \<Rightarrow> inner \<Rightarrow> udp_socket \<Rightarrow> (inner \<times> udp_socket) outcome"
where
  "flush_messages ctx c s =
     outcome_bind
       (or_diverge (flush_loop (SEND ctx) (reliable_received_packets c)
          (reliable_ordered_received_packets c) False (reliable_send_packets c)
          (reliable_send_queue c) s)) (\<lambda>(r1, q1, s1).
     outcome_bind
       (or_diverge (flush_loop (SEND ctx) (reliable_received_packets c)
          (reliable_ordered_received_packets c) True (reliable_ordered_send_packets c)
          (reliable_ordered_send_queue c) s1)) (\<lambda>(r2, q2, s2).
     outcome_bind
       (or_diverge (flush_unreliable (SEND ctx)
          (c\<lparr>reliable_send_packets := r1, reliable_send_queue := q1,
             reliable_ordered_send_packets := r2, reliable_ordered_send_queue := q2\<rparr>))) (\<lambda>c'.
     Returns (c', s2))))"

section \<open>Sending packets\<close>

text \<open>\<open>const CRC_ALGORITHM\<close> and \<open>const CRC\<close>: CRC-32/BZIP2 seeded with the protocol version.\<close>

definition CRC_ALGORITHM :: "udp_context \<Rightarrow> crc_algorithm" where
  "CRC_ALGORITHM ctx =
     \<lparr>crc_width = 32, crc_poly = 0x04c11db7, crc_init = PROTOCOL_VERSION ctx, crc_refin = False,
      crc_refout = False, crc_xorout = 0xffffffff, crc_check = 0xfc891918, crc_residue = 0xc704dd7b\<rparr>"

definition CRC :: "crate_env \<Rightarrow> udp_context \<Rightarrow> u8 list \<Rightarrow> u32" where
  "CRC env ctx bs = crc_checksum env (CRC_ALGORITHM ctx) bs"

text \<open>
  The lines both senders share: write the packet after the first four bytes of the buffer
  and the checksum of what was written into these four bytes.
\<close>

definition put_packet :: "rval byte_repr \<Rightarrow> (u8 list \<Rightarrow> u32) \<Rightarrow> packet \<Rightarrow> udp_socket \<Rightarrow> udp_socket res" where
  "put_packet d crc p s =
     (if length (data_buffer s) < 4 then Panic
      else res_bind (write_to_bytes (packet_repr d) p (drop 4 (data_buffer s))) (\<lambda>tail.
        if length tail < byte_len (packet_repr d) p then Panic
        else Ok (s\<lparr>data_buffer :=
               to_le_bytes 4 (unat (crc (take (byte_len (packet_repr d) p) tail))) @ tail\<rparr>)))"

text \<open>
  \<open>*remaining_retries -= 1\<close> on a \<open>usize\<close>: at 0 it panics in a build with overflow checks, and wraps
  around in one without.
\<close>

definition decrement :: "crate_env \<Rightarrow> nat \<Rightarrow> nat option" where
  "decrement env n =
     (if 0 < n then Some (n - 1) else if overflow_checks env then None else Some usize_MAX)"

text \<open>\<open>fn resend_if_needed\<close>; the last component is \<open>any_send\<close>.\<close>

definition resend_if_needed ::
  "crate_env \<Rightarrow> rval byte_repr \<Rightarrow> (u8 list \<Rightarrow> u32) \<Rightarrow> socket_addr option \<Rightarrow> pending \<Rightarrow> udp_socket \<times> bool
     \<Rightarrow> (bool \<times> pending \<times> udp_socket \<times> bool) option"
where
  "resend_if_needed env d crc addr pp st =
     (case st of (s, any_send) \<Rightarrow>
      let p = pending_packet pp;
          send_cooldown = (if ordered p then reliable_ordered_resend_interval s
                           else reliable_unordered_resend_interval s);
          (e, s1) = elapsed (pending_last_send pp) s
      in if send_cooldown < e then
           (let (t, s2) = now s1
            in case put_packet d crc p s2 of
                 Ok s3 \<Rightarrow>
                   (case addr_send addr (4 + byte_len (packet_repr d) p) s3 of
                      None \<Rightarrow> None
                    | Some (ok, s4) \<Rightarrow>
                        (case decrement env (remaining_retries pp) of
                           None \<Rightarrow> None
                         | Some left \<Rightarrow>
                             Some (left \<noteq> 0, pp\<lparr>pending_last_send := t, remaining_retries := left\<rparr>,
                                   s4, any_send \<or> ok)))
               | Err _ \<Rightarrow> None
               | Panic \<Rightarrow> None)
         else Some (True, pp, s1, any_send))"

text \<open>
  The loop over the drained unreliable packets. An early return drops the packets that are
  left, since \<open>drain(..)\<close> empties the queue when it goes out of scope.
\<close>

fun send_unreliable ::
  "rval byte_repr \<Rightarrow> (u8 list \<Rightarrow> u32) \<Rightarrow> socket_addr option \<Rightarrow> packet list \<Rightarrow> udp_socket \<times> bool
     \<Rightarrow> (byte_repr_error option \<times> udp_socket \<times> bool) option"
where
  "send_unreliable d crc addr [] (s, any_send) = Some (None, s, any_send)"
| "send_unreliable d crc addr (p # ps) (s, any_send) =
     (case put_packet d crc p s of
        Ok s1 \<Rightarrow>
          (case addr_send addr (4 + byte_len (packet_repr d) p) s1 of
             None \<Rightarrow> None
           | Some (ok, s2) \<Rightarrow> send_unreliable d crc addr ps (s2, any_send \<or> ok))
      | Err e \<Rightarrow> Some (Some e, s, any_send)
      | Panic \<Rightarrow> None)"

text \<open>\<open>fn send_packets\<close>; the first component is the error it returns, if any.\<close>

definition send_packets ::
  "crate_env \<Rightarrow> udp_context \<Rightarrow> socket_addr option \<Rightarrow> inner \<Rightarrow> udp_socket
     \<Rightarrow> (byte_repr_error option \<times> inner \<times> udp_socket) outcome"
where
  "send_packets env ctx addr c s =
     (let d = SEND ctx; crc = CRC env ctx
      in outcome_bind
           (or_panic (rb_retain (\<lambda>_. resend_if_needed env d crc addr) (reliable_send_packets c) (s, False)))
           (\<lambda>(r1, st1).
         outcome_bind
           (or_panic (rb_retain (\<lambda>_. resend_if_needed env d crc addr) (reliable_ordered_send_packets c) st1))
           (\<lambda>(r2, st2).
         outcome_bind (or_panic (send_unreliable d crc addr (unreliable_send_packets c) st2))
           (\<lambda>(err, s3, any_send).
              let c' = c\<lparr>reliable_send_packets := r1, reliable_ordered_send_packets := r2,
                         unreliable_send_packets := []\<rparr>
              in if err = None \<and> any_send
                 then (case now s3 of (t, s4) \<Rightarrow> Returns (None, c'\<lparr>last_send := t\<rparr>, s4))
                 else Returns (err, c', s3)))))"

section \<open>The interface of the sending half\<close>

text \<open>\<open>fn write_heartbeat\<close>, and the same lines in \<open>send\<close>.\<close>

definition inner_write_heartbeat :: "inner \<Rightarrow> inner" where
  "inner_write_heartbeat c =
     (let sid = unreliable_send_packet_id c
      in c\<lparr>unreliable_send_packet_id := sid + 1,
           unreliable_send_packets := unreliable_send_packets c @
             [heartbeat (packet_ack_new sid (reliable_received_packets c)
                          (reliable_ordered_received_packets c))]\<rparr>)"

definition inner_send ::
  "crate_env \<Rightarrow> udp_context \<Rightarrow> socket_addr option \<Rightarrow> inner \<Rightarrow> udp_socket
     \<Rightarrow> (byte_repr_error option \<times> inner \<times> udp_socket) outcome"
where
  "inner_send env ctx addr c s =
     (let c1 = (if received_packet_duplicate c \<and> reliable_send_queue c = []
                  \<and> reliable_ordered_send_queue c = [] \<and> unreliable_send_queue c = []
                then inner_write_heartbeat c else c);
          c2 = c1\<lparr>received_packet_duplicate := False\<rparr>
      in outcome_bind (flush_messages ctx c2 s) (\<lambda>(c3, s3). send_packets env ctx addr c3 s3))"

definition has_work :: "inner \<Rightarrow> bool" where
  "has_work c \<longleftrightarrow>
     \<not> (rb_is_empty (reliable_send_packets c) \<and> rb_is_empty (reliable_ordered_send_packets c)
        \<and> unreliable_send_packets c = [] \<and> reliable_send_queue c = []
        \<and> reliable_ordered_send_queue c = [] \<and> unreliable_send_queue c = [])"

section \<open>Fresh connections\<close>

lemma rb_default_eq: "(rb_default :: 'a ring) = \<lparr>newest = u16_MAX, items = replicate 32 None\<rparr>"
proof -
  have "(32 :: nat) dvd 65536" by simp
  then have "(rb_new 32 :: 'a ring option) = Some \<lparr>newest = u16_MAX, items = replicate 32 None\<rparr>"
    by (simp only: rb_new_Some_iff) simp
  then show ?thesis by (simp only: rb_default_def option.sel)
qed

lemma rb_default_simps [simp]:
  "rb_wf rb_default" "num_items rb_default = 32" "newest rb_default = u16_MAX"
  "rb_get rb_default i = None"
  by (simp_all add: rb_default_eq rb_wf_def num_items_def rb_get_alt)

end
