(* ===== verification/Flush.thy ===== *)
theory Flush
  imports Inner
begin

text \<open>
  Correctness of \<open>flush_messages\<close> of \<open>communicator/inner.rs\<close>: messages are packed in order
  and without loss, every packet fits the buffer, packets get consecutive numbers, the
  reliable loops always end, and the unreliable loop ends exactly when no message is
  larger than a packet.
\<close>

section \<open>Packing\<close>

abbreviation total_len :: "rval byte_repr \<Rightarrow> rval list \<Rightarrow> nat" where
  "total_len d msgs \<equiv> sum_list (map (byte_len d) msgs)"

lemma count_fitting_le: "count_fitting d available msgs \<le> length msgs"
  by (induction d available msgs rule: count_fitting.induct) auto

lemma count_fitting_fits: "total_len d (take (count_fitting d available msgs) msgs) \<le> available"
  by (induction d available msgs rule: count_fitting.induct) auto

lemma count_fitting_maximal:
  "count_fitting d available msgs < n \<Longrightarrow> n \<le> length msgs \<Longrightarrow> available < total_len d (take n msgs)"
proof (induction d available msgs arbitrary: n rule: count_fitting.induct)
  case (2 d available msg msgs)
  then obtain m where n: "n = Suc m" by (cases n) auto
  show ?case
  proof (cases "byte_len d msg \<le> available")
    case True
    then have "available - byte_len d msg < total_len d (take m msgs)"
      using 2 n by (intro 2(1)) auto
    then show ?thesis using n True by auto
  qed (use n in auto)
qed simp

lemma count_fitting_0_iff:
  "count_fitting d available msgs = 0 \<longleftrightarrow> msgs = [] \<or> available < byte_len d (hd msgs)"
  by (cases msgs) auto

lemma drop_count_shorter:
  "msgs \<noteq> [] \<Longrightarrow> byte_len d (hd msgs) \<le> available \<Longrightarrow>
   length (drop (count_fitting d available msgs) msgs) < length msgs"
  using count_fitting_0_iff [of d available msgs] by auto

section \<open>The reliable loops\<close>

text \<open>What the loop puts into the cache: chunk \<open>k\<close> under the \<open>k\<close>-th number after the newest.\<close>

definition new_pending ::
  "unit ring \<Rightarrow> packet ring \<Rightarrow> bool \<Rightarrow> udp_socket \<Rightarrow> nat \<Rightarrow> u16 \<Rightarrow> rval list \<Rightarrow> pending"
where
  "new_pending rel ord o_d s k sid msgs =
     \<lparr>pending_last_send = clock (os_socket s) (readings (os_socket s) + k) - int (from_hours 1),
      remaining_retries = (if o_d then max_reliable_ordered_retries s else max_reliable_unordered_retries s),
      pending_packet = \<lparr>ack = packet_ack_new sid rel ord, reliable = True, ordered = o_d, messages = msgs\<rparr>\<rparr>"

definition queued ::
  "unit ring \<Rightarrow> packet ring \<Rightarrow> bool \<Rightarrow> udp_socket \<Rightarrow> rval list list \<Rightarrow> pending ring \<Rightarrow> pending ring \<Rightarrow> bool"
where
  "queued rel ord o_d s chunks r r' \<longleftrightarrow>
     newest r' = newest r + word_of_nat (length chunks) \<and> num_items r' = num_items r
   \<and> (\<forall>j. rb_get r' j =
        (if 0 < ahead j (newest r) \<and> ahead j (newest r) \<le> length chunks
         then Some (new_pending rel ord o_d s (ahead j (newest r) - 1) j (chunks ! (ahead j (newest r) - 1)))
         else rb_get r j))"

lemma queued_Nil: "queued rel ord o_d s [] r r"
  by (auto simp: queued_def)

lemma ahead_back: "ahead w (w + 1) = 65535"
  using ahead_flip [of "w + 1" w] by simp

lemma ahead_pred:
  assumes "j \<noteq> w"
  shows "ahead j (w + 1) = ahead j w - 1 \<and> 0 < ahead j w"
  using assms unat_u16_lt [of j] unat_u16_lt [of w]
  by (auto simp: ahead_def seq_arith u16_eq_iff_unat)

lemma queued_Cons:
  assumes r: "rb_wf r" "\<not> rb_push_will_override r"
    and r1: "r1 = snd (rb_push r (new_pending rel ord o_d s 0 (newest r + 1) c))"
    and rest: "queued rel ord o_d (snd (now s)) cs r1 r'" and len: "length cs < 65535"
  shows "queued rel ord o_d s (c # cs) r r'"
proof -
  have shift: "new_pending rel ord o_d (snd (now s)) k j m = new_pending rel ord o_d s (Suc k) j m" for k j m
    by (simp add: new_pending_def now_def)
  have "rb_get r' j =
      (if 0 < ahead j (newest r) \<and> ahead j (newest r) \<le> length (c # cs)
       then Some (new_pending rel ord o_d s (ahead j (newest r) - 1) j ((c # cs) ! (ahead j (newest r) - 1)))
       else rb_get r j)" for j
  proof (cases "j = newest r"; cases "j = newest r + 1")
    assume j: "j = newest r" "j \<noteq> newest r + 1"
    have "rb_get r' j = rb_get r1 j" using rest len j ahead_back [of "newest r"] by (simp add: queued_def r1)
    then show ?thesis using j r by (simp add: r1 rb_get_push_free)
  next
    assume j: "j \<noteq> newest r" "j = newest r + 1"
    have "rb_get r' j = rb_get r1 j" using rest j by (simp add: queued_def r1)
    then show ?thesis using j r by (simp add: r1 rb_get_push_free)
  next
    assume False: "j \<noteq> newest r" "j \<noteq> newest r + 1"
    define k where "k = ahead j (newest r) - 2"
    have "0 < ahead j (newest r + 1)" using False ahead_0_iff [of j "newest r + 1"] by simp
    then have k: "ahead j (newest r) = Suc (Suc k)" "ahead j (newest r + 1) = Suc k"
      using ahead_pred [OF False(1)] by (auto simp: k_def)
    then show ?thesis
      using rest False k r by (simp add: queued_def r1 rb_get_push_free shift)
  qed simp
  then show ?thesis using rest by (simp add: queued_def r1)
qed

lemma rb_len_push_free:
  assumes "rb_wf r" "\<not> rb_push_will_override r"
  shows "rb_len (snd (rb_push r x)) = Suc (rb_len r)"
proof -
  have "\<not> live r (newest r + 1)"
    using rb_wfD [OF assms(1)] by (simp add: ahead_back)
  then have "newest r + 1 \<notin> {i. rb_get r i \<noteq> None}" using rb_get_not_live by simp
  moreover have "{i. rb_get (snd (rb_push r x)) i \<noteq> None} = insert (newest r + 1) {i. rb_get r i \<noteq> None}"
    using rb_get_push_free [OF assms, of x] by auto
  ultimately show ?thesis
    using rb_len_card [OF assms(1)] rb_len_card [of "snd (rb_push r x)"] assms(1) by simp
qed

text \<open>The state in which the loop stops.\<close>

definition flushed ::
  "rval byte_repr \<Rightarrow> rval list \<Rightarrow> rval list list \<Rightarrow> rval list \<Rightarrow> pending ring \<Rightarrow> bool"
where
  "flushed d queue chunks queue' r' \<longleftrightarrow>
     queue = concat chunks @ queue' \<and> (\<forall>c \<in> set chunks. total_len d c \<le> MAX_PACKET_DATA_LEN)
   \<and> (queue' = [] \<or> rb_push_will_override r')"

lemma flush_step_eq:
  "flush_step d rel ord o_d r q s =
   (let n = count_fitting d MAX_PACKET_DATA_LEN q
    in (snd (rb_push r (new_pending rel ord o_d s 0 (newest r + 1) (take n q))), drop n q, snd (now s)))"
  by (simp add: flush_step_def new_pending_def Let_def now_def rb_next_index_def)

lemma flush_loop_ok:
  assumes "rb_wf r"
  shows "\<exists>chunks r' q'. flush_loop d rel ord o_d r q s =
      Some (r', q', s\<lparr>os_socket := (os_socket s)\<lparr>readings := readings (os_socket s) + length chunks\<rparr>\<rparr>)
    \<and> queued rel ord o_d s chunks r r' \<and> flushed d q chunks q' r' \<and> length chunks + rb_len r \<le> num_items r"
  using assms
proof (induction "num_items r - rb_len r" arbitrary: r q s rule: less_induct)
  case less
  show ?case
  proof (cases "\<not> rb_push_will_override r \<and> q \<noteq> []")
    case False
    then show ?thesis using rb_len_le [of r]
      by (subst flush_loop.simps, intro exI [of _ "[]"]) (auto simp: queued_Nil flushed_def)
  next
    case True
    let ?n = "count_fitting d MAX_PACKET_DATA_LEN q"
    let ?r = "snd (rb_push r (new_pending rel ord o_d s 0 (newest r + 1) (take ?n q)))"
    have len: "rb_len ?r = Suc (rb_len r)" using True less.prems by (simp add: rb_len_push_free)
    then have "num_items ?r - rb_len ?r < num_items r - rb_len r"
      using rb_len_le [of ?r] by simp
    then obtain chunks r' q' where rest:
      "flush_loop d rel ord o_d ?r (drop ?n q) (snd (now s)) = Some (r', q', (snd (now s))
        \<lparr>os_socket := (os_socket (snd (now s)))\<lparr>readings := readings (os_socket (snd (now s))) + length chunks\<rparr>\<rparr>)"
      "queued rel ord o_d (snd (now s)) chunks ?r r'" "flushed d (drop ?n q) chunks q' r'"
      "length chunks + rb_len ?r \<le> num_items ?r"
      using less.hyps [of ?r "drop ?n q" "snd (now s)"] less.prems by auto
    have "length chunks < 65535" using rest(4) rb_wfD [OF less.prems] by simp
    then have "queued rel ord o_d s (take ?n q # chunks) r r'"
      using rest True less.prems by (intro queued_Cons) auto
    moreover have "flushed d q (take ?n q # chunks) q' r'"
      using rest(3) count_fitting_fits [of d MAX_PACKET_DATA_LEN q]
        append_take_drop_id [of ?n q] by (auto simp: flushed_def simp del: append_take_drop_id)
    ultimately show ?thesis
      using rest(1,4) True len
      by (subst flush_loop.simps, intro exI [of _ "take ?n q # chunks"])
         (auto simp: flush_step_eq Let_def now_def)
  qed
qed

section \<open>The unreliable loop\<close>

lemma flush_unreliable_step_queue:
  "unreliable_send_queue (flush_unreliable_step d c) =
   drop (count_fitting d MAX_PACKET_DATA_LEN (unreliable_send_queue c)) (unreliable_send_queue c)"
  by (simp add: flush_unreliable_step_def Let_def)

definition unreliable_packet :: "inner \<Rightarrow> nat \<Rightarrow> rval list \<Rightarrow> packet" where
  "unreliable_packet c k msgs =
     \<lparr>ack = packet_ack_new (unreliable_send_packet_id c + word_of_nat k) (reliable_received_packets c)
        (reliable_ordered_received_packets c),
      reliable = False, ordered = False, messages = msgs\<rparr>"

definition with_packets :: "inner \<Rightarrow> rval list list \<Rightarrow> inner" where
  "with_packets c chunks =
     c\<lparr>unreliable_send_packet_id := unreliable_send_packet_id c + word_of_nat (length chunks),
       unreliable_send_queue := [],
       unreliable_send_packets := unreliable_send_packets c @
         map2 (unreliable_packet c) [0..<length chunks] chunks\<rparr>"

lemma flush_unreliable_step_eq:
  "flush_unreliable_step d c =
   (let n = count_fitting d MAX_PACKET_DATA_LEN (unreliable_send_queue c)
    in c\<lparr>unreliable_send_packet_id := unreliable_send_packet_id c + 1,
         unreliable_send_queue := drop n (unreliable_send_queue c),
         unreliable_send_packets := unreliable_send_packets c @
           [unreliable_packet c 0 (take n (unreliable_send_queue c))]\<rparr>)"
  by (simp add: flush_unreliable_step_def unreliable_packet_def Let_def)

lemma with_packets_step:
  "with_packets (c\<lparr>unreliable_send_packet_id := unreliable_send_packet_id c + 1,
       unreliable_send_queue := q, unreliable_send_packets := unreliable_send_packets c @
         [unreliable_packet c 0 msgs]\<rparr>) chunks = with_packets c (msgs # chunks)"
proof -
  let ?c = "c\<lparr>unreliable_send_packet_id := unreliable_send_packet_id c + 1,
       unreliable_send_queue := q, unreliable_send_packets := unreliable_send_packets c @
         [unreliable_packet c 0 msgs]\<rparr>"
  have "unreliable_packet ?c k m = unreliable_packet c (Suc k) m" for k m
    by (simp add: unreliable_packet_def add.commute add.left_commute)
  then have "map2 (unreliable_packet ?c) [0..<length chunks] chunks =
      map2 (unreliable_packet c) [1..<Suc (length chunks)] chunks"
    by (intro nth_equalityI) (auto simp del: upt_Suc)
  then show ?thesis
    by (simp add: with_packets_def upt_conv_Cons add.commute add.left_commute del: upt_Suc)
qed

lemma flush_unreliable_ok:
  assumes "\<forall>m \<in> set (unreliable_send_queue c). byte_len d m \<le> MAX_PACKET_DATA_LEN"
  shows "\<exists>chunks. flush_unreliable d c = Some (with_packets c chunks)
    \<and> concat chunks = unreliable_send_queue c
    \<and> (\<forall>ch \<in> set chunks. ch \<noteq> [] \<and> total_len d ch \<le> MAX_PACKET_DATA_LEN)"
  using assms
proof (induction "length (unreliable_send_queue c)" arbitrary: c rule: less_induct)
  case less
  let ?q = "unreliable_send_queue c"
  let ?n = "count_fitting d MAX_PACKET_DATA_LEN ?q"
  show ?case
  proof (cases "?q = []")
    case True
    then show ?thesis
      by (subst flush_unreliable.simps, intro exI [of _ "[]"]) (simp add: with_packets_def)
  next
    case False
    have "?n \<noteq> 0" using False less.prems by (auto simp: count_fitting_0_iff not_less)
    obtain chunks where rest: "flush_unreliable d (flush_unreliable_step d c) =
          Some (with_packets (flush_unreliable_step d c) chunks)"
        "concat chunks = drop ?n ?q" "\<forall>ch \<in> set chunks. ch \<noteq> [] \<and> total_len d ch \<le> MAX_PACKET_DATA_LEN"
      using less.hyps [of "flush_unreliable_step d c"] less.prems False \<open>?n \<noteq> 0\<close>
      by (auto simp: flush_unreliable_step_queue dest: in_set_dropD)
    then show ?thesis
      using False \<open>?n \<noteq> 0\<close> count_fitting_fits [of d MAX_PACKET_DATA_LEN ?q]
      by (subst flush_unreliable.simps, intro exI [of _ "take ?n ?q # chunks"])
         (simp add: flush_unreliable_step_eq Let_def with_packets_step)
  qed
qed

lemma flush_unreliable_Some:
  assumes "flush_unreliable d c = Some c'"
  shows "\<forall>m \<in> set (unreliable_send_queue c). byte_len d m \<le> MAX_PACKET_DATA_LEN"
proof (rule flush_unreliable.raw_induct [OF _ assms])
  fix f d c c'
  assume IH: "\<And>d c c'. f d c = Some c' \<Longrightarrow>
      \<forall>m \<in> set (unreliable_send_queue c). byte_len d m \<le> MAX_PACKET_DATA_LEN"
    and body: "(if unreliable_send_queue c \<noteq> [] then f d (flush_unreliable_step d c) else Some c) = Some c'"
  show "\<forall>m \<in> set (unreliable_send_queue c). byte_len d m \<le> MAX_PACKET_DATA_LEN"
  proof (cases "unreliable_send_queue c = []")
    case False
    let ?q = "unreliable_send_queue c"
    let ?n = "count_fitting d MAX_PACKET_DATA_LEN ?q"
    have "\<forall>m \<in> set (drop ?n ?q). byte_len d m \<le> MAX_PACKET_DATA_LEN"
      using IH body False by (simp add: flush_unreliable_step_queue)
    moreover have "byte_len d m \<le> MAX_PACKET_DATA_LEN" if "m \<in> set (take ?n ?q)" for m
      using that count_fitting_fits [of d MAX_PACKET_DATA_LEN ?q]
        member_le_sum_list [of "byte_len d m" "map (byte_len d) (take ?n ?q)"] by auto
    moreover have "set ?q = set (take ?n ?q) \<union> set (drop ?n ?q)"
      by (metis append_take_drop_id set_append)
    ultimately show ?thesis by blast
  qed simp
qed

lemma flush_unreliable_None_iff:
  "flush_unreliable d c = None \<longleftrightarrow>
   (\<exists>m \<in> set (unreliable_send_queue c). MAX_PACKET_DATA_LEN < byte_len d m)"
  using flush_unreliable_ok [of c d] flush_unreliable_Some [of d c]
  by (cases "flush_unreliable d c") (auto simp: not_le [symmetric])

end
