(* ===== verification/Transmit.thy ===== *)
theory Transmit
  imports Flush
begin

text \<open>
  Correctness of the sending half of \<open>communicator/inner.rs\<close>: the datagram a packet is sent
  in, when a reliable packet is sent again and when it is given up, and that \<open>send\<close> returns
  without error and keeps the invariant of a connection.
\<close>

section \<open>Datagrams\<close>

definition frame :: "rval byte_repr \<Rightarrow> (u8 list \<Rightarrow> u32) \<Rightarrow> packet \<Rightarrow> u8 list" where
  "frame d crc p =
     to_le_bytes 4 (unat (crc (encode (packet_repr d) p))) @ encode (packet_repr d) p"

definition packet_ok :: "rval byte_repr \<Rightarrow> packet \<Rightarrow> bool" where
  "packet_ok d p \<longleftrightarrow> self_type (packet_repr d) p \<and> total_len d (messages p) \<le> MAX_PACKET_DATA_LEN"

lemma length_frame:
  "lawful_repr d \<Longrightarrow> packet_ok d p \<Longrightarrow> length (frame d crc p) = 4 + byte_len (packet_repr d) p"
  using lawful_repr.encode_length [OF packet_repr_lawful, of d p] by (simp add: frame_def packet_ok_def)

lemma packet_ok_len: "packet_ok d p \<Longrightarrow> byte_len (packet_repr d) p \<le> 1044"
  by (simp add: packet_ok_def packet_byte_len MAX_PACKET_DATA_LEN_def)

lemma length_frame_le:
  "lawful_repr d \<Longrightarrow> packet_ok d p \<Longrightarrow> length (frame d crc p) \<le> MAX_PACKET_LEN"
  using packet_ok_len [of d p]
  by (simp add: length_frame MAX_PACKET_LEN_def PACKET_HEADER_LEN_def MAX_PACKET_DATA_LEN_def)

text \<open>The datagram in the buffer, and the buffer on the socket.\<close>

definition transmitted ::
  "socket_addr option \<Rightarrow> u8 list \<Rightarrow> udp_socket \<Rightarrow> bool \<times> udp_socket" where
  "transmitted addr f s =
     (let o_s = os_socket s; ok = send_ok o_s (sends o_s)
      in (ok, s\<lparr>data_buffer := f @ drop (length f) (data_buffer s),
           os_socket := o_s\<lparr>sends := sends o_s + 1,
             outbox := outbox o_s @ (if ok then [(addr, f)] else [])\<rparr>\<rparr>))"

lemma put_packet_ok:
  assumes "lawful_repr d" "packet_ok d p" "length (data_buffer s) = MAX_PACKET_LEN"
  shows "put_packet d crc p s =
    Ok (s\<lparr>data_buffer := frame d crc p @ drop (length (frame d crc p)) (data_buffer s)\<rparr>)"
proof -
  have ty: "self_type (packet_repr d) p" using assms(2) by (simp add: packet_ok_def)
  have len: "byte_len (packet_repr d) p \<le> length (drop 4 (data_buffer s))"
    using packet_ok_len [OF assms(2)] assms(3)
    by (simp add: MAX_PACKET_LEN_def PACKET_HEADER_LEN_def MAX_PACKET_DATA_LEN_def)
  note law = packet_repr_lawful [OF assms(1)]
  have "4 \<le> length (data_buffer s)"
    using assms(3) by (simp add: MAX_PACKET_LEN_def PACKET_HEADER_LEN_def)
  then show ?thesis
    using lawful_repr.write_ok [OF law ty len] lawful_repr.encode_length [OF law ty] len
      length_frame [OF assms(1,2), of crc]
    by (simp add: put_packet_def frame_def add.commute)
qed

lemma put_send_ok:
  assumes "lawful_repr d" "packet_ok d p" "length (data_buffer s) = MAX_PACKET_LEN"
  shows "\<exists>s1. put_packet d crc p s = Ok s1
    \<and> addr_send addr (4 + byte_len (packet_repr d) p) s1 = Some (transmitted addr (frame d crc p) s)"
  using put_packet_ok [OF assms] length_frame [OF assms(1,2), of crc]
    length_frame_le [OF assms(1,2), of crc] assms(3)
  by (simp add: addr_send_def transmitted_def Let_def)

text \<open>What a routine adds to the outbox: datagrams of packets of \<open>ps\<close>.\<close>

definition emits ::
  "rval byte_repr \<Rightarrow> (u8 list \<Rightarrow> u32) \<Rightarrow> socket_addr option \<Rightarrow> packet set \<Rightarrow> udp_socket \<Rightarrow> udp_socket \<Rightarrow> bool"
where
  "emits d crc addr ps s s' \<longleftrightarrow> same_config s s' \<and>
     (\<exists>qs. set qs \<subseteq> ps \<and>
        outbox (os_socket s') = outbox (os_socket s) @ map (\<lambda>p. (addr, frame d crc p)) qs)"

lemma emits_refl: "same_config s s' \<Longrightarrow> outbox (os_socket s') = outbox (os_socket s) \<Longrightarrow> emits d crc addr ps s s'"
  unfolding emits_def by (intro conjI exI [of _ "[]"]) simp_all

lemma emits_trans:
  assumes "emits d crc addr ps s s'" "emits d crc addr ps' s' s''"
  shows "emits d crc addr (ps \<union> ps') s s''"
proof -
  obtain qs qs' where "set qs \<subseteq> ps" "set qs' \<subseteq> ps'"
      "outbox (os_socket s') = outbox (os_socket s) @ map (\<lambda>p. (addr, frame d crc p)) qs"
      "outbox (os_socket s'') = outbox (os_socket s') @ map (\<lambda>p. (addr, frame d crc p)) qs'"
    using assms by (auto simp: emits_def)
  then show ?thesis
    using assms same_config_trans [of s s' s''] unfolding emits_def
    by (intro conjI exI [of _ "qs @ qs'"]) auto
qed

lemma emits_mono: "emits d crc addr ps s s' \<Longrightarrow> ps \<subseteq> ps' \<Longrightarrow> emits d crc addr ps' s s'"
  unfolding emits_def by blast

lemma emits_transmitted:
  assumes "length (frame d crc p) \<le> length (data_buffer s)"
  shows "emits d crc addr {p} s (snd (transmitted addr (frame d crc p) s))"
proof (cases "send_ok (os_socket s) (sends (os_socket s))")
  case True
  then show ?thesis using assms unfolding emits_def
    by (intro conjI exI [of _ "[p]"]) (simp_all add: transmitted_def Let_def same_config_def)
next
  case False
  then show ?thesis using assms
    by (intro emits_refl) (simp_all add: transmitted_def Let_def same_config_def)
qed

section \<open>Sending a reliable packet again\<close>

definition cooldown :: "packet \<Rightarrow> udp_socket \<Rightarrow> nat" where
  "cooldown p s = (if ordered p then reliable_ordered_resend_interval s
                   else reliable_unordered_resend_interval s)"

definition due :: "pending \<Rightarrow> udp_socket \<Rightarrow> bool" where
  "due pp s \<longleftrightarrow> cooldown (pending_packet pp) s < nat (fst (now s) - pending_last_send pp)"

lemma elapsed_eq: "elapsed i s = (nat (fst (now s) - i), snd (now s))"
  by (simp add: elapsed_def case_prod_beta)

lemma resend_if_needed_eq:
  "resend_if_needed env d crc addr pp (s, a) =
   (if due pp s then
      (case put_packet d crc (pending_packet pp) (snd (now (snd (now s)))) of
         Ok s3 \<Rightarrow>
           (case addr_send addr (4 + byte_len (packet_repr d) (pending_packet pp)) s3 of
              None \<Rightarrow> None
            | Some (ok, s4) \<Rightarrow>
                (case decrement env (remaining_retries pp) of
                   None \<Rightarrow> None
                 | Some left \<Rightarrow>
                     Some (left \<noteq> 0, pp\<lparr>pending_last_send := fst (now (snd (now s))),
                              remaining_retries := left\<rparr>, s4, a \<or> ok)))
       | Err _ \<Rightarrow> None
       | Panic \<Rightarrow> None)
    else Some (True, pp, snd (now s), a))"
  by (simp add: resend_if_needed_def due_def cooldown_def elapsed_eq Let_def case_prod_beta
    cong: if_cong res.case_cong option.case_cong)

lemma resend_not_due:
  "\<not> due pp s \<Longrightarrow> resend_if_needed env d crc addr pp (s, a) = Some (True, pp, snd (now s), a)"
  by (simp add: resend_if_needed_eq)

lemma resend_due:
  assumes "lawful_repr d" "packet_ok d (pending_packet pp)" "length (data_buffer s) = MAX_PACKET_LEN"
    and "due pp s" "0 < remaining_retries pp"
  shows "resend_if_needed env d crc addr pp (s, a) =
    (case transmitted addr (frame d crc (pending_packet pp)) (snd (now (snd (now s)))) of (ok, s') \<Rightarrow>
       Some (remaining_retries pp \<noteq> 1,
             pp\<lparr>pending_last_send := fst (now (snd (now s))),
                remaining_retries := remaining_retries pp - 1\<rparr>, s', a \<or> ok))"
proof -
  let ?s = "snd (now (snd (now s)))"
  have "length (data_buffer ?s) = MAX_PACKET_LEN" using assms(3) by (simp add: now_def)
  then obtain s1 where "put_packet d crc (pending_packet pp) ?s = Ok s1"
      "addr_send addr (4 + byte_len (packet_repr d) (pending_packet pp)) s1 =
       Some (transmitted addr (frame d crc (pending_packet pp)) ?s)"
    using put_send_ok [OF assms(1,2)] by blast
  then show ?thesis using assms(4,5) by (auto simp: resend_if_needed_eq decrement_def split: prod.splits)
qed

text \<open>
  With no retry left the subtraction panics, after the packet was sent, if overflow is checked;
  otherwise the packet has as many retries as a \<open>usize\<close> can count.
\<close>

lemma resend_no_retries:
  assumes "due pp s" "remaining_retries pp = 0"
  shows "overflow_checks env \<Longrightarrow> resend_if_needed env d crc addr pp (s, a) = None"
    and "\<not> overflow_checks env \<Longrightarrow> resend_if_needed env d crc addr pp (s, a) = Some (k, pp', st) \<Longrightarrow>
      k \<and> remaining_retries pp' = usize_MAX"
  using assms
  by (auto simp: resend_if_needed_eq decrement_def usize_MAX_def split: res.splits option.splits prod.splits)

section \<open>Loops over the caches\<close>

lemma retain_list_inv:
  assumes "\<forall>(i, v) \<in> set es. Q i v" "S s"
    and "\<And>i v s. Q i v \<Longrightarrow> S s \<Longrightarrow> \<exists>k v' s'. f i v s = Some (k, v', s') \<and> S s' \<and> (k \<longrightarrow> Q i v')"
  shows "\<exists>es' s'. retain_list f es s = Some (es', s') \<and> (\<forall>(i, v) \<in> set es'. Q i v) \<and> S s'"
  using assms(1,2)
proof (induction es arbitrary: s)
  case (Cons e es)
  obtain i v where e: "e = (i, v)" by (cases e)
  obtain k v' s' where "f i v s = Some (k, v', s')" "S s'" "k \<longrightarrow> Q i v'"
    using assms(3) [of i v s] Cons.prems e by auto
  then show ?case using Cons.IH [of s'] Cons.prems e by fastforce
qed simp

lemma rb_entries_get: "rb_wf r \<Longrightarrow> (i, v) \<in> set (rb_entries r) \<Longrightarrow> rb_get r i = Some v"
  using map_of_rb_entries [of r i] distinct_rb_keys [of r]
  by (metis map_of_eq_Some_iff rb_keys_def)

lemma rb_retain_inv:
  assumes "rb_wf r" "\<And>i v. rb_get r i = Some v \<Longrightarrow> Q i v" "S s"
    and "\<And>i v s. Q i v \<Longrightarrow> S s \<Longrightarrow> \<exists>k v' s'. f i v s = Some (k, v', s') \<and> S s' \<and> (k \<longrightarrow> Q i v')"
  shows "\<exists>r' s'. rb_retain f r s = Some (r', s') \<and> same_shape r r'
    \<and> (\<forall>i v. rb_get r' i = Some v \<longrightarrow> Q i v) \<and> S s'"
proof -
  have "\<forall>(i, v) \<in> set (rb_entries r). Q i v"
    using rb_entries_get [OF assms(1)] assms(2) by blast
  then obtain es' s' where es': "retain_list f (rb_entries r) s = Some (es', s')"
      "\<forall>(i, v) \<in> set es'. Q i v" "S s'"
    using retain_list_inv [of "rb_entries r" Q S s f] assms(3,4) by blast
  then obtain r' where r': "rb_retain f r s = Some (r', s')"
    using rb_retain_refines [OF assms(1), of f s] by auto
  note cases' = rb_retain_cases(2) [OF assms(1) r']
  have "Q i v" if "rb_get r' i = Some v" for i v
    using that es' cases' map_of_rb_entries [of r' i] assms(1) same_shape_wf [of r r']
    by (auto dest: map_of_SomeD)
  then show ?thesis using r' cases' es'(3) by blast
qed

text \<open>The packets in a cache of sent packets.\<close>

definition pending_ok :: "rval byte_repr \<Rightarrow> bool \<Rightarrow> u16 \<Rightarrow> pending \<Rightarrow> bool" where
  "pending_ok d o_d i pp \<longleftrightarrow>
     sequence_id (ack (pending_packet pp)) = i \<and> reliable (pending_packet pp)
   \<and> ordered (pending_packet pp) = o_d \<and> packet_ok d (pending_packet pp) \<and> 0 < remaining_retries pp"

definition cache_ok :: "rval byte_repr \<Rightarrow> bool \<Rightarrow> pending ring \<Rightarrow> bool" where
  "cache_ok d o_d r \<longleftrightarrow> rb_wf r \<and> num_items r = 32 \<and> (\<forall>i pp. rb_get r i = Some pp \<longrightarrow> pending_ok d o_d i pp)"

definition cached :: "pending ring \<Rightarrow> packet set" where
  "cached r = {pending_packet pp | i pp. rb_get r i = Some pp}"

lemma emits_buffer:
  "emits d crc addr ps s s' \<Longrightarrow> length (data_buffer s') = length (data_buffer s)"
  by (simp add: emits_def same_config_def)

lemma resend_step:
  assumes "lawful_repr d" "pending_ok d o_d i pp" "length (data_buffer s) = MAX_PACKET_LEN"
  shows "\<exists>k pp' s' a'. resend_if_needed env d crc addr pp (s, a) = Some (k, pp', s', a')
    \<and> emits d crc addr {pending_packet pp} s s' \<and> pending_packet pp' = pending_packet pp
    \<and> (k \<longrightarrow> pending_ok d o_d i pp')"
proof (cases "due pp s")
  case False
  have "emits d crc addr {pending_packet pp} s (snd (now s))"
    by (rule emits_refl) (simp_all add: now_def same_config_def)
  then show ?thesis using False assms(2) by (auto simp: resend_not_due)
next
  case True
  let ?s = "snd (now (snd (now s)))" and ?f = "frame d crc (pending_packet pp)"
  have ok: "packet_ok d (pending_packet pp)" "0 < remaining_retries pp"
    using assms(2) by (simp_all add: pending_ok_def)
  have "length ?f \<le> length (data_buffer ?s)"
    using length_frame_le [OF assms(1) ok(1)] assms(3) by (simp add: now_def)
  moreover have "emits d crc addr {} s ?s"
    by (rule emits_refl) (simp_all add: now_def same_config_def)
  ultimately have "emits d crc addr {pending_packet pp} s (snd (transmitted addr ?f ?s))"
    using emits_trans emits_transmitted by fastforce
  then show ?thesis
    using resend_due [OF assms(1) ok(1) assms(3) True ok(2)] assms(2) ok(2)
    by (auto simp: pending_ok_def split: prod.splits)
qed

lemma retain_resend_ok:
  assumes "lawful_repr d" "cache_ok d o_d r" "length (data_buffer s) = MAX_PACKET_LEN"
  shows "\<exists>r' s' a'. rb_retain (\<lambda>_. resend_if_needed env d crc addr) r (s, a) = Some (r', s', a')
    \<and> same_shape r r' \<and> cache_ok d o_d r' \<and> cached r' \<subseteq> cached r \<and> emits d crc addr (cached r) s s'"
proof -
  let ?Q = "\<lambda>i pp. pending_ok d o_d i pp \<and> pending_packet pp \<in> cached r"
  let ?S = "\<lambda>st. emits d crc addr (cached r) s (fst st)"
  have step: "\<exists>k v' st'. resend_if_needed env d crc addr v st = Some (k, v', st') \<and> ?S st' \<and> (k \<longrightarrow> ?Q i v')"
    if Q: "?Q i v" and S: "?S st" for i v st
  proof -
    obtain t b where st: "st = (t, b)" by (cases st)
    then have "length (data_buffer t) = MAX_PACKET_LEN" using S emits_buffer assms(3) by fastforce
    then obtain k v' t' b' where "resend_if_needed env d crc addr v (t, b) = Some (k, v', t', b')"
        "emits d crc addr {pending_packet v} t t'" "pending_packet v' = pending_packet v"
        "k \<longrightarrow> pending_ok d o_d i v'"
      using resend_step [OF assms(1) conjunct1 [OF Q], of t env crc addr b] by blast
    then show ?thesis
      using st Q S emits_trans [of d crc addr "cached r" s t "{pending_packet v}" t']
      by (auto simp: insert_absorb)
  qed
  have "?S (s, a)" by (simp add: emits_refl)
  moreover have "?Q i v" if "rb_get r i = Some v" for i v
    using that assms(2) by (auto simp: cache_ok_def cached_def)
  ultimately obtain r' st' where "rb_retain (\<lambda>_. resend_if_needed env d crc addr) r (s, a) = Some (r', st')"
      "same_shape r r'" "\<forall>i v. rb_get r' i = Some v \<longrightarrow> ?Q i v" "?S st'"
    using rb_retain_inv [of r ?Q ?S "(s, a)" "\<lambda>_. resend_if_needed env d crc addr"] step assms(2)
    by (auto simp: cache_ok_def)
  then show ?thesis
    using assms(2) same_shape_wf [of r r']
    by (cases st') (auto simp: cache_ok_def cached_def same_shape_def)
qed

lemma send_unreliable_ok:
  assumes "lawful_repr d" "list_all (packet_ok d) ps" "length (data_buffer s) = MAX_PACKET_LEN"
  shows "\<exists>s' a'. send_unreliable d crc addr ps (s, a) = Some (None, s', a') \<and> emits d crc addr (set ps) s s'"
  using assms(2,3)
proof (induction ps arbitrary: s a)
  case Nil
  then show ?case by (simp add: emits_refl)
next
  case (Cons p ps)
  obtain s1 where s1: "put_packet d crc p s = Ok s1"
      "addr_send addr (4 + byte_len (packet_repr d) p) s1 = Some (transmitted addr (frame d crc p) s)"
    using put_send_ok [OF assms(1), of p s] Cons.prems by auto
  obtain ok s2 where s2: "transmitted addr (frame d crc p) s = (ok, s2)" by (cases "transmitted addr (frame d crc p) s")
  have e: "emits d crc addr {p} s s2"
    using emits_transmitted [of d crc p s addr] length_frame_le [OF assms(1), of p crc] Cons.prems s2 by simp
  then obtain s' a' where "send_unreliable d crc addr ps (s2, a \<or> ok) = Some (None, s', a')"
      "emits d crc addr (set ps) s2 s'"
    using Cons.IH [of s2 "a \<or> ok"] Cons.prems emits_buffer [OF e] by auto
  then show ?case using s1 s2 emits_trans [OF e] by auto
qed

end
