(* ===== verification/Sending.thy ===== *)
theory Sending
  imports Transmit
begin

text \<open>
  The sending half of a connection as a whole: the invariant of its caches and queues, and
  what \<open>flush_messages\<close>, \<open>send_packets\<close> and \<open>send\<close> of \<open>communicator/inner.rs\<close> do to a
  connection that satisfies it.
\<close>

section \<open>The invariant\<close>

definition queue_ok :: "rval byte_repr \<Rightarrow> rval list \<Rightarrow> bool" where
  "queue_ok d q \<longleftrightarrow> list_all (self_type d) q \<and> length q < 2 ^ 32"

definition config_ok :: "udp_socket \<Rightarrow> bool" where
  "config_ok s \<longleftrightarrow> length (data_buffer s) = MAX_PACKET_LEN
     \<and> 0 < max_reliable_unordered_retries s \<and> 0 < max_reliable_ordered_retries s"

text \<open>The caches of received packets have the default size.\<close>

definition recv_rings_ok :: "inner \<Rightarrow> bool" where
  "recv_rings_ok c \<longleftrightarrow>
     rb_wf (reliable_received_packets c) \<and> num_items (reliable_received_packets c) = 32
   \<and> rb_wf (reliable_ordered_received_packets c) \<and> num_items (reliable_ordered_received_packets c) = 32"

definition inner_ok :: "rval byte_repr \<Rightarrow> inner \<Rightarrow> bool" where
  "inner_ok d c \<longleftrightarrow>
     cache_ok d False (reliable_send_packets c) \<and> cache_ok d True (reliable_ordered_send_packets c)
   \<and> recv_rings_ok c \<and> list_all (packet_ok d) (unreliable_send_packets c)
   \<and> queue_ok d (reliable_send_queue c) \<and> queue_ok d (reliable_ordered_send_queue c)
   \<and> queue_ok d (unreliable_send_queue c)"

lemma config_ok_same: "same_config s s' \<Longrightarrow> config_ok s \<Longrightarrow> config_ok s'"
  by (simp add: config_ok_def same_config_def)

lemma config_ok_bind: "socket_bind b = Some s \<Longrightarrow> config_ok s"
  by (auto simp: socket_bind_def config_ok_def split: option.splits)

lemma inner_ok_default: "inner_ok d (fst (inner_default s))"
  by (simp add: inner_default_def now_def inner_ok_def cache_ok_def recv_rings_ok_def queue_ok_def)

lemma queue_ok_chunk:
  assumes "queue_ok d (concat chunks @ q)" "c \<in> set chunks"
  shows "queue_ok d c"
proof -
  obtain xs ys where "chunks = xs @ c # ys" using assms(2) by (meson split_list)
  then show ?thesis using assms(1) by (simp add: queue_ok_def)
qed

lemma packet_ok_iff:
  "packet_ok d p \<longleftrightarrow> queue_ok d (messages p) \<and> total_len d (messages p) \<le> MAX_PACKET_DATA_LEN"
  by (auto simp: packet_ok_def packet_self_type queue_ok_def)

section \<open>Flushing\<close>

lemma cache_ok_queued:
  assumes "cache_ok d o_d r" "queued rel ord o_d s chunks r r'" "queue_ok d (concat chunks)"
    and "\<forall>c \<in> set chunks. total_len d c \<le> MAX_PACKET_DATA_LEN" "config_ok s"
  shows "cache_ok d o_d r'"
proof -
  have "pending_ok d o_d j pp" if got: "rb_get r' j = Some pp" for j pp
  proof (cases "0 < ahead j (newest r) \<and> ahead j (newest r) \<le> length chunks")
    case True
    let ?k = "ahead j (newest r) - 1"
    have "chunks ! ?k \<in> set chunks" using True by (intro nth_mem) auto
    then have "queue_ok d (chunks ! ?k)" "total_len d (chunks ! ?k) \<le> MAX_PACKET_DATA_LEN"
      using assms(3,4) queue_ok_chunk [of d chunks "[]" "chunks ! ?k"] by simp_all
    moreover have "pp = new_pending rel ord o_d s ?k j (chunks ! ?k)"
      using got True assms(2) by (simp add: queued_def)
    ultimately show ?thesis using assms(5)
      by (simp add: pending_ok_def new_pending_def packet_ok_iff config_ok_def packet_ack_new_def)
  next
    case False
    then have "rb_get r j = Some pp" using got assms(2) unfolding queued_def by auto
    then show ?thesis using assms(1) by (simp add: cache_ok_def)
  qed
  then show ?thesis using assms(1,2) by (simp add: cache_ok_def queued_def rb_wf_def)
qed

lemma flush_loop_cache:
  assumes "cache_ok d o_d r" "queue_ok d q" "config_ok s"
  shows "\<exists>chunks r' q' s'. flush_loop d rel ord o_d r q s = Some (r', q', s')
    \<and> queued rel ord o_d s chunks r r' \<and> flushed d q chunks q' r' \<and> length chunks + rb_len r \<le> 32
    \<and> cache_ok d o_d r' \<and> queue_ok d q' \<and> same_config s s'
    \<and> outbox (os_socket s') = outbox (os_socket s)"
proof -
  let ?s = "\<lambda>n. s\<lparr>os_socket := (os_socket s)\<lparr>readings := readings (os_socket s) + n\<rparr>\<rparr>"
  obtain chunks r' q' where fl: "flush_loop d rel ord o_d r q s = Some (r', q', ?s (length chunks))"
      "queued rel ord o_d s chunks r r'" "flushed d q chunks q' r'" "length chunks + rb_len r \<le> num_items r"
    using flush_loop_ok [of r d rel ord o_d q s] assms(1) by (auto simp: cache_ok_def)
  have "queue_ok d (concat chunks @ q')" using assms(2) fl(3) by (simp add: flushed_def)
  then have q: "queue_ok d (concat chunks)" "queue_ok d q'" by (simp_all add: queue_ok_def)
  have ok: "cache_ok d o_d r'"
    using fl(3) by (intro cache_ok_queued [OF assms(1) fl(2) q(1) _ assms(3)]) (simp add: flushed_def)
  have n: "num_items r = 32" using assms(1) by (simp add: cache_ok_def)
  show ?thesis
  proof (intro exI conjI)
    show "flush_loop d rel ord o_d r q s = Some (r', q', ?s (length chunks))" by (rule fl(1))
    show "queued rel ord o_d s chunks r r'" by (rule fl(2))
    show "length chunks + rb_len r \<le> 32" using fl(4) n by simp
  qed (use fl(3) ok q in simp_all)
qed

lemma with_packets_ok:
  assumes "concat chunks = q" "queue_ok d q"
    and "\<forall>ch \<in> set chunks. ch \<noteq> [] \<and> total_len d ch \<le> MAX_PACKET_DATA_LEN"
    and "list_all (packet_ok d) (unreliable_send_packets c)"
  shows "list_all (packet_ok d) (unreliable_send_packets (with_packets c chunks))"
  using assms queue_ok_chunk [of d chunks "[]"]
  by (auto simp: with_packets_def list_all_iff packet_ok_iff unreliable_packet_def set_zip)

lemma flush_messages_ok:
  assumes "inner_ok (SEND ctx) c" "config_ok s"
    and "\<forall>m \<in> set (unreliable_send_queue c). byte_len (SEND ctx) m \<le> MAX_PACKET_DATA_LEN"
  shows "\<exists>c' s'. flush_messages ctx c s = Returns (c', s') \<and> inner_ok (SEND ctx) c'
    \<and> same_config s s' \<and> outbox (os_socket s') = outbox (os_socket s) \<and> unreliable_send_queue c' = []
    \<and> concat (map messages (unreliable_send_packets c')) =
      concat (map messages (unreliable_send_packets c)) @ unreliable_send_queue c"
proof -
  let ?d = "SEND ctx" and ?rel = "reliable_received_packets c"
  let ?ord = "reliable_ordered_received_packets c"
  note ok = assms(1) [unfolded inner_ok_def]
  obtain ch1 r1 q1 s1 where f1: "flush_loop ?d ?rel ?ord False (reliable_send_packets c)
        (reliable_send_queue c) s = Some (r1, q1, s1)" "cache_ok ?d False r1" "queue_ok ?d q1"
      "same_config s s1" "outbox (os_socket s1) = outbox (os_socket s)"
    using flush_loop_cache [of ?d False "reliable_send_packets c" "reliable_send_queue c" s ?rel ?ord]
      ok assms(2) by auto
  obtain ch2 r2 q2 s2 where f2: "flush_loop ?d ?rel ?ord True (reliable_ordered_send_packets c)
        (reliable_ordered_send_queue c) s1 = Some (r2, q2, s2)" "cache_ok ?d True r2" "queue_ok ?d q2"
      "same_config s1 s2" "outbox (os_socket s2) = outbox (os_socket s1)"
    using flush_loop_cache [of ?d True "reliable_ordered_send_packets c" "reliable_ordered_send_queue c" s1 ?rel ?ord]
      ok assms(2) config_ok_same [OF f1(4)] by auto
  let ?c = "c\<lparr>reliable_send_packets := r1, reliable_send_queue := q1,
             reliable_ordered_send_packets := r2, reliable_ordered_send_queue := q2\<rparr>"
  obtain chunks where f3: "flush_unreliable ?d ?c = Some (with_packets ?c chunks)"
      "concat chunks = unreliable_send_queue c"
      "\<forall>ch \<in> set chunks. ch \<noteq> [] \<and> total_len ?d ch \<le> MAX_PACKET_DATA_LEN"
    using flush_unreliable_ok [of ?c ?d] assms(3) by auto
  have "list_all (packet_ok ?d) (unreliable_send_packets (with_packets ?c chunks))"
    using f3(2,3) ok by (intro with_packets_ok) auto
  moreover have "map messages (map2 (unreliable_packet ?c) [0..<length chunks] chunks) = chunks"
    by (intro nth_equalityI) (simp_all add: unreliable_packet_def)
  ultimately show ?thesis
    using f1 f2 f3 ok same_config_trans [of s s1 s2]
    by (simp add: flush_messages_def inner_ok_def with_packets_def recv_rings_ok_def queue_ok_def)
qed

section \<open>send\<close>

text \<open>The packets a connection holds for sending.\<close>

definition held :: "inner \<Rightarrow> packet set" where
  "held c = cached (reliable_send_packets c) \<union> cached (reliable_ordered_send_packets c)
     \<union> set (unreliable_send_packets c)"

lemma held_ok: "inner_ok d c \<Longrightarrow> p \<in> held c \<Longrightarrow> packet_ok d p"
  by (auto simp: held_def cached_def inner_ok_def cache_ok_def pending_ok_def list_all_iff)

lemma send_packets_ok:
  assumes "lawful_repr (SEND ctx)" "inner_ok (SEND ctx) c" "config_ok s"
  shows "\<exists>c' s'. send_packets env ctx addr c s = Returns (None, c', s') \<and> inner_ok (SEND ctx) c'
    \<and> unreliable_send_packets c' = [] \<and> held c' \<subseteq> held c
    \<and> unreliable_send_queue c' = unreliable_send_queue c
    \<and> emits (SEND ctx) (CRC env ctx) addr (held c) s s'"
proof -
  let ?d = "SEND ctx" and ?crc = "CRC env ctx"
  let ?u = "reliable_send_packets c" and ?o = "reliable_ordered_send_packets c"
  note ok = assms(2) [unfolded inner_ok_def]
  have buf: "length (data_buffer s) = MAX_PACKET_LEN" using assms(3) by (simp add: config_ok_def)
  obtain r1 s1 a1 where e1: "rb_retain (\<lambda>_. resend_if_needed env ?d ?crc addr) ?u (s, False) = Some (r1, s1, a1)"
      "cache_ok ?d False r1" "cached r1 \<subseteq> cached ?u" "emits ?d ?crc addr (cached ?u) s s1"
    using retain_resend_ok [OF assms(1), of False ?u s env ?crc addr False] ok buf by blast
  have buf1: "length (data_buffer s1) = MAX_PACKET_LEN" using emits_buffer [OF e1(4)] buf by simp
  obtain r2 s2 a2 where e2: "rb_retain (\<lambda>_. resend_if_needed env ?d ?crc addr) ?o (s1, a1) = Some (r2, s2, a2)"
      "cache_ok ?d True r2" "cached r2 \<subseteq> cached ?o" "emits ?d ?crc addr (cached ?o) s1 s2"
    using retain_resend_ok [OF assms(1), of True ?o s1 env ?crc addr a1] ok buf1 by blast
  have buf2: "length (data_buffer s2) = MAX_PACKET_LEN" using emits_buffer [OF e2(4)] buf1 by simp
  obtain s3 a3 where e3: "send_unreliable ?d ?crc addr (unreliable_send_packets c) (s2, a2) = Some (None, s3, a3)"
      "emits ?d ?crc addr (set (unreliable_send_packets c)) s2 s3"
    using send_unreliable_ok [OF assms(1) _ buf2, of "unreliable_send_packets c" ?crc addr a2] ok by blast
  have e: "emits ?d ?crc addr (held c) s s3"
    using emits_trans [OF emits_trans [OF e1(4) e2(4)] e3(2)] by (simp add: held_def)
  have "emits ?d ?crc addr {} s3 (snd (now s3))"
    by (rule emits_refl) (simp_all add: now_def same_config_def)
  then have e': "emits ?d ?crc addr (held c) s (snd (now s3))" using emits_trans [OF e] by fastforce
  show ?thesis using e1(1-3) e2(1-3) e3(1) e e' ok
    by (auto simp: send_packets_def Let_def inner_ok_def recv_rings_ok_def held_def split: prod.splits)
qed

lemma heartbeat_ok:
  "inner_ok d c \<Longrightarrow> inner_ok d (inner_write_heartbeat c)"
  by (auto simp: inner_write_heartbeat_def inner_ok_def Let_def recv_rings_ok_def heartbeat_def
    packet_ok_iff queue_ok_def)

lemma inner_send_ok:
  assumes "lawful_repr (SEND ctx)" "inner_ok (SEND ctx) c" "config_ok s"
    and "\<forall>m \<in> set (unreliable_send_queue c). byte_len (SEND ctx) m \<le> MAX_PACKET_DATA_LEN"
  shows "\<exists>c' s' qs. inner_send env ctx addr c s = Returns (None, c', s')
    \<and> inner_ok (SEND ctx) c' \<and> config_ok s'
    \<and> unreliable_send_queue c' = [] \<and> unreliable_send_packets c' = []
    \<and> outbox (os_socket s') = outbox (os_socket s)
        @ map (\<lambda>p. (addr, frame (SEND ctx) (CRC env ctx) p)) qs
    \<and> (\<forall>p \<in> set qs. packet_ok (SEND ctx) p)"
proof -
  let ?c = "(if received_packet_duplicate c \<and> reliable_send_queue c = []
      \<and> reliable_ordered_send_queue c = [] \<and> unreliable_send_queue c = []
    then inner_write_heartbeat c else c)\<lparr>received_packet_duplicate := False\<rparr>"
  have q: "unreliable_send_queue ?c = unreliable_send_queue c"
    by (simp add: inner_write_heartbeat_def Let_def)
  have "inner_ok (SEND ctx) ?c"
    using heartbeat_ok [OF assms(2)] assms(2) by (simp add: inner_ok_def recv_rings_ok_def)
  then obtain c1 s1 where f: "flush_messages ctx ?c s = Returns (c1, s1)" "inner_ok (SEND ctx) c1"
      "same_config s s1" "outbox (os_socket s1) = outbox (os_socket s)" "unreliable_send_queue c1 = []"
    using flush_messages_ok [of ctx ?c s] assms(3,4) q by auto
  obtain c' s' where sp: "send_packets env ctx addr c1 s1 = Returns (None, c', s')" "inner_ok (SEND ctx) c'"
      "unreliable_send_packets c' = []" "unreliable_send_queue c' = []"
      "emits (SEND ctx) (CRC env ctx) addr (held c1) s1 s'"
    using send_packets_ok [OF assms(1) f(2) config_ok_same [OF f(3) assms(3)], of env addr] f(5) by auto
  have "config_ok s'"
    using sp(5) config_ok_same [OF f(3) assms(3)] config_ok_same by (auto simp: emits_def)
  then show ?thesis
    using f sp held_ok [OF f(2)] by (auto simp: inner_send_def Let_def emits_def subset_iff)
qed

lemma has_work_iff:
  assumes "inner_ok d c"
  shows "has_work c \<longleftrightarrow>
    (\<exists>i. rb_get (reliable_send_packets c) i \<noteq> None) \<or> (\<exists>i. rb_get (reliable_ordered_send_packets c) i \<noteq> None)
    \<or> unreliable_send_packets c \<noteq> [] \<or> reliable_send_queue c \<noteq> []
    \<or> reliable_ordered_send_queue c \<noteq> [] \<or> unreliable_send_queue c \<noteq> []"
  using assms rb_is_empty_iff [of "reliable_send_packets c"] rb_is_empty_iff [of "reliable_ordered_send_packets c"]
  by (auto simp: has_work_def inner_ok_def cache_ok_def)

end
