(* ===== verification/Scenario.thy ===== *)
theory Scenario
  imports CodecSpec Sending
begin

text \<open>
  A concrete environment for the witnesses: a socket whose sends succeed, a clock that
  advances by one nanosecond per reading, the message type of the repository's tests, and
  a checksum that depends on the protocol version and the data.
\<close>

definition demo_os :: os where
  "demo_os = \<lparr>clock = int, readings = 0, inbox = [], outbox = [], send_ok = (\<lambda>_. True), sends = 0,
     draw_bool = (\<lambda>_ _. False), draw_range = (\<lambda>_ a _. a), draws = 0\<rparr>"

definition demo_socket :: udp_socket where
  "demo_socket =
     \<lparr>os_socket = demo_os, data_buffer = replicate MAX_PACKET_LEN 0,
      reliable_unordered_resend_interval = from_millis 100,
      reliable_ordered_resend_interval = from_millis 100,
      max_reliable_unordered_retries = 100, max_reliable_ordered_retries = 100,
      drop_probability = None, corruption_probability = None,
      fake_delay = (0, 0), debug_logs = False, fake_delayed_buffer = []\<rparr>"

definition demo_ctx :: udp_context where
  "demo_ctx = \<lparr>SEND = test_message, RECV = test_message, PROTOCOL_VERSION = 7\<rparr>"

definition demo_env :: crate_env where
  "demo_env = \<lparr>crc_checksum = (\<lambda>alg bs. crc_init alg + word_of_nat (length bs)), feature_debug = False,
     overflow_checks = True\<rparr>"

definition demo_inner :: inner where
  "demo_inner = fst (inner_default demo_socket)"

lemma demo_socket_bind: "socket_bind (Some demo_os) = Some demo_socket"
  by (simp add: socket_bind_def demo_socket_def)

lemma demo_simps [simp]:
  "SEND demo_ctx = test_message" "RECV demo_ctx = test_message" "PROTOCOL_VERSION demo_ctx = 7"
  "feature_debug demo_env = False" "config_ok demo_socket"
  "length (data_buffer demo_socket) = MAX_PACKET_LEN"
  using config_ok_bind [OF demo_socket_bind]
  by (simp_all add: demo_ctx_def demo_env_def config_ok_def)

lemma demo_inner_ok [simp]: "inner_ok d demo_inner"
  by (simp add: demo_inner_def inner_ok_default)

lemma demo_inner_fields [simp]:
  "reliable_send_packets demo_inner = rb_default" "reliable_ordered_send_packets demo_inner = rb_default"
  "reliable_received_packets demo_inner = rb_default"
  "reliable_ordered_received_packets demo_inner = rb_default"
  "ordered_read_packet_head demo_inner = 0" "unreliable_send_packets demo_inner = []"
  "reliable_send_queue demo_inner = []" "reliable_ordered_send_queue demo_inner = []"
  "unreliable_send_queue demo_inner = []" "unordered_recv_queue demo_inner = []"
  "ordered_recv_queue demo_inner = []" "received_packet_duplicate demo_inner = False"
  by (simp_all add: demo_inner_def inner_default_def now_def)

text \<open>A packet of the peer with one message.\<close>

definition demo_packet :: "bool \<Rightarrow> bool \<Rightarrow> nat \<Rightarrow> packet" where
  "demo_packet rel o_d n =
     \<lparr>ack = packet_ack_new (word_of_nat n) (rb_default :: unit ring) (rb_default :: packet ring),
      reliable = rel, ordered = o_d, messages = [REnum 0 []]\<rparr>"

lemma demo_packet_simps [simp]:
  "reliable (demo_packet rel o_d n) = rel" "ordered (demo_packet rel o_d n) = o_d"
  "messages (demo_packet rel o_d n) = [REnum 0 []]"
  "sequence_id (ack (demo_packet rel o_d n)) = word_of_nat n"
  "packet_ok test_message (demo_packet rel o_d n)"
  by (simp_all add: demo_packet_def packet_ack_new_def packet_ok_iff queue_ok_def MAX_PACKET_DATA_LEN_def)

end
