(* ===== verification/SendSpec.thy ===== *)
theory SendSpec
  imports Scenario
begin

text \<open>
  What the sending half of a connection guarantees (\<open>communicator/inner.rs\<close>,
  \<open>packet.rs\<close>, \<open>packet_ack.rs\<close>): sizes, packing, numbering, acknowledgement, repetition,
  and that \<open>send\<close> returns.
\<close>

section \<open>Packets\<close>

text \<open>
  A packet of messages of together at most 1024 bytes has the length the header
  constants promise, and its datagram fits the 1048-byte buffer.
\<close>

lemma packet_fits:
  assumes "lawful_repr d" "self_type (packet_repr d) p"
    and "total_len d (messages p) \<le> MAX_PACKET_DATA_LEN"
  shows "byte_len (packet_repr d) p = PACKET_HEADER_LEN - 4 + total_len d (messages p)
    \<and> length (frame d crc p) = PACKET_HEADER_LEN + total_len d (messages p)
    \<and> length (frame d crc p) \<le> MAX_PACKET_LEN"
proof -
  have ok: "packet_ok d p" using assms(2,3) by (simp add: packet_ok_def)
  show ?thesis
    using length_frame [OF assms(1) ok, of crc] length_frame_le [OF assms(1) ok, of crc]
    by (simp add: packet_byte_len PACKET_HEADER_LEN_def)
qed

section \<open>Acknowledgement\<close>

text \<open>
  C16. An acknowledgement made from the receiver's caches removes, at the sender, exactly
  the packets the receiver has in its caches: nothing else is forgotten, nothing is missed.
\<close>

theorem ack_roundtrip:
  assumes "rb_wf rel" "num_items rel = 32" "rb_wf ord" "num_items ord = 32"
    and "rb_wf srel" "rb_wf sord"
    and "acknowledge_rings (packet_ack_new sid rel ord) (srel, sord) = (srel', sord')"
  shows "(\<forall>j. rb_get srel' j = (if rb_get rel j \<noteq> None then None else rb_get srel j))
    \<and> (\<forall>j. rb_get sord' j = (if rb_get ord j \<noteq> None then None else rb_get sord j))"
  using assms take_acked_of_receiver [of rel srel] take_acked_of_receiver [of ord sord]
  by (auto simp: acknowledge_rings_eq packet_ack_new_def rb_newest_index_def)

theorem ack_roundtrip_witness:
  "rb_get (fst (acknowledge_rings
      (packet_ack_new 0 (rb_insert rb_default 0 ()) (rb_default :: packet ring))
      (snd (rb_push rb_default (5 :: nat)), rb_default :: nat ring))) 0 = None"
proof -
  let ?rel = "rb_insert rb_default 0 () :: unit ring" and ?s = "snd (rb_push rb_default (5 :: nat))"
  obtain a b where ab: "acknowledge_rings (packet_ack_new 0 ?rel (rb_default :: packet ring))
      (?s, rb_default :: nat ring) = (a, b)" by (cases "acknowledge_rings
      (packet_ack_new 0 ?rel (rb_default :: packet ring)) (?s, rb_default :: nat ring)")
  have "rb_get a 0 = None"
    using ack_roundtrip [OF _ _ _ _ _ _ ab] by (simp add: rb_get_insert)
  then show ?thesis by (simp add: ab)
qed

section \<open>Packing\<close>

text \<open>
  C17. The loop that packs a reliable queue always ends. It takes the messages in order,
  fills packets up to 1024 bytes, gives them consecutive numbers, never replaces a packet
  that is not acknowledged, and stops only when the queue is empty or the cache is full.
\<close>

theorem flush_reliable_spec:
  assumes "rb_wf r"
  shows "\<exists>chunks r' q' s'. flush_loop d rel ord o_d r q s = Some (r', q', s')
    \<and> q = concat chunks @ q' \<and> (q' = [] \<or> rb_push_will_override r')
    \<and> (\<forall>c \<in> set chunks. total_len d c \<le> MAX_PACKET_DATA_LEN)
    \<and> rb_newest_index r' = rb_newest_index r + word_of_nat (length chunks)
    \<and> (\<forall>k < length chunks. \<exists>pp. rb_get r' (rb_newest_index r + word_of_nat (Suc k)) = Some pp
          \<and> pending_packet pp =
            \<lparr>ack = packet_ack_new (rb_newest_index r + word_of_nat (Suc k)) rel ord, reliable = True,
             ordered = o_d, messages = chunks ! k\<rparr>)
    \<and> (\<forall>j. rb_get r j \<noteq> None \<longrightarrow> rb_get r' j = rb_get r j)"
proof -
  obtain chunks r' q' where fl: "flush_loop d rel ord o_d r q s =
        Some (r', q', s\<lparr>os_socket := (os_socket s)\<lparr>readings := readings (os_socket s) + length chunks\<rparr>\<rparr>)"
      and qd: "queued rel ord o_d s chunks r r'" and fd: "flushed d q chunks q' r'"
      and len: "length chunks + rb_len r \<le> num_items r"
    using flush_loop_ok [OF assms] by metis
  have short: "length chunks \<le> 8192" using len rb_wfD(3) [OF assms] by simp
  have new: "\<exists>pp. rb_get r' (newest r + word_of_nat (Suc k)) = Some pp \<and> pending_packet pp =
      \<lparr>ack = packet_ack_new (newest r + word_of_nat (Suc k)) rel ord, reliable = True,
       ordered = o_d, messages = chunks ! k\<rparr>" if "k < length chunks" for k
  proof -
    have "ahead (newest r + word_of_nat (Suc k)) (newest r) = Suc k"
      using that short by (intro ahead_plus) simp
    then show ?thesis using qd that unfolding queued_def by (auto simp: new_pending_def)
  qed
  have keep: "rb_get r' j = rb_get r j" if "rb_get r j \<noteq> None" for j
  proof (rule ccontr)
    assume "rb_get r' j \<noteq> rb_get r j"
    then have a: "0 < ahead j (newest r)" "ahead j (newest r) \<le> length chunks"
      using qd unfolding queued_def by (auto split: if_splits)
    have "live r j" by (rule ccontr) (use that rb_get_not_live [of r j] in simp)
    moreover have "ahead (newest r) j = 65536 - ahead j (newest r)"
      using a(1) ahead_flip [of j "newest r"] by fastforce
    ultimately show False using a short rb_wfD(3) [OF assms] by linarith
  qed
  show ?thesis
    using fl fd qd new keep unfolding flushed_def queued_def rb_newest_index_def
    by (intro exI [of _ chunks] exI [of _ r'] exI [of _ q'] exI conjI) simp_all
qed

theorem flush_reliable_spec_witness:
  "\<exists>chunks r' q' s'. flush_loop test_message rb_default rb_default True rb_default
      [REnum 0 [], REnum 1 [RBits 5]] demo_socket = Some (r', q', s')
    \<and> [REnum 0 [], REnum 1 [RBits 5]] = concat chunks @ q'"
  using flush_reliable_spec [OF rb_default_simps(1), of test_message rb_default rb_default True
      "[REnum 0 [], REnum 1 [RBits 5]]" demo_socket] by metis

text \<open>
  C34. A reliable message larger than a packet is never sent and blocks its queue: the loop
  fills the cache with packets that carry no message, and the queue stays as it was.
\<close>

theorem flush_oversized:
  assumes "rb_wf r" "MAX_PACKET_DATA_LEN < byte_len d m"
  shows "\<exists>r' s'. flush_loop d rel ord o_d r (m # ms) s = Some (r', m # ms, s')
    \<and> rb_push_will_override r'
    \<and> (\<forall>j pp. rb_get r' j = Some pp \<longrightarrow> rb_get r j = None \<longrightarrow> messages (pending_packet pp) = [])"
proof -
  obtain chunks r' q' where fl: "flush_loop d rel ord o_d r (m # ms) s =
        Some (r', q', s\<lparr>os_socket := (os_socket s)\<lparr>readings := readings (os_socket s) + length chunks\<rparr>\<rparr>)"
      and qd: "queued rel ord o_d s chunks r r'" and fd: "flushed d (m # ms) chunks q' r'"
    using flush_loop_ok [OF assms(1)] by metis
  have empty: "c = []" if "c \<in> set chunks" for c
  proof (rule ccontr)
    assume "c \<noteq> []"
    then have "concat chunks \<noteq> []" using that by auto
    then have m: "m \<in> set (concat chunks)" using fd
      by (cases "concat chunks") (auto simp: flushed_def)
    then obtain c' where c': "c' \<in> set chunks" "m \<in> set c'" by auto
    then have "byte_len d m \<le> total_len d c'" by (simp add: member_le_sum_list)
    then show False using c'(1) fd assms(2) by (auto simp: flushed_def)
  qed
  then have "concat chunks = []" by auto
  then have q': "q' = m # ms" using fd by (simp add: flushed_def)
  have "messages (pending_packet pp) = []" if "rb_get r' j = Some pp" "rb_get r j = None" for j pp
  proof -
    have a: "0 < ahead j (newest r)" "ahead j (newest r) \<le> length chunks"
      and pp: "pp = new_pending rel ord o_d s (ahead j (newest r) - 1) j (chunks ! (ahead j (newest r) - 1))"
      using that qd unfolding queued_def by (auto split: if_splits)
    have "chunks ! (ahead j (newest r) - 1) \<in> set chunks" using a by (intro nth_mem) linarith
    then show ?thesis using empty pp by (simp add: new_pending_def)
  qed
  then show ?thesis using fl fd unfolding q' flushed_def by auto
qed

theorem flush_oversized_witness:
  "\<exists>r' s'. flush_loop (test_message\<lparr>byte_len := \<lambda>_. 1025\<rparr>) rb_default rb_default False rb_default
      [RUnit] demo_socket = Some (r', [RUnit], s')"
  using flush_oversized [OF rb_default_simps(1), of "test_message\<lparr>byte_len := \<lambda>_. 1025\<rparr>" RUnit
      rb_default rb_default False "[]" demo_socket] by (auto simp: MAX_PACKET_DATA_LEN_def)

text \<open>
  C32. The loop that packs the unreliable queue ends exactly when no message in the queue is
  larger than a packet; otherwise \<open>send\<close> never returns.
\<close>

theorem flush_unreliable_ends_iff:
  "flush_unreliable d c = None \<longleftrightarrow>
    (\<exists>m. m \<in> set (unreliable_send_queue c) \<and> MAX_PACKET_DATA_LEN < byte_len d m)"
  using flush_unreliable_None_iff [of d c] by blast

text \<open>
  When it ends, the queue is empty and its messages are in new unreliable packets, in
  order, none of them empty or larger than 1024 bytes, under consecutive numbers.
\<close>

lemma flush_unreliable_spec:
  assumes "flush_unreliable d c = Some c'"
  shows "\<exists>chunks. c' = with_packets c chunks \<and> concat chunks = unreliable_send_queue c
    \<and> (\<forall>ch \<in> set chunks. ch \<noteq> [] \<and> total_len d ch \<le> MAX_PACKET_DATA_LEN)"
  using flush_unreliable_ok [OF flush_unreliable_Some [OF assms]] assms by auto

section \<open>Repetition\<close>

text \<open>
  \<open>resend_if_needed\<close> never panics on a packet with a retry left. Before the interval has
  passed nothing happens; after it the packet's datagram goes out, a retry is used up, and
  the packet is given up exactly when that was the last one.
\<close>

lemma resend_spec:
  assumes "lawful_repr d" "pending_ok d o_d i pp" "config_ok s"
  shows "resend_if_needed env d crc addr pp (s, a) =
    (if fst (now s) - pending_last_send pp \<le>
        int (if o_d then reliable_ordered_resend_interval s else reliable_unordered_resend_interval s)
     then Some (True, pp, snd (now s), a)
     else (let (ok, s') = transmitted addr (frame d crc (pending_packet pp)) (snd (now (snd (now s))))
           in Some (1 < remaining_retries pp,
                    pp\<lparr>pending_last_send := fst (now (snd (now s))),
                       remaining_retries := remaining_retries pp - 1\<rparr>, s', a \<or> ok)))"
proof -
  have pp: "packet_ok d (pending_packet pp)" "0 < remaining_retries pp" "ordered (pending_packet pp) = o_d"
    using assms(2) by (simp_all add: pending_ok_def)
  have buf: "length (data_buffer s) = MAX_PACKET_LEN" using assms(3) by (simp add: config_ok_def)
  have "due pp s \<longleftrightarrow> \<not> fst (now s) - pending_last_send pp \<le>
      int (if o_d then reliable_ordered_resend_interval s else reliable_unordered_resend_interval s)"
    by (auto simp: due_def cooldown_def pp(3))
  moreover have "remaining_retries pp \<noteq> 1 \<longleftrightarrow> 1 < remaining_retries pp" using pp(2) by linarith
  ultimately show ?thesis
    using resend_due [OF assms(1) pp(1) buf _ pp(2)] resend_not_due [of pp s env]
    by (cases "due pp s") (simp_all add: Let_def)
qed

definition demo_pending :: pending where
  "demo_pending = \<lparr>pending_last_send = - int (from_hours 1), remaining_retries = 1,
     pending_packet = demo_packet True True 0\<rparr>"

text \<open>
  With no retry left (a limit of 0 was configured) \<open>resend_if_needed\<close> subtracts from the counter
  before it looks at it, once the packet is due: a build with overflow checks panics, any other
  keeps the packet with all the retries of a \<open>usize\<close>.
\<close>

lemma resend_zero_retries:
  assumes "remaining_retries pp = 0"
    and "reliable_ordered_resend_interval s < nat (fst (now s) - pending_last_send pp)"
    and "reliable_unordered_resend_interval s < nat (fst (now s) - pending_last_send pp)"
  shows "(overflow_checks env \<longrightarrow> resend_if_needed env d crc addr pp (s, a) = None)
    \<and> (\<not> overflow_checks env \<longrightarrow> (\<forall>k pp' st. resend_if_needed env d crc addr pp (s, a) = Some (k, pp', st) \<longrightarrow>
          k \<and> remaining_retries pp' = usize_MAX))"
proof -
  have "due pp s" using assms(2,3) by (simp add: due_def cooldown_def)
  from resend_no_retries [OF this assms(1)] show ?thesis by blast
qed

section \<open>send\<close>

text \<open>
  C12. \<open>send\<close> on a connection in a state its operations lead to, with no unreliable message
  larger than a packet, returns \<open>Ok\<close> without panic: the unreliable queue is flushed and
  sent, the connection stays in such a state, and everything put on the socket is the
  datagram of a packet of at most 1024 bytes of messages, addressed to the peer.
\<close>

theorem send_total:
  assumes "lawful_repr (SEND ctx)" "inner_ok (SEND ctx) c" "config_ok s"
    and "\<forall>m \<in> set (unreliable_send_queue c). byte_len (SEND ctx) m \<le> MAX_PACKET_DATA_LEN"
  shows "\<exists>c' s' ps. inner_send env ctx addr c s = Returns (None, c', s')
    \<and> inner_ok (SEND ctx) c' \<and> config_ok s'
    \<and> unreliable_send_queue c' = [] \<and> unreliable_send_packets c' = []
    \<and> outbox (os_socket s') = outbox (os_socket s)
        @ map (\<lambda>p. (addr, frame (SEND ctx) (CRC env ctx) p)) ps
    \<and> (\<forall>p \<in> set ps. packet_ok (SEND ctx) p)"
  using inner_send_ok [OF assms] by blast

theorem send_total_witness:
  "\<exists>c' s'. inner_send demo_env demo_ctx None
      (demo_inner\<lparr>unreliable_send_queue := [REnum 0 []], reliable_send_queue := [REnum 0 []]\<rparr>) demo_socket =
    Returns (None, c', s')"
proof -
  let ?c = "demo_inner\<lparr>unreliable_send_queue := [REnum 0 []], reliable_send_queue := [REnum 0 []]\<rparr>"
  have "inner_ok test_message ?c"
    using demo_inner_ok [of test_message] by (simp add: inner_ok_def recv_rings_ok_def queue_ok_def)
  then show ?thesis
    using send_total [of demo_ctx ?c demo_socket demo_env None] test_message_lawful
    by (auto simp: MAX_PACKET_DATA_LEN_def)
qed

text \<open>
  C33. The other case: with an unreliable message larger than a packet in the queue, \<open>send\<close>
  never returns.
\<close>

theorem send_diverges:
  assumes "inner_ok (SEND ctx) c" "m \<in> set (unreliable_send_queue c)"
    and "MAX_PACKET_DATA_LEN < byte_len (SEND ctx) m"
  shows "inner_send env ctx addr c s = Diverges"
proof -
  let ?d = "SEND ctx" and ?rel = "reliable_received_packets c" and ?ord = "reliable_ordered_received_packets c"
  let ?c = "c\<lparr>received_packet_duplicate := False\<rparr>"
  have wf: "rb_wf (reliable_send_packets c)" "rb_wf (reliable_ordered_send_packets c)"
    using assms(1) by (simp_all add: inner_ok_def cache_ok_def)
  obtain r1 q1 s1 where f1: "flush_loop ?d ?rel ?ord False (reliable_send_packets c)
      (reliable_send_queue c) s = Some (r1, q1, s1)"
    using flush_loop_ok [OF wf(1)] by metis
  obtain r2 q2 s2 where f2: "flush_loop ?d ?rel ?ord True (reliable_ordered_send_packets c)
      (reliable_ordered_send_queue c) s1 = Some (r2, q2, s2)"
    using flush_loop_ok [OF wf(2)] by metis
  have "flush_unreliable ?d (?c\<lparr>reliable_send_packets := r1, reliable_send_queue := q1,
             reliable_ordered_send_packets := r2, reliable_ordered_send_queue := q2\<rparr>) = None"
    using assms(2,3) by (auto simp: flush_unreliable_None_iff)
  then have "flush_messages ctx ?c s = Diverges" using f1 f2 by (simp add: flush_messages_def)
  moreover have "unreliable_send_queue c \<noteq> []" using assms(2) by auto
  ultimately show ?thesis by (simp add: inner_send_def Let_def)
qed

theorem send_diverges_witness:
  "inner_send demo_env (demo_ctx\<lparr>SEND := test_message\<lparr>byte_len := \<lambda>_. 1025\<rparr>\<rparr>) None
    (demo_inner\<lparr>unreliable_send_queue := [REnum 0 []]\<rparr>) demo_socket = Diverges"
proof -
  let ?ctx = "demo_ctx\<lparr>SEND := test_message\<lparr>byte_len := \<lambda>_. 1025\<rparr>\<rparr>"
  let ?c = "demo_inner\<lparr>unreliable_send_queue := [REnum 0 []]\<rparr>"
  have "inner_ok (SEND ?ctx) ?c"
    using demo_inner_ok [of "SEND ?ctx"] by (simp add: inner_ok_def recv_rings_ok_def queue_ok_def)
  then show ?thesis by (rule send_diverges) (simp_all add: MAX_PACKET_DATA_LEN_def)
qed

text \<open>
  \<open>has_work\<close> says exactly whether a message is queued or a packet waits to be sent or
  acknowledged.
\<close>

lemma has_work_spec:
  assumes "inner_ok d c"
  shows "has_work c \<longleftrightarrow>
    (\<exists>i. rb_get (reliable_send_packets c) i \<noteq> None) \<or> (\<exists>i. rb_get (reliable_ordered_send_packets c) i \<noteq> None)
    \<or> unreliable_send_packets c \<noteq> [] \<or> reliable_send_queue c \<noteq> []
    \<or> reliable_ordered_send_queue c \<noteq> [] \<or> unreliable_send_queue c \<noteq> []"
  using assms by (rule has_work_iff)

end
