(* ===== verification/Receive.thy ===== *)
theory Receive
  imports Sending
begin

text \<open>
  The receiving half of \<open>communicator/inner.rs\<close>: \<open>receive\<close>, \<open>read_packet\<close> with the
  simulated corruption and loss of a \<open>debug\<close> build, the treatment of an intact packet, and
  the delivery of ordered messages. The lemmas say what a datagram does on every path: too
  short, damaged, unreadable, a datagram of the peer, unreliable, already received, too old.
\<close>

section \<open>Intact packets\<close>

definition acknowledge :: "packet_ack \<Rightarrow> inner \<Rightarrow> inner" where
  "acknowledge a c =
     (let (rel, ord) = acknowledge_rings a (reliable_send_packets c, reliable_ordered_send_packets c)
      in c\<lparr>reliable_send_packets := rel, reliable_ordered_send_packets := ord\<rparr>)"

text \<open>The loop over \<open>iter_mut()\<close>; the messages of a delivered packet are drained.\<close>

fun deliver_loop :: "(u16 \<times> packet) list \<Rightarrow> inner \<Rightarrow> inner" where
  "deliver_loop [] c = c"
| "deliver_loop ((sid, p) # es) c =
     (if sid = ordered_read_packet_head c then
        deliver_loop es
          (c\<lparr>ordered_read_packet_head := ordered_read_packet_head c + 1,
             ordered_recv_queue := ordered_recv_queue c @ messages p,
             reliable_ordered_received_packets :=
               rb_set (reliable_ordered_received_packets c) sid (p\<lparr>messages := []\<rparr>)\<rparr>)
      else if wrapping_gt sid (ordered_read_packet_head c) 32 then c
      else deliver_loop es c)"

definition process_packet :: "packet \<Rightarrow> inner \<Rightarrow> inner" where
  "process_packet p c =
     (let sid = sequence_id (ack p) in
      if \<not> reliable p then
        acknowledge (ack p)
          (if messages p = [] then c
           else c\<lparr>unordered_recv_queue := unordered_recv_queue c @ messages p\<rparr>)
      else if (ordered p \<and> rb_get (reliable_ordered_received_packets c) sid \<noteq> None)
           \<or> (\<not> ordered p \<and> rb_get (reliable_received_packets c) sid \<noteq> None)
      then c\<lparr>received_packet_duplicate := True\<rparr>
      else
        (let newest_index = (if ordered p then rb_newest_index (reliable_ordered_received_packets c)
                             else rb_newest_index (reliable_received_packets c))
         in if wrapping_gt (newest_index - 31) sid 64
            then c\<lparr>received_packet_duplicate := True\<rparr>
            else
              (let c' = acknowledge (ack p) c
               in if ordered p then
                    (let ring = rb_insert (reliable_ordered_received_packets c') sid p
                     in deliver_loop (rb_entries ring)
                          (c'\<lparr>reliable_ordered_received_packets := ring\<rparr>))
                  else
                    c'\<lparr>reliable_received_packets := rb_insert (reliable_received_packets c') sid (),
                       unordered_recv_queue := unordered_recv_queue c' @ messages p\<rparr>)))"

section \<open>Datagrams\<close>

text \<open>\<open>&data_buffer[a..b]\<close>; \<open>None\<close> is the panic of the slice expression.\<close>

definition slice :: "u8 list \<Rightarrow> nat \<Rightarrow> nat \<Rightarrow> u8 list option" where
  "slice bs a b = (if a \<le> b \<and> b \<le> length bs then Some (take (b - a) (drop a bs)) else None)"

text \<open>
  The simulated corruption flips the first \<open>k\<close> bits of the buffer. \<open>None\<close> is the panic of
  \<open>random_bool\<close> where the configured number is no probability.
\<close>

definition corrupt_bits :: "nat \<Rightarrow> u8 list \<Rightarrow> u8 list" where
  "corrupt_bits k bs =
     fold (\<lambda>i bs. bs[i div 8 := (bs ! (i div 8)) XOR push_bit (i mod 8) 1]) [0..<k] bs"

definition debug_corrupt :: "nat \<Rightarrow> udp_socket \<Rightarrow> udp_socket option" where
  "debug_corrupt n s =
     (case corruption_probability s of
        None \<Rightarrow> Some s
      | Some p \<Rightarrow>
          (case random_bool p s of
             None \<Rightarrow> None
           | Some (b, s1) \<Rightarrow> Some
               (if b then (let (k, s2) = random_range 0 (n * 8) s1
                           in s2\<lparr>data_buffer := corrupt_bits k (data_buffer s2)\<rparr>)
                else s1)))"

definition debug_drop :: "udp_socket \<Rightarrow> (bool \<times> udp_socket) option" where
  "debug_drop s =
     (case drop_probability s of None \<Rightarrow> Some (False, s) | Some p \<Rightarrow> random_bool p s)"

text \<open>
  The first statement of \<open>read_packet\<close> in a \<open>debug\<close> build: the packet is parsed and
  unwrapped before its checksum is looked at.
\<close>

definition debug_preparse :: "udp_context \<Rightarrow> nat \<Rightarrow> udp_socket \<Rightarrow> unit outcome" where
  "debug_preparse ctx n s =
     outcome_bind (or_panic (slice (data_buffer s) 4 n)) (\<lambda>bytes.
       case from_bytes (packet_repr (RECV ctx)) bytes of Ok _ \<Rightarrow> Returns () | _ \<Rightarrow> Panics)"

text \<open>The rest of \<open>read_packet\<close>, from the checksum on.\<close>

definition read_checked ::
  "crate_env \<Rightarrow> udp_context \<Rightarrow> nat \<Rightarrow> inner \<Rightarrow> udp_socket \<Rightarrow> (inner \<times> udp_socket) outcome"
where
  "read_checked env ctx n c s =
     outcome_bind (or_panic (slice (data_buffer s) 0 4)) (\<lambda>crc_bytes.
     outcome_bind (or_panic (slice (data_buffer s) 4 n)) (\<lambda>bytes.
       if CRC env ctx bytes \<noteq> word_of_nat (from_le_bytes crc_bytes) then Returns (c, s)
       else
         (case from_bytes (packet_repr (RECV ctx)) bytes of
            Ok p \<Rightarrow>
              outcome_bind (or_panic (if feature_debug env then debug_drop s else Some (False, s)))
                (\<lambda>(lost, s1).
                  if lost then Returns (c, s1)
                  else (let (t, s2) = now s1
                        in Returns (process_packet p (c\<lparr>last_seen := t\<rparr>), s2)))
          | Err _ \<Rightarrow> Returns (c, s)
          | Panic \<Rightarrow> Panics)))"

definition read_packet ::
  "crate_env \<Rightarrow> udp_context \<Rightarrow> nat \<Rightarrow> inner \<Rightarrow> udp_socket \<Rightarrow> (inner \<times> udp_socket) outcome"
where
  "read_packet env ctx n c s =
     (if feature_debug env then
        outcome_bind (debug_preparse ctx n s) (\<lambda>_.
          outcome_bind (or_panic (debug_corrupt n s)) (\<lambda>s1. read_checked env ctx n c s1))
      else read_checked env ctx n c s)"

section \<open>What a datagram does not change\<close>

lemma debug_corrupt_os:
  "debug_corrupt n s = Some s' \<Longrightarrow>
     inbox (os_socket s') = inbox (os_socket s) \<and> fake_delayed_buffer s' = fake_delayed_buffer s"
  by (auto simp: debug_corrupt_def random_bool_def random_range_def Let_def split: option.splits if_splits)

lemma debug_drop_os:
  "debug_drop s = Some (b, s') \<Longrightarrow>
     inbox (os_socket s') = inbox (os_socket s) \<and> fake_delayed_buffer s' = fake_delayed_buffer s"
  by (auto simp: debug_drop_def random_bool_def split: option.splits if_splits)

lemma outcome_bind_Returns:
  "outcome_bind m f = Returns y \<longleftrightarrow> (\<exists>x. m = Returns x \<and> f x = Returns y)"
  by (cases m) auto

lemma outcome_bind_cong [fundef_cong]:
  "m = m' \<Longrightarrow> (\<And>x. m' = Returns x \<Longrightarrow> f x = f' x) \<Longrightarrow> outcome_bind m f = outcome_bind m' f'"
  by (cases m') auto

lemma or_panic_Returns: "or_panic m = Returns x \<longleftrightarrow> m = Some x"
  by (cases m) auto

lemma read_checked_os:
  assumes "read_checked env ctx n c s = Returns (c', s')"
  shows "inbox (os_socket s') = inbox (os_socket s) \<and> fake_delayed_buffer s' = fake_delayed_buffer s"
  using assms
  by (auto simp: read_checked_def outcome_bind_Returns or_panic_Returns now_def Let_def
    dest: debug_drop_os split: if_splits res.splits prod.splits)

lemma read_packet_os:
  assumes "read_packet env ctx n c s = Returns (c', s')"
  shows "inbox (os_socket s') = inbox (os_socket s) \<and> fake_delayed_buffer s' = fake_delayed_buffer s"
  using assms
  by (auto simp: read_packet_def outcome_bind_Returns or_panic_Returns
    dest!: debug_corrupt_os read_checked_os split: if_splits)

lemma recv_from_inbox:
  "recv_from s = (Some x, s') \<Longrightarrow> length (inbox (os_socket s')) < length (inbox (os_socket s))"
  by (auto simp: recv_from_def Let_def split: list.splits option.splits)

lemma delay_packet_inbox [simp]: "inbox (os_socket (snd (delay_packet a n s))) = inbox (os_socket s)"
  by (simp add: delay_packet_def random_range_def now_def)

text \<open>One round of a loop over \<open>recv\<close> takes a datagram from the inbox.\<close>

definition debug_delay ::
  "crate_env \<Rightarrow> socket_addr option \<Rightarrow> nat \<Rightarrow> udp_socket \<Rightarrow> bool \<times> udp_socket" where
  "debug_delay env a n s = (if feature_debug env then delay_packet a n s else (False, s))"

lemma recv_round:
  assumes "recv_from s = (Some x, s1)" and "debug_delay env a n s1 = (b, s2)"
  shows "length (inbox (os_socket s2)) < length (inbox (os_socket s))"
    and "read_packet env ctx m c s2 = Returns (c', s3) \<Longrightarrow>
      length (inbox (os_socket s3)) < length (inbox (os_socket s))"
proof -
  have "s2 = snd (debug_delay env a n s1)" using assms(2) by simp
  then have "inbox (os_socket s2) = inbox (os_socket s1)" by (simp add: debug_delay_def)
  then show "length (inbox (os_socket s2)) < length (inbox (os_socket s))"
    using recv_from_inbox [OF assms(1)] by simp
  then show "length (inbox (os_socket s3)) < length (inbox (os_socket s))"
    if "read_packet env ctx m c s2 = Returns (c', s3)"
    using read_packet_os [OF that] by simp
qed

lemma read_delayed_shorter:
  assumes "read_delayed s = (Some x, s')"
  shows "length (fake_delayed_buffer s') < length (fake_delayed_buffer s)"
proof -
  obtain n a where "x = (n, a)" by (cases x)
  then obtain e where "mset (fake_delayed_buffer s) = add_mset e (mset (fake_delayed_buffer s'))"
    using assms read_delayed_Some [of s n a s'] by auto
  then have "size (mset (fake_delayed_buffer s)) = Suc (size (mset (fake_delayed_buffer s')))" by simp
  then show ?thesis by simp
qed

section \<open>receive\<close>

text \<open>The loop over \<open>recv\<close>; in a \<open>debug\<close> build a packet may be put aside.\<close>

function receive_loop ::
  "crate_env \<Rightarrow> udp_context \<Rightarrow> inner \<Rightarrow> udp_socket \<Rightarrow> (inner \<times> udp_socket) outcome"
where
  "receive_loop env ctx c s =
     (case recv_from s of
        (None, s1) \<Rightarrow> Returns (c, s1)
      | (Some (n, _), s1) \<Rightarrow>
          (case debug_delay env None n s1 of
             (True, s2) \<Rightarrow> receive_loop env ctx c s2
           | (False, s2) \<Rightarrow>
               outcome_bind (read_packet env ctx n c s2) (\<lambda>(c', s3). receive_loop env ctx c' s3)))"
  by pat_completeness auto
termination
proof (relation "measure (\<lambda>(env, ctx, c, s). length (inbox (os_socket s)))", goal_cases)
  case (2 env ctx c s x s1 p n a b s2)
  then show ?case using recv_round(1) [of s p s1 env None n b s2] by simp
next
  case (3 env ctx c s x s1 p n a b s2 y c' s3)
  then show ?case using recv_round(2) [of s p s1 env None n b s2 ctx n c c' s3]
    by (cases y) simp
qed simp

function delayed_loop ::
  "crate_env \<Rightarrow> udp_context \<Rightarrow> inner \<Rightarrow> udp_socket \<Rightarrow> (inner \<times> udp_socket) outcome"
where
  "delayed_loop env ctx c s =
     (case read_delayed s of
        (None, s1) \<Rightarrow> Returns (c, s1)
      | (Some (n, _), s1) \<Rightarrow>
          outcome_bind (read_packet env ctx n c s1) (\<lambda>(c', s2). delayed_loop env ctx c' s2))"
  by pat_completeness auto
termination
proof (relation "measure (\<lambda>(env, ctx, c, s). length (fake_delayed_buffer s))", goal_cases)
  case (2 env ctx c s x s1 p n a y c' s2)
  then show ?case
    using read_delayed_shorter [of s p s1] read_packet_os [of env ctx n c s1 c' s2]
    by (cases y) simp
qed simp

declare receive_loop.simps [simp del] delayed_loop.simps [simp del]

definition receive ::
  "crate_env \<Rightarrow> udp_context \<Rightarrow> inner \<Rightarrow> udp_socket \<Rightarrow> (inner \<times> udp_socket) outcome" where
  "receive env ctx c s =
     outcome_bind (receive_loop env ctx c s) (\<lambda>(c', s').
       if feature_debug env then delayed_loop env ctx c' s' else Returns (c', s'))"

end
