(* ===== verification/Deliver.thy ===== *)
theory Deliver
  imports Receive Window
begin

text \<open>
  The loop of \<open>read_packet\<close> that hands over ordered messages: run on a cache whose oldest
  undelivered packet is in its window, it delivers the packets from the read head up to the
  first missing one, in order, and drains them.
\<close>

section \<open>One delivery\<close>

definition drained :: "packet \<Rightarrow> packet" where
  "drained p = p\<lparr>messages := []\<rparr>"

definition deliver_one :: "u16 \<Rightarrow> packet \<Rightarrow> inner \<Rightarrow> inner" where
  "deliver_one sid p c =
     c\<lparr>ordered_read_packet_head := ordered_read_packet_head c + 1,
       ordered_recv_queue := ordered_recv_queue c @ messages p,
       reliable_ordered_received_packets :=
         rb_set (reliable_ordered_received_packets c) sid (drained p)\<rparr>"

definition deliver_range :: "(int \<Rightarrow> packet option) \<Rightarrow> int list \<Rightarrow> inner \<Rightarrow> inner" where
  "deliver_range b ks c = fold (\<lambda>k. deliver_one (seq k) (the (b k))) ks c"

lemma deliver_range_simps [simp]:
  "deliver_range b [] c = c"
  "deliver_range b (k # ks) c = deliver_range b ks (deliver_one (seq k) (the (b k)) c)"
  by (simp_all add: deliver_range_def)

lemma deliver_loop_Cons:
  "deliver_loop ((sid, p) # es) c =
   (if sid = ordered_read_packet_head c then deliver_loop es (deliver_one sid p c)
    else if wrapping_gt sid (ordered_read_packet_head c) 32 then c
    else deliver_loop es c)"
  by (simp add: deliver_one_def drained_def)

declare deliver_loop.simps(2) [simp del]

section \<open>The window as a list of integers\<close>

lemma window_seq:
  assumes "num_items r = 32" "newest r = seq m"
  shows "window r = map seq [m - 31..m]"
proof -
  have s: "newest r - (u16_of (num_items r) - 1) = seq (m - 31)"
    using assms by (simp add: seq_add u16_of_def)
  have e: "newest r + 1 = seq (m + 1)" using assms by (simp add: seq_add)
  have len: "ahead (seq (m + 1)) (seq (m - 31)) = 32" using ahead_seq_diff [of "m - 31" "m + 1"] by simp
  have "seq (m - 31) + word_of_nat i = seq (m - 31 + int i)" for i
    by (simp add: seq_add seq_nat)
  then show ?thesis
    unfolding window_def s e wrapping_range_def Let_def ahead_def [symmetric] len
    by (intro nth_equalityI) simp_all
qed

section \<open>The loop\<close>

lemma deliver_loop_stop:
  assumes "\<forall>k \<in> set ks. h < k \<and> k \<le> h + 32" "ordered_read_packet_head c = seq h"
  shows "deliver_loop (live_in r (map seq ks)) c = c"
  using assms(1)
proof (induction ks)
  case (Cons k ks)
  then have "wrapping_gt (seq k) (seq h) 32" using wrapping_gt_seq [of 32 k h] by simp
  then show ?case
    using Cons assms(2) by (auto simp: deliver_loop_Cons split: option.splits)
qed simp

definition deliverable :: "(int \<Rightarrow> packet option) \<Rightarrow> int \<Rightarrow> int \<Rightarrow> int \<Rightarrow> bool" where
  "deliverable b m h h' \<longleftrightarrow>
     h \<le> h' \<and> h' \<le> m + 1 \<and> (\<forall>k. h \<le> k \<and> k < h' \<longrightarrow> b k \<noteq> None) \<and> (h' \<le> m \<longrightarrow> b h' = None)"

lemma deliver_loop_range:
  assumes "\<forall>k. j \<le> k \<and> k \<le> m \<longrightarrow> rb_get r (seq k) = b k"
    and "ordered_read_packet_head c = seq h" "m - 32 < j" "j \<le> h" "h \<le> m + 1"
  shows "\<exists>h'. deliverable b m h h' \<and>
    deliver_loop (live_in r (map seq [j..m])) c = deliver_range b [h..h' - 1] c"
  using assms
proof (induction "nat (m + 1 - j)" arbitrary: j h c rule: less_induct)
  case less
  show ?case
  proof (cases "j \<le> m")
    case False
    then show ?thesis using less.prems
      by (intro exI [of _ h]) (auto simp: deliverable_def)
  next
    case True
    have split: "[j..m] = j # [j + 1..m]" using True by (rule upto_rec1)
    have get: "rb_get r (seq j) = b j" using less.prems(1) True by simp
    have tail: "\<forall>k. j + 1 \<le> k \<and> k \<le> m \<longrightarrow> rb_get r (seq k) = b k" using less.prems(1) by simp
    show ?thesis
    proof (cases "j = h")
      case False
      then have "\<exists>h'. deliverable b m h h' \<and>
          deliver_loop (live_in r (map seq [j + 1..m])) c = deliver_range b [h..h' - 1] c"
        using less.prems True by (intro less.hyps [OF _ tail]) auto
      moreover have "seq j \<noteq> seq h" using seq_eq_near [of j h] less.prems False by auto
      moreover have "\<not> wrapping_gt (seq j) (seq h) 32"
        using wrapping_gt_seq [of 32 j h] less.prems False by simp
      ultimately show ?thesis
        using less.prems(2) get split by (auto simp: deliver_loop_Cons split: option.splits)
    next
      case here: True
      show ?thesis
      proof (cases "b h")
        case None
        have "deliver_loop (live_in r (map seq [j + 1..m])) c = c"
          using less.prems here by (intro deliver_loop_stop [of _ h]) auto
        then show ?thesis
          using None here get split True by (intro exI [of _ h]) (auto simp: deliverable_def)
      next
        case (Some p)
        have "\<exists>h'. deliverable b m (h + 1) h' \<and>
            deliver_loop (live_in r (map seq [j + 1..m])) (deliver_one (seq h) p c) =
            deliver_range b [h + 1..h' - 1] (deliver_one (seq h) p c)"
          using less.prems True here
          by (intro less.hyps [OF _ tail]) (auto simp: deliver_one_def seq_add)
        then obtain h' where h': "deliverable b m (h + 1) h'"
            "deliver_loop (live_in r (map seq [j + 1..m])) (deliver_one (seq h) p c) =
             deliver_range b [h + 1..h' - 1] (deliver_one (seq h) p c)" by blast
        have "[h..h' - 1] = h # [h + 1..h' - 1]" using h'(1) by (intro upto_rec1) (simp add: deliverable_def)
        moreover have "deliverable b m h h'"
          using h'(1) Some unfolding deliverable_def by (metis add1_zle_eq option.discI order_le_less zle_add1_eq_le)
        ultimately show ?thesis
          using h'(2) Some here get split less.prems(2)
          by (intro exI [of _ h']) (simp add: deliver_loop_Cons)
      qed
    qed
  qed
qed

section \<open>The effect of a delivery\<close>

lemma deliver_one_simps [simp]:
  "ordered_read_packet_head (deliver_one i p c) = ordered_read_packet_head c + 1"
  "ordered_recv_queue (deliver_one i p c) = ordered_recv_queue c @ messages p"
  "reliable_ordered_received_packets (deliver_one i p c) =
     rb_set (reliable_ordered_received_packets c) i (drained p)"
  by (simp_all add: deliver_one_def)

lemma deliver_range_queue:
  "ordered_recv_queue (deliver_range b ks c) =
   ordered_recv_queue c @ concat (map (\<lambda>k. messages (the (b k))) ks)"
  by (induction ks arbitrary: c) simp_all

lemma deliver_range_head:
  "ordered_read_packet_head (deliver_range b ks c) = ordered_read_packet_head c + word_of_nat (length ks)"
  by (induction ks arbitrary: c) (simp_all add: add.commute add.left_commute)

text \<open>Nothing but the read head, the queue and the cache changes.\<close>

definition same_but_ordered :: "inner \<Rightarrow> inner \<Rightarrow> bool" where
  "same_but_ordered c c' \<longleftrightarrow>
     (\<exists>h q r. c' = c\<lparr>ordered_read_packet_head := h, ordered_recv_queue := q,
                    reliable_ordered_received_packets := r\<rparr>)"

lemma deliver_range_same: "same_but_ordered c (deliver_range b ks c)"
proof (induction ks arbitrary: c)
  case Nil
  show ?case by (auto simp: same_but_ordered_def intro!: exI [of _ "ordered_read_packet_head c"]
      exI [of _ "ordered_recv_queue c"] exI [of _ "reliable_ordered_received_packets c"])
next
  case (Cons k ks)
  show ?case using Cons [of "deliver_one (seq k) (the (b k)) c"]
    by (auto simp: same_but_ordered_def deliver_one_def)
qed

lemma deliver_range_ring:
  assumes "rb_wf (reliable_ordered_received_packets c)" "distinct (map seq ks)"
    and "\<forall>k \<in> set ks. rb_get (reliable_ordered_received_packets c) (seq k) \<noteq> None"
  shows "same_shape (reliable_ordered_received_packets c)
      (reliable_ordered_received_packets (deliver_range b ks c))
    \<and> (\<forall>i. i \<notin> seq ` set ks \<longrightarrow> rb_get (reliable_ordered_received_packets (deliver_range b ks c)) i =
          rb_get (reliable_ordered_received_packets c) i)
    \<and> (\<forall>k \<in> set ks. rb_get (reliable_ordered_received_packets (deliver_range b ks c)) (seq k) =
          Some (drained (the (b k))))"
  using assms
proof (induction ks arbitrary: c)
  case (Cons k ks)
  then show ?case
    using Cons.IH [of "deliver_one (seq k) (the (b k)) c"]
    by (auto simp: rb_get_set same_shape_def image_iff)
qed (simp add: same_shape_def)

end
