(* ===== verification/Delivery.thy ===== *)
theory Delivery
  imports Deliver
begin

text \<open>
  What the receiving half of \<open>communicator/inner.rs\<close> promises: over any run of arrivals
  that the sender's window and the network allow, with losses, duplicates and reordering,
  every reliable packet is taken once, and the messages of ordered packets come out in
  the order they were sent, without gaps. The specification numbers packets by \<open>nat\<close>;
  \<open>got\<close> is the set of the packets received so far.
\<close>

section \<open>The specification state\<close>

definition newest_of :: "nat set \<Rightarrow> int" where
  "newest_of got = (if got = {} then - 1 else int (Max got))"

text \<open>The first packet that is missing.\<close>

definition first_missing :: "nat set \<Rightarrow> nat" where
  "first_missing got = (LEAST k. k \<notin> got)"

text \<open>
  The packets that can arrive: \<open>n\<close> is sent only when every packet up to \<open>n - 32\<close> was
  received, since the cache of sent packets holds 32; and the network does not deliver a
  packet that is more than 95 older than the newest one received.
\<close>

definition may_arrive :: "nat set \<Rightarrow> nat \<Rightarrow> bool" where
  "may_arrive got n \<longleftrightarrow> (\<forall>k. k + 32 \<le> n \<longrightarrow> k \<in> got) \<and> newest_of got \<le> int n + 95"

lemma newest_of_ge: "finite got \<Longrightarrow> k \<in> got \<Longrightarrow> int k \<le> newest_of got"
  by (auto simp: newest_of_def)

lemma newest_of_insert: "finite got \<Longrightarrow> newest_of (insert n got) = max (newest_of got) (int n)"
  by (auto simp: newest_of_def Max_insert)

lemma first_missing_notin:
  assumes "finite got"
  shows "first_missing got \<notin> got"
proof -
  have "\<exists>k. k \<notin> got" using assms by (metis infinite_UNIV_nat ex_new_if_finite)
  then show ?thesis unfolding first_missing_def by (rule LeastI_ex)
qed

lemma below_first_missing: "k < first_missing got \<Longrightarrow> k \<in> got"
  using not_less_Least [of k "\<lambda>k. k \<notin> got"] by (auto simp: first_missing_def)

lemma first_missing_eqI: "(\<And>k. k < h \<Longrightarrow> k \<in> got) \<Longrightarrow> h \<notin> got \<Longrightarrow> first_missing got = h"
  unfolding first_missing_def by (rule Least_equality) (auto simp: not_less [symmetric])

lemma first_missing_le:
  assumes "finite got"
  shows "int (first_missing got) \<le> newest_of got + 1"
proof (rule ccontr)
  assume "\<not> ?thesis"
  moreover have "- 1 \<le> newest_of got" by (simp add: newest_of_def)
  ultimately have "nat (newest_of got + 1) < first_missing got" by linarith
  then have "nat (newest_of got + 1) \<in> got" by (rule below_first_missing)
  then have "int (nat (newest_of got + 1)) \<le> newest_of got" using assms newest_of_ge by blast
  then show False by linarith
qed

section \<open>Unordered packets\<close>

definition unordered_map :: "nat set \<Rightarrow> int \<Rightarrow> unit option" where
  "unordered_map got k = (if 0 \<le> k \<and> nat k \<in> got then Some () else None)"

definition unordered_state :: "nat set \<Rightarrow> inner \<Rightarrow> bool" where
  "unordered_state got c \<longleftrightarrow> finite got
     \<and> window.tracks (reliable_received_packets c) (newest_of got) (unordered_map got)"

lemma arrives_if_may_arrive:
  assumes "finite got" "may_arrive got n" "\<forall>k. 0 \<le> k \<longrightarrow> (a k \<noteq> None \<longleftrightarrow> nat k \<in> got)"
  shows "window.arrives (newest_of got) a (int n)"
proof -
  have "k \<le> int n - 32 \<Longrightarrow> 0 \<le> k \<Longrightarrow> a k \<noteq> None" for k
    using assms(2,3) by (simp add: may_arrive_def)
  moreover have "int n \<le> newest_of got + 32"
  proof (cases "32 \<le> n")
    case True
    then have "n - 32 \<in> got" using assms(2) by (simp add: may_arrive_def)
    then show ?thesis using newest_of_ge [OF assms(1)] True by fastforce
  qed (simp add: newest_of_def)
  ultimately show ?thesis
    using assms(2) unfolding window.arrives_def may_arrive_def by auto
qed

lemma acknowledge_simps [simp]:
  "reliable_received_packets (acknowledge a c) = reliable_received_packets c"
  "reliable_ordered_received_packets (acknowledge a c) = reliable_ordered_received_packets c"
  "unordered_recv_queue (acknowledge a c) = unordered_recv_queue c"
  "ordered_recv_queue (acknowledge a c) = ordered_recv_queue c"
  "ordered_read_packet_head (acknowledge a c) = ordered_read_packet_head c"
  "received_packet_duplicate (acknowledge a c) = received_packet_duplicate c"
  by (simp_all add: acknowledge_def case_prod_beta)

definition is_reliable :: "bool \<Rightarrow> nat \<Rightarrow> packet \<Rightarrow> bool" where
  "is_reliable o_d n p \<longleftrightarrow> reliable p \<and> ordered p = o_d \<and> sequence_id (ack p) = word_of_nat n"

text \<open>The two tests of \<open>read_packet\<close> reject exactly what was received before.\<close>

lemma process_reliable:
  assumes "is_reliable o_d n p"
    and rej: "(if o_d then rb_get (reliable_ordered_received_packets c) (seq (int n)) \<noteq> None
            else rb_get (reliable_received_packets c) (seq (int n)) \<noteq> None)
       \<or> wrapping_gt ((if o_d then newest (reliable_ordered_received_packets c)
            else newest (reliable_received_packets c)) - 31) (seq (int n)) 64 \<longleftrightarrow> n \<in> got"
  shows "process_packet p c =
    (if n \<in> got then c\<lparr>received_packet_duplicate := True\<rparr>
     else let c' = acknowledge (ack p) c
          in if o_d then
               (let ring = rb_insert (reliable_ordered_received_packets c) (seq (int n)) p
                in deliver_loop (rb_entries ring) (c'\<lparr>reliable_ordered_received_packets := ring\<rparr>))
             else c'\<lparr>reliable_received_packets := rb_insert (reliable_received_packets c) (seq (int n)) (),
                     unordered_recv_queue := unordered_recv_queue c @ messages p\<rparr>)"
proof -
  have sid: "sequence_id (ack p) = seq (int n)" and p: "reliable p" "ordered p = o_d"
    using assms(1) by (simp_all add: is_reliable_def seq_nat)
  show ?thesis
    using rej unfolding process_packet_def Let_def sid rb_newest_index_def
    by (cases o_d) (auto simp: p)
qed

lemma unordered_step:
  assumes "unordered_state got c" "may_arrive got n" "is_reliable False n p"
  shows "process_packet p c =
    (if n \<in> got then c\<lparr>received_packet_duplicate := True\<rparr>
     else (acknowledge (ack p) c)
       \<lparr>reliable_received_packets := rb_insert (reliable_received_packets c) (seq (int n)) (),
        unordered_recv_queue := unordered_recv_queue c @ messages p\<rparr>)"
    and "unordered_state (insert n got) (process_packet p c)"
    and "unordered_recv_queue (process_packet p c) =
      unordered_recv_queue c @ (if n \<in> got then [] else messages p)"
proof -
  have fin: "finite got"
    and t: "window.tracks (reliable_received_packets c) (newest_of got) (unordered_map got)"
    using assms(1) by (simp_all add: unordered_state_def)
  have arr: "window.arrives (newest_of got) (unordered_map got) (int n)"
    using fin assms(2) by (intro arrives_if_may_arrive) (auto simp: unordered_map_def)
  have rej: "rb_get (reliable_received_packets c) (seq (int n)) \<noteq> None
      \<or> wrapping_gt (newest (reliable_received_packets c) - 31) (seq (int n)) 64 \<longleftrightarrow> n \<in> got"
    using window.accepted_iff [OF t arr] by (simp add: unordered_map_def)
  show step: "process_packet p c =
    (if n \<in> got then c\<lparr>received_packet_duplicate := True\<rparr>
     else (acknowledge (ack p) c)
       \<lparr>reliable_received_packets := rb_insert (reliable_received_packets c) (seq (int n)) (),
        unordered_recv_queue := unordered_recv_queue c @ messages p\<rparr>)"
    using process_reliable [OF assms(3), of c got] rej by (simp add: Let_def)
  show "unordered_recv_queue (process_packet p c) =
      unordered_recv_queue c @ (if n \<in> got then [] else messages p)"
    using step by simp
  show "unordered_state (insert n got) (process_packet p c)"
  proof (cases "n \<in> got")
    case True
    then show ?thesis using step assms(1) by (simp add: insert_absorb unordered_state_def)
  next
    case False
    have "(unordered_map got)(int n \<mapsto> ()) = unordered_map (insert n got)"
      by (rule ext) (auto simp: unordered_map_def)
    then show ?thesis
      using window.tracks_insert [OF t arr, of "()"] False step fin
      by (simp add: unordered_state_def newest_of_insert unordered_map_def [of got])
  qed
qed

section \<open>Ordered packets\<close>

text \<open>
  What the cache holds: packet \<open>k\<close> of the sender, drained of its messages once it is
  before the read head.
\<close>

definition ordered_map :: "(nat \<Rightarrow> packet) \<Rightarrow> nat set \<Rightarrow> nat \<Rightarrow> int \<Rightarrow> packet option" where
  "ordered_map sent got h k =
     (if 0 \<le> k \<and> nat k \<in> got
      then Some (if nat k < h then drained (sent (nat k)) else sent (nat k)) else None)"

definition ordered_state :: "(nat \<Rightarrow> packet) \<Rightarrow> nat set \<Rightarrow> inner \<Rightarrow> bool" where
  "ordered_state sent got c \<longleftrightarrow> finite got
     \<and> ordered_read_packet_head c = seq (int (first_missing got))
     \<and> window.tracks (reliable_ordered_received_packets c) (newest_of got)
         (ordered_map sent got (first_missing got))"

lemma int_upto_upt: "[int a..int b - 1] = map int [a..<b]"
  by (cases "a \<le> b") (auto intro!: nth_equalityI simp: nth_upto)

lemma ordered_map_None: "0 \<le> k \<Longrightarrow> ordered_map sent got h k = None \<longleftrightarrow> nat k \<notin> got"
  by (simp add: ordered_map_def)

text \<open>The loop advances the read head from \<open>h\<close> to the first missing packet.\<close>

lemma deliverable_first_missing:
  assumes "finite got" "deliverable (ordered_map sent got h) (newest_of got) (int h) h'"
    and "\<forall>k < h. k \<in> got"
  shows "h' = int (first_missing got)"
proof -
  note d = assms(2) [unfolded deliverable_def]
  have "first_missing got = nat h'"
  proof (rule first_missing_eqI)
    fix k assume k: "k < nat h'"
    show "k \<in> got"
    proof (cases "k < h")
      case False
      then have "ordered_map sent got h (int k) \<noteq> None" using d k by auto
      then show ?thesis by (simp add: ordered_map_None)
    qed (use assms(3) in simp)
  next
    show "nat h' \<notin> got"
    proof (cases "h' \<le> newest_of got")
      case True
      then have "ordered_map sent got h h' = None" using d by blast
      then show ?thesis using d by (simp add: ordered_map_None)
    next
      case False
      then show ?thesis using newest_of_ge [OF assms(1), of "nat h'"] d by auto
    qed
  qed
  then show ?thesis using d by simp
qed

lemma deliver_loop_state:
  fixes c :: inner
  defines "ring \<equiv> reliable_ordered_received_packets c"
  assumes fin: "finite got" and t: "window.tracks ring (newest_of got) (ordered_map sent got h)"
    and head: "ordered_read_packet_head c = seq (int h)" and below: "\<forall>k < h. k \<in> got"
    and h: "newest_of got - 31 \<le> int h" "int h \<le> newest_of got + 1"
  shows "ordered_state sent got (deliver_loop (rb_entries ring) c)"
    and "ordered_recv_queue (deliver_loop (rb_entries ring) c) =
      ordered_recv_queue c @ concat (map (messages \<circ> sent) [h..<first_missing got])"
    and "same_but_ordered c (deliver_loop (rb_entries ring) c)"
proof -
  let ?m = "newest_of got" and ?b = "ordered_map sent got h"
  let ?h = "first_missing got"
  have r: "rb_wf ring" "num_items ring = 32" "newest ring = seq ?m"
    and get: "\<And>k. ?m - 32 < k \<Longrightarrow> k \<le> ?m \<Longrightarrow> rb_get ring (seq k) = ?b k"
    using t by (simp_all add: window.tracks_def)
  obtain h' where h': "deliverable ?b ?m (int h) h'"
      "deliver_loop (rb_entries ring) c = deliver_range ?b [int h..h' - 1] c"
    using deliver_loop_range [of "?m - 31" ?m ring ?b c "int h"] get head h
    by (auto simp: rb_entries_eq window_seq [OF r(2,3)])
  have eq: "h' = int ?h" using deliverable_first_missing [OF fin h'(1) below] .
  have hh: "h \<le> ?h" "int ?h \<le> ?m + 1" using h'(1) by (simp_all add: deliverable_def eq)
  let ?ks = "[int h..int ?h - 1]"
  have b: "?b (int k) = Some (sent k)" if "h \<le> k" "k < ?h" for k
    using that below_first_missing [of k got] by (simp add: ordered_map_def)
  have loop: "deliver_loop (rb_entries ring) c = deliver_range ?b ?ks c" using h'(2) eq by simp
  show "ordered_recv_queue (deliver_loop (rb_entries ring) c) =
      ordered_recv_queue c @ concat (map (messages \<circ> sent) [h..<?h])"
    unfolding loop deliver_range_queue int_upto_upt
    by (auto simp: b intro!: arg_cong [of _ _ concat])
  show "same_but_ordered c (deliver_loop (rb_entries ring) c)"
    unfolding loop by (rule deliver_range_same)
  have near: "\<bar>k - l\<bar> < 65536" if "?m - 32 < k" "k \<le> ?m" "l \<in> set ?ks" for k l
    using that h hh by auto
  have inj: "distinct (map seq ?ks)"
    using h hh seq_eq_near by (fastforce simp: distinct_map intro!: inj_onI)
  have live: "\<forall>k \<in> set ?ks. rb_get ring (seq k) \<noteq> None"
  proof
    fix k assume k: "k \<in> set ?ks"
    then have "rb_get ring (seq k) = ?b k" using h hh by (intro get) auto
    then show "rb_get ring (seq k) \<noteq> None" using b [of "nat k"] k by auto
  qed
  note effect = deliver_range_ring [of c ?ks ?b, folded ring_def, OF r(1) inj live]
  let ?r = "reliable_ordered_received_packets (deliver_range ?b ?ks c)"
  have get': "rb_get ?r (seq k) = ordered_map sent got ?h k" if k: "?m - 32 < k" "k \<le> ?m" for k
  proof (cases "k \<in> set ?ks")
    case True
    then have "rb_get ?r (seq k) = Some (drained (the (?b k)))" using effect by blast
    moreover have "nat k < ?h" "h \<le> nat k" "0 \<le> k" using True by auto
    ultimately show ?thesis
      using b [of "nat k"] below_first_missing [of "nat k" got] by (simp add: ordered_map_def)
  next
    case False
    then have "seq k \<notin> seq ` set ?ks" using seq_eq_near [of k] near k by blast
    then have "rb_get ?r (seq k) = ?b k" using effect get k by auto
    moreover have "nat k < h \<or> k < 0 \<or> \<not> nat k < ?h" using False by auto
    ultimately show ?thesis using hh(1) by (auto simp: ordered_map_def)
  qed
  have "window.tracks ?r ?m (ordered_map sent got ?h)"
    using effect get' same_shape_wf [of ring ?r] r(1)
    by (intro window.tracks_cong [OF t]) (simp_all add: same_shape_def ordered_map_def)
  moreover have "ordered_read_packet_head (deliver_range ?b ?ks c) = seq (int ?h)"
  proof -
    have "int ?h = int h + int (?h - h)" using hh(1) by simp
    then have "seq (int ?h) = seq (int h) + word_of_nat (?h - h)" by (simp only: seq_add seq_nat)
    then show ?thesis unfolding deliver_range_head int_upto_upt head by simp
  qed
  ultimately show "ordered_state sent got (deliver_loop (rb_entries ring) c)"
    using fin by (simp add: ordered_state_def loop)
qed

lemma ordered_step:
  assumes "ordered_state sent got c" "may_arrive got n" "is_reliable True n (sent n)"
  shows "n \<in> got \<Longrightarrow> process_packet (sent n) c = c\<lparr>received_packet_duplicate := True\<rparr>"
    and "ordered_state sent (insert n got) (process_packet (sent n) c)"
    and "ordered_recv_queue (process_packet (sent n) c) = ordered_recv_queue c
      @ concat (map (messages \<circ> sent) [first_missing got..<first_missing (insert n got)])"
    and "n \<notin> got \<Longrightarrow> \<exists>c'. same_but_ordered (acknowledge (ack (sent n)) c) c' \<and> process_packet (sent n) c = c'"
proof -
  let ?ring = "reliable_ordered_received_packets c" and ?h = "first_missing got" and ?m = "newest_of got"
  have fin: "finite got" and head: "ordered_read_packet_head c = seq (int ?h)"
    and t: "window.tracks ?ring ?m (ordered_map sent got ?h)"
    using assms(1) by (simp_all add: ordered_state_def)
  have arr: "window.arrives ?m (ordered_map sent got ?h) (int n)"
    using fin assms(2) by (intro arrives_if_may_arrive) (auto simp: ordered_map_def)
  have rej: "rb_get ?ring (seq (int n)) \<noteq> None \<or> wrapping_gt (newest ?ring - 31) (seq (int n)) 64 \<longleftrightarrow> n \<in> got"
    using window.accepted_iff [OF t arr] by (simp add: ordered_map_def)
  let ?r = "rb_insert ?ring (seq (int n)) (sent n)"
  let ?c = "(acknowledge (ack (sent n)) c)\<lparr>reliable_ordered_received_packets := ?r\<rparr>"
  have step: "process_packet (sent n) c =
      (if n \<in> got then c\<lparr>received_packet_duplicate := True\<rparr> else deliver_loop (rb_entries ?r) ?c)"
    using process_reliable [OF assms(3), of c got] rej by (simp add: Let_def)
  then show "n \<in> got \<Longrightarrow> process_packet (sent n) c = c\<lparr>received_packet_duplicate := True\<rparr>" by simp
  show "ordered_state sent (insert n got) (process_packet (sent n) c)"
    and "ordered_recv_queue (process_packet (sent n) c) = ordered_recv_queue c
      @ concat (map (messages \<circ> sent) [?h..<first_missing (insert n got)])"
    and "n \<notin> got \<Longrightarrow> \<exists>c'. same_but_ordered (acknowledge (ack (sent n)) c) c' \<and> process_packet (sent n) c = c'"
  proof (atomize (full), cases "n \<in> got")
    case True
    then show "ordered_state sent (insert n got) (process_packet (sent n) c)
      \<and> ordered_recv_queue (process_packet (sent n) c) = ordered_recv_queue c
        @ concat (map (messages \<circ> sent) [?h..<first_missing (insert n got)])
      \<and> (n \<notin> got \<longrightarrow> (\<exists>c'. same_but_ordered (acknowledge (ack (sent n)) c) c' \<and> process_packet (sent n) c = c'))"
      using step assms(1) by (simp add: insert_absorb ordered_state_def)
  next
    case False
    let ?got = "insert n got"
    have "\<not> n < ?h" using False below_first_missing by blast
    then have map: "(ordered_map sent got ?h)(int n \<mapsto> sent n) = ordered_map sent ?got ?h"
      by (intro ext) (auto simp: ordered_map_def)
    have "window.tracks ?r (max ?m (int n)) ((ordered_map sent got ?h)(int n \<mapsto> sent n))"
      using False by (intro window.tracks_insert [OF t arr]) (simp add: ordered_map_def)
    then have t': "window.tracks ?r (newest_of ?got) (ordered_map sent ?got ?h)"
      by (simp add: map newest_of_insert [OF fin])
    have hle: "int ?h \<le> newest_of ?got + 1"
      using first_missing_le [OF fin] by (simp add: newest_of_insert [OF fin])
    have hge: "newest_of ?got - 31 \<le> int ?h"
    proof (rule ccontr)
      assume "\<not> ?thesis"
      then have far: "int ?h \<le> newest_of ?got - 32" by linarith
      then have "ordered_map sent ?got ?h (int ?h) \<noteq> None" using t' unfolding window.tracks_def by simp
      then have "?h = n" using first_missing_notin [OF fin]
        by (auto simp: ordered_map_def split: if_splits)
      then have "int n \<le> ?m - 32" using far by (auto simp: newest_of_insert [OF fin])
      then have "ordered_map sent got ?h (int n) \<noteq> None" using t unfolding window.tracks_def by simp
      then show False using False by (simp add: ordered_map_def)
    qed
    have "\<forall>k < ?h. k \<in> ?got" using below_first_missing by blast
    then show "ordered_state sent (insert n got) (process_packet (sent n) c)
      \<and> ordered_recv_queue (process_packet (sent n) c) = ordered_recv_queue c
        @ concat (map (messages \<circ> sent) [?h..<first_missing (insert n got)])
      \<and> (n \<notin> got \<longrightarrow> (\<exists>c'. same_but_ordered (acknowledge (ack (sent n)) c) c' \<and> process_packet (sent n) c = c'))"
      using deliver_loop_state [of ?got ?c sent ?h] fin t' head hge hle step False
      by (auto simp: same_but_ordered_def)
  qed
qed

end
