(* ===== verification/Runs.thy ===== *)
theory Runs
  imports Delivery
begin

text \<open>
  Runs of the receiving half: a connection processes any list of intact packets of its
  peer, reliable ones of both kinds and unreliable ones, with losses, repetitions and
  reordering as far as \<open>may_arrive\<close> allows. What the two receive queues hold at the end is
  computed by \<open>unordered_output\<close> and from the first missing ordered packet.
\<close>

section \<open>Runs\<close>

datatype arrival = Unordered nat | Ordered nat | Unreliable packet

text \<open>The packets the peer sends under each number.\<close>

record peer =
  unordered_sent :: "nat \<Rightarrow> packet"
  ordered_sent :: "nat \<Rightarrow> packet"

definition peer_ok :: "peer \<Rightarrow> bool" where
  "peer_ok s \<longleftrightarrow>
     (\<forall>n. is_reliable False n (unordered_sent s n) \<and> is_reliable True n (ordered_sent s n))"

fun arrival_packet :: "peer \<Rightarrow> arrival \<Rightarrow> packet" where
  "arrival_packet s (Unordered n) = unordered_sent s n"
| "arrival_packet s (Ordered n) = ordered_sent s n"
| "arrival_packet s (Unreliable p) = p"

definition process_all :: "peer \<Rightarrow> arrival list \<Rightarrow> inner \<Rightarrow> inner" where
  "process_all s as c = fold (\<lambda>a. process_packet (arrival_packet s a)) as c"

fun run_ok :: "nat set \<Rightarrow> nat set \<Rightarrow> arrival list \<Rightarrow> bool" where
  "run_ok u o_d [] = True"
| "run_ok u o_d (Unordered n # as) = (may_arrive u n \<and> run_ok (insert n u) o_d as)"
| "run_ok u o_d (Ordered n # as) = (may_arrive o_d n \<and> run_ok u (insert n o_d) as)"
| "run_ok u o_d (Unreliable p # as) = (\<not> reliable p \<and> run_ok u o_d as)"

fun ordered_ids :: "arrival list \<Rightarrow> nat set" where
  "ordered_ids [] = {}"
| "ordered_ids (Ordered n # as) = insert n (ordered_ids as)"
| "ordered_ids (a # as) = ordered_ids as"

text \<open>The messages of unordered packets, each at its first arrival, and of unreliable packets.\<close>

fun unordered_output :: "peer \<Rightarrow> nat set \<Rightarrow> arrival list \<Rightarrow> rval list" where
  "unordered_output s u [] = []"
| "unordered_output s u (Unordered n # as) =
     (if n \<in> u then [] else messages (unordered_sent s n)) @ unordered_output s (insert n u) as"
| "unordered_output s u (Unreliable p # as) = messages p @ unordered_output s u as"
| "unordered_output s u (Ordered n # as) = unordered_output s u as"

section \<open>Frames\<close>

text \<open>Both specification states depend on their own fields only.\<close>

lemma unordered_state_cong:
  "reliable_received_packets c' = reliable_received_packets c \<Longrightarrow>
   unordered_state got c' \<longleftrightarrow> unordered_state got c"
  by (simp add: unordered_state_def)

lemma ordered_state_cong:
  "reliable_ordered_received_packets c' = reliable_ordered_received_packets c \<Longrightarrow>
   ordered_read_packet_head c' = ordered_read_packet_head c \<Longrightarrow>
   ordered_state sent got c' \<longleftrightarrow> ordered_state sent got c"
  by (simp add: ordered_state_def)

lemma process_unreliable:
  assumes "\<not> reliable p"
  shows "process_packet p c =
    (acknowledge (ack p) c)\<lparr>unordered_recv_queue := unordered_recv_queue c @ messages p\<rparr>"
  using assms by (simp add: process_packet_def acknowledge_def case_prod_beta Let_def)

lemma unordered_frame:
  assumes "unordered_state got c" "may_arrive got n" "is_reliable False n p"
  shows "reliable_ordered_received_packets (process_packet p c) = reliable_ordered_received_packets c"
    and "ordered_read_packet_head (process_packet p c) = ordered_read_packet_head c"
    and "ordered_recv_queue (process_packet p c) = ordered_recv_queue c"
  using unordered_step(1) [OF assms] by simp_all

lemma ordered_frame:
  assumes "ordered_state sent got c" "may_arrive got n" "is_reliable True n (sent n)"
  shows "reliable_received_packets (process_packet (sent n) c) = reliable_received_packets c"
    and "unordered_recv_queue (process_packet (sent n) c) = unordered_recv_queue c"
proof -
  have "reliable_received_packets (process_packet (sent n) c) = reliable_received_packets c
    \<and> unordered_recv_queue (process_packet (sent n) c) = unordered_recv_queue c"
    using ordered_step(1,4) [OF assms] by (cases "n \<in> got") (auto simp: same_but_ordered_def)
  then show "reliable_received_packets (process_packet (sent n) c) = reliable_received_packets c"
    and "unordered_recv_queue (process_packet (sent n) c) = unordered_recv_queue c" by blast+
qed

section \<open>The result of a run\<close>

lemma first_missing_mono:
  assumes "finite a" "finite b" "a \<subseteq> b"
  shows "first_missing a \<le> first_missing b"
proof (rule ccontr)
  assume "\<not> ?thesis"
  then have "first_missing b \<in> a" using below_first_missing [of "first_missing b" a] by simp
  then show False using first_missing_notin [OF assms(2)] assms(3) by blast
qed

lemma finite_ordered_ids [simp]: "finite (ordered_ids as)"
  by (induction as rule: ordered_ids.induct) auto

lemma upt_concat:
  "a \<le> b \<Longrightarrow> b \<le> c \<Longrightarrow> concat (map f [a..<b]) @ concat (map f [b..<c]) = concat (map f [a..<c])"
  using upt_add_eq_append [of a b "c - b"] by simp

lemma process_all_simps [simp]:
  "process_all s [] c = c"
  "process_all s (a # as) c = process_all s as (process_packet (arrival_packet s a) c)"
  by (simp_all add: process_all_def)

text \<open>One arrival.\<close>

definition next_unordered :: "arrival \<Rightarrow> nat set \<Rightarrow> nat set" where
  "next_unordered a u = (case a of Unordered n \<Rightarrow> insert n u | _ \<Rightarrow> u)"

definition next_ordered :: "arrival \<Rightarrow> nat set \<Rightarrow> nat set" where
  "next_ordered a o_d = (case a of Ordered n \<Rightarrow> insert n o_d | _ \<Rightarrow> o_d)"

lemma process_one:
  assumes "peer_ok s" "run_ok u o_d (a # as)" "unordered_state u c"
    and "ordered_state (ordered_sent s) o_d c"
  defines "c' \<equiv> process_packet (arrival_packet s a) c"
  shows "run_ok (next_unordered a u) (next_ordered a o_d) as
    \<and> unordered_state (next_unordered a u) c' \<and> ordered_state (ordered_sent s) (next_ordered a o_d) c'
    \<and> unordered_recv_queue c' @ unordered_output s (next_unordered a u) as
      = unordered_recv_queue c @ unordered_output s u (a # as)
    \<and> ordered_recv_queue c' = ordered_recv_queue c
      @ concat (map (messages \<circ> ordered_sent s) [first_missing o_d..<first_missing (next_ordered a o_d)])"
proof (cases a)
  case (Unordered n)
  then have n: "may_arrive u n" "is_reliable False n (unordered_sent s n)"
    using assms by (simp_all add: peer_ok_def)
  then show ?thesis
    using Unordered assms unordered_step(2,3) [OF assms(3) n] unordered_frame [OF assms(3) n]
      ordered_state_cong [of "process_packet (unordered_sent s n) c" c]
    by (simp add: next_unordered_def next_ordered_def)
next
  case (Ordered n)
  then have n: "may_arrive o_d n" "is_reliable True n (ordered_sent s n)"
    using assms by (simp_all add: peer_ok_def)
  then show ?thesis
    using Ordered assms ordered_step(2,3) [OF assms(4) n] ordered_frame [OF assms(4) n]
      unordered_state_cong [of "process_packet (ordered_sent s n) c" c]
    by (simp add: next_unordered_def next_ordered_def)
next
  case (Unreliable p)
  then have "c' = (acknowledge (ack p) c)\<lparr>unordered_recv_queue := unordered_recv_queue c @ messages p\<rparr>"
    using assms by (simp add: process_unreliable)
  then show ?thesis
    using Unreliable assms ordered_state_cong [of c' c] unordered_state_cong [of c' c]
    by (simp add: next_unordered_def next_ordered_def)
qed

lemma process_all_unordered:
  assumes "peer_ok s" "run_ok u o_d as" "unordered_state u c" "ordered_state (ordered_sent s) o_d c"
  shows "unordered_recv_queue (process_all s as c) = unordered_recv_queue c @ unordered_output s u as"
  using assms(2-4)
proof (induction as arbitrary: u o_d c)
  case (Cons a as)
  note st = process_one [OF assms(1) Cons.prems]
  have "unordered_recv_queue (process_all s as (process_packet (arrival_packet s a) c)) =
      unordered_recv_queue (process_packet (arrival_packet s a) c)
        @ unordered_output s (next_unordered a u) as"
    using st by (intro Cons.IH) blast+
  then show ?case using st by (simp add: process_all_def)
qed (simp add: process_all_def)

lemma process_all_ordered:
  assumes "peer_ok s" "run_ok u o_d as" "unordered_state u c" "ordered_state (ordered_sent s) o_d c"
  shows "ordered_recv_queue (process_all s as c) = ordered_recv_queue c
      @ concat (map (messages \<circ> ordered_sent s) [first_missing o_d..<first_missing (o_d \<union> ordered_ids as)])"
  using assms(2-4)
proof (induction as arbitrary: u o_d c)
  case (Cons a as)
  note st = process_one [OF assms(1) Cons.prems]
  have fin: "finite o_d" "finite (next_ordered a o_d)"
    using Cons.prems(3) st by (simp_all add: ordered_state_def)
  have sub: "o_d \<subseteq> next_ordered a o_d" "next_ordered a o_d \<subseteq> next_ordered a o_d \<union> ordered_ids as"
    by (auto simp: next_ordered_def split: arrival.splits)
  have ids: "o_d \<union> ordered_ids (a # as) = next_ordered a o_d \<union> ordered_ids as"
    by (cases a) (auto simp: next_ordered_def)
  have "concat (map (messages \<circ> ordered_sent s) [first_missing o_d..<first_missing (next_ordered a o_d)])
      @ concat (map (messages \<circ> ordered_sent s)
          [first_missing (next_ordered a o_d)..<first_missing (next_ordered a o_d \<union> ordered_ids as)])
    = concat (map (messages \<circ> ordered_sent s) [first_missing o_d..<first_missing (next_ordered a o_d \<union> ordered_ids as)])"
    using fin sub by (intro upt_concat first_missing_mono) auto
  moreover have "ordered_recv_queue (process_all s as (process_packet (arrival_packet s a) c)) =
      ordered_recv_queue (process_packet (arrival_packet s a) c)
        @ concat (map (messages \<circ> ordered_sent s)
            [first_missing (next_ordered a o_d)..<first_missing (next_ordered a o_d \<union> ordered_ids as)])"
    using st by (intro Cons.IH) blast+
  ultimately show ?case unfolding ids process_all_simps using st by (metis append_assoc)
qed simp

section \<open>Fresh connections\<close>

lemma tracks_default: "(\<And>k. a k = None) \<Longrightarrow> window.tracks rb_default (- 1) a"
  by (simp add: window.tracks_def)

lemma fresh_states:
  "unordered_state {} (fst (inner_default s))" "ordered_state sent {} (fst (inner_default s))"
proof -
  have "first_missing {} = 0" by (rule first_missing_eqI) simp_all
  then show "unordered_state {} (fst (inner_default s))" "ordered_state sent {} (fst (inner_default s))"
    by (simp_all add: unordered_state_def ordered_state_def inner_default_def now_def newest_of_def
      unordered_map_def ordered_map_def tracks_default)
qed

end
