(* ===== verification/Intake.thy ===== *)
theory Intake
  imports Runs
begin

text \<open>
  From datagrams to packets: the receiving half of \<open>communicator/inner.rs\<close> keeps the
  invariant of a connection whatever arrives, a datagram of the peer is the treatment of its
  packet, and \<open>receive\<close> on a socket that holds datagrams of the peer treats their packets
  one after the other.
\<close>

section \<open>The invariant\<close>

lemma cache_ok_take_acked: "cache_ok d o_d r \<Longrightarrow> cache_ok d o_d (take_acked b w r)"
  by (auto simp: cache_ok_def rb_get_take_acked split: if_splits)

lemma acknowledge_eq:
  "acknowledge a c =
   c\<lparr>reliable_send_packets := take_acked (reliable_ack_bits a) (reliable_newest_received a) (reliable_send_packets c),
     reliable_ordered_send_packets :=
       take_acked (ordered_ack_bits a) (ordered_newest_received a) (reliable_ordered_send_packets c)\<rparr>"
  by (simp add: acknowledge_def acknowledge_rings_eq)

lemma acknowledge_ok: "inner_ok d c \<Longrightarrow> inner_ok d (acknowledge a c)"
  by (simp add: acknowledge_eq inner_ok_def recv_rings_ok_def cache_ok_take_acked)

text \<open>The invariant does not look at what the receiving half changes besides its caches.\<close>

lemma inner_ok_recv [simp]:
  "inner_ok d (c\<lparr>unordered_recv_queue := q\<rparr>) = inner_ok d c"
  "inner_ok d (c\<lparr>ordered_recv_queue := q\<rparr>) = inner_ok d c"
  "inner_ok d (c\<lparr>ordered_read_packet_head := h\<rparr>) = inner_ok d c"
  "inner_ok d (c\<lparr>received_packet_duplicate := b\<rparr>) = inner_ok d c"
  "inner_ok d (c\<lparr>last_seen := t\<rparr>) = inner_ok d c"
  by (simp_all add: inner_ok_def recv_rings_ok_def)

lemma inner_ok_insert:
  "inner_ok d c \<Longrightarrow>
   inner_ok d (c\<lparr>reliable_received_packets := rb_insert (reliable_received_packets c) i x\<rparr>)"
  "inner_ok d c \<Longrightarrow> inner_ok d
     (c\<lparr>reliable_ordered_received_packets := rb_insert (reliable_ordered_received_packets c) i p\<rparr>)"
  by (simp_all add: inner_ok_def recv_rings_ok_def)

lemma deliver_one_ok: "inner_ok d c \<Longrightarrow> inner_ok d (deliver_one i p c)"
  by (simp add: deliver_one_def inner_ok_def recv_rings_ok_def)

lemma deliver_loop_ok: "inner_ok d c \<Longrightarrow> inner_ok d (deliver_loop es c)"
proof (induction es arbitrary: c)
  case (Cons e es)
  obtain i p where "e = (i, p)" by (cases e)
  then show ?case
    using Cons.IH [of "deliver_one i p c"] Cons.IH [of c] Cons.prems deliver_one_ok [of d c i p]
    by (auto simp: deliver_loop_Cons)
qed simp

lemma process_packet_ok:
  assumes "inner_ok d c"
  shows "inner_ok d (process_packet p c)"
proof -
  let ?c = "acknowledge (ack p) c" and ?i = "sequence_id (ack p)"
  have a: "inner_ok d ?c" using assms by (rule acknowledge_ok)
  have "inner_ok d (deliver_loop es (?c\<lparr>reliable_ordered_received_packets :=
      rb_insert (reliable_ordered_received_packets ?c) ?i p\<rparr>))" for es
    using inner_ok_insert(2) [OF a] by (rule deliver_loop_ok)
  moreover have "inner_ok d (acknowledge (ack p) (c\<lparr>unordered_recv_queue := q\<rparr>))" for q
    using assms by (intro acknowledge_ok) simp
  moreover have "inner_ok d (?c\<lparr>reliable_received_packets :=
      rb_insert (reliable_received_packets ?c) ?i (), unordered_recv_queue := q\<rparr>)" for q
    using inner_ok_insert(1) [OF a] by simp
  ultimately show ?thesis using assms a by (simp add: process_packet_def Let_def)
qed

lemma read_checked_ok:
  "read_checked env ctx n c s = Returns (c', s') \<Longrightarrow> inner_ok d c \<Longrightarrow> inner_ok d c'"
  by (auto simp: read_checked_def outcome_bind_Returns now_def process_packet_ok Let_def case_prod_beta
    split: if_splits res.splits)

lemma read_packet_ok:
  "read_packet env ctx n c s = Returns (c', s') \<Longrightarrow> inner_ok d c \<Longrightarrow> inner_ok d c'"
  by (auto simp: read_packet_def outcome_bind_Returns intro: read_checked_ok split: if_splits)

text \<open>
  What \<open>read_packet\<close> keeps, \<open>receive\<close> keeps. \<open>S\<close> is what holds of the socket meanwhile: it must not
  be lost when a datagram is taken from the system or from the simulated delay.
\<close>

locale reading_invariant =
  fixes env :: crate_env and ctx :: udp_context and P :: "inner \<Rightarrow> bool" and S :: "udp_socket \<Rightarrow> bool"
  assumes read: "read_packet env ctx n c s = Returns (c', s') \<Longrightarrow> P c \<Longrightarrow> S s \<Longrightarrow> P c' \<and> S s'"
    and recv: "S s \<Longrightarrow> S (snd (recv_from s))"
    and delay: "S s \<Longrightarrow> S (snd (debug_delay env None n s))"
    and delayed: "S s \<Longrightarrow> S (snd (read_delayed s))"
begin

lemma receive_loop_keeps:
  assumes "receive_loop env ctx c s = Returns (c', s')" "P c" "S s"
  shows "P c' \<and> S s'"
  using assms
proof (induction "length (inbox (os_socket s))" arbitrary: c s rule: less_induct)
  case less
  note eq = less(2) [unfolded receive_loop.simps [of env ctx c s]]
  obtain r s1 where r: "recv_from s = (r, s1)" by (cases "recv_from s")
  have s1: "S s1" using recv [OF less(4)] r by simp
  show ?case
  proof (cases r)
    case None
    then show ?thesis using eq r less(3) s1 by simp
  next
    case (Some na)
    obtain n a where na: "na = (n, a)" by (cases na)
    obtain b s2 where b: "debug_delay env None n s1 = (b, s2)" by (cases "debug_delay env None n s1")
    have s2: "S s2" using delay [OF s1, of n] b by simp
    note short = recv_round [OF r [unfolded Some] b]
    show ?thesis
    proof (cases b)
      case True
      then show ?thesis using eq r Some na b less(1) [of s2 c] short(1) less(3) s2 by simp
    next
      case False
      then obtain c1 s3 where c1: "read_packet env ctx n c s2 = Returns (c1, s3)"
          "receive_loop env ctx c1 s3 = Returns (c', s')"
        using eq r Some na b by (auto simp: outcome_bind_Returns)
      show ?thesis
        using less(1) [OF short(2) [OF c1(1)] c1(2)] read [OF c1(1) less(3) s2] by simp
    qed
  qed
qed

lemma delayed_loop_keeps:
  assumes "delayed_loop env ctx c s = Returns (c', s')" "P c" "S s"
  shows "P c' \<and> S s'"
  using assms
proof (induction "length (fake_delayed_buffer s)" arbitrary: c s rule: less_induct)
  case less
  note eq = less(2) [unfolded delayed_loop.simps [of env ctx c s]]
  obtain r s1 where r: "read_delayed s = (r, s1)" by (cases "read_delayed s")
  have s1: "S s1" using delayed [OF less(4)] r by simp
  show ?case
  proof (cases r)
    case None
    then show ?thesis using eq r less(3) s1 by simp
  next
    case (Some na)
    obtain n a where na: "na = (n, a)" by (cases na)
    obtain c1 s3 where c1: "read_packet env ctx n c s1 = Returns (c1, s3)"
        "delayed_loop env ctx c1 s3 = Returns (c', s')"
      using eq r Some na by (auto simp: outcome_bind_Returns)
    have "length (fake_delayed_buffer s3) < length (fake_delayed_buffer s)"
      using read_delayed_shorter [OF r [unfolded Some]] read_packet_os [OF c1(1)] by simp
    then show ?thesis using less(1) [OF _ c1(2)] read [OF c1(1) less(3) s1] by simp
  qed
qed

lemma receive_keeps:
  assumes "receive env ctx c s = Returns (c', s')" "P c" "S s"
  shows "P c' \<and> S s'"
proof -
  obtain c1 s1 where c1: "receive_loop env ctx c s = Returns (c1, s1)"
    using assms(1) by (auto simp: receive_def outcome_bind_Returns)
  have "P c1 \<and> S s1" using c1 assms(2,3) by (rule receive_loop_keeps)
  then show ?thesis
    using delayed_loop_keeps [of c1 s1 c' s'] assms(1) c1 by (auto simp: receive_def split: if_splits)
qed

end

lemma receive_inv:
  assumes "\<And>n c s c' s'. read_packet env ctx n c s = Returns (c', s') \<Longrightarrow> P c \<Longrightarrow> P c'"
    and "receive env ctx c s = Returns (c', s')" "P c"
  shows "P c'"
proof -
  have "reading_invariant env ctx P (\<lambda>_. True)" using assms(1) by unfold_locales blast+
  then show ?thesis using reading_invariant.receive_keeps assms(2,3) by blast
qed

interpretation ok_kept: reading_invariant env ctx "inner_ok d" "\<lambda>_. True" for env ctx d
  by unfold_locales (auto intro: read_packet_ok)

lemma receive_ok:
  "receive env ctx c s = Returns (c', s') \<Longrightarrow> inner_ok d c \<Longrightarrow> inner_ok d c'"
  using ok_kept.receive_keeps by blast

section \<open>Datagrams of the peer\<close>

text \<open>A build without the simulated faults, or with none of them configured.\<close>

definition no_faults :: "crate_env \<Rightarrow> udp_socket \<Rightarrow> bool" where
  "no_faults env s \<longleftrightarrow> \<not> feature_debug env \<or>
     corruption_probability s = None \<and> drop_probability s = None
   \<and> snd (fake_delay s) \<le> fst (fake_delay s) \<and> fake_delayed_buffer s = []"

lemma no_faults_bind: "socket_bind b = Some s \<Longrightarrow> no_faults env s"
  by (auto simp: socket_bind_def no_faults_def split: option.splits)

lemma no_faults_simps [simp]:
  "no_faults env (s\<lparr>os_socket := o_s\<rparr>) = no_faults env s"
  "no_faults env (s\<lparr>data_buffer := bs\<rparr>) = no_faults env s"
  "no_faults env (snd (now s)) = no_faults env s"
  by (simp_all add: no_faults_def now_def)

lemma CRC_REVERSE [simp]: "CRC env (REVERSE ctx) = CRC env ctx"
  by (rule ext) (simp add: CRC_def CRC_ALGORITHM_def REVERSE_def)

lemma REVERSE_simps [simp]: "SEND (REVERSE ctx) = RECV ctx" "RECV (REVERSE ctx) = SEND ctx"
  by (simp_all add: REVERSE_def)

lemma frame_slices:
  assumes "data_buffer s = frame d crc p @ rest" "n = length (frame d crc p)"
  shows "slice (data_buffer s) 0 4 = Some (to_le_bytes 4 (unat (crc (encode (packet_repr d) p))))"
    and "slice (data_buffer s) 4 n = Some (encode (packet_repr d) p)"
  using assms by (simp_all add: slice_def frame_def)

lemma crc_bytes: "word_of_nat (from_le_bytes (to_le_bytes 4 (unat (w :: u32)))) = w"
proof -
  have "from_le_bytes (to_le_bytes 4 (unat w)) = unat w"
    using unat_u32_lt [of w] by (intro from_to_le_bytes) simp
  then show ?thesis by simp
qed

lemma read_packet_frame:
  assumes "lawful_repr (SEND ctx)" "packet_ok (SEND ctx) p" "no_faults env s"
    and "data_buffer s = frame (SEND ctx) (CRC env ctx) p @ rest"
  shows "read_packet env (REVERSE ctx) (length (frame (SEND ctx) (CRC env ctx) p)) c s =
    Returns (process_packet p (c\<lparr>last_seen := fst (now s)\<rparr>), snd (now s))"
proof -
  let ?d = "SEND ctx" and ?crc = "CRC env ctx"
  have "self_type (packet_repr ?d) p" using assms(2) by (simp add: packet_ok_def)
  then have "from_bytes (packet_repr ?d) (encode (packet_repr ?d) p) = Ok p"
    using lawful_repr.read_ok [OF packet_repr_lawful [OF assms(1)], of p "[]"] by simp
  moreover have "feature_debug env \<Longrightarrow> debug_drop s = Some (False, s) \<and> debug_corrupt n s = Some s" for n
    using assms(3) by (simp add: no_faults_def debug_drop_def debug_corrupt_def)
  ultimately show ?thesis
    using frame_slices [OF assms(4) refl]
    by (simp add: read_packet_def read_checked_def debug_preparse_def crc_bytes case_prod_beta)
qed

lemma recv_from_Cons:
  assumes "inbox (os_socket s) = Some (a, f) # rest" "length f \<le> length (data_buffer s)"
  shows "recv_from s = (Some (length f, a), s\<lparr>os_socket := (os_socket s)\<lparr>inbox := rest\<rparr>,
      data_buffer := f @ drop (length f) (data_buffer s)\<rparr>)"
  using assms by (simp add: recv_from_def Let_def min_def)

section \<open>The instant of the last packet\<close>

text \<open>Nothing depends on \<open>last_seen\<close>.\<close>

lemma deliver_loop_seen:
  "deliver_loop es (c\<lparr>last_seen := t\<rparr>) = (deliver_loop es c)\<lparr>last_seen := t\<rparr>"
proof (induction es arbitrary: c)
  case (Cons e es)
  obtain i p where e: "e = (i, p)" by (cases e)
  have "deliver_one i p (c\<lparr>last_seen := t\<rparr>) = (deliver_one i p c)\<lparr>last_seen := t\<rparr>"
    by (simp add: deliver_one_def)
  then show ?case using Cons by (auto simp: deliver_loop_Cons e)
qed simp

lemma process_packet_seen:
  "process_packet p (c\<lparr>last_seen := t\<rparr>) = (process_packet p c)\<lparr>last_seen := t\<rparr>"
proof -
  have "deliver_loop es (c\<lparr>last_seen := t, reliable_send_packets := x, reliable_ordered_send_packets := y,
        reliable_ordered_received_packets := r\<rparr>) =
      (deliver_loop es (c\<lparr>reliable_send_packets := x, reliable_ordered_send_packets := y,
        reliable_ordered_received_packets := r\<rparr>))\<lparr>last_seen := t\<rparr>" for es x y r
  proof -
    have "c\<lparr>last_seen := t, reliable_send_packets := x, reliable_ordered_send_packets := y,
        reliable_ordered_received_packets := r\<rparr> =
        c\<lparr>reliable_send_packets := x, reliable_ordered_send_packets := y,
        reliable_ordered_received_packets := r, last_seen := t\<rparr>" by simp
    then show ?thesis by (simp only: deliver_loop_seen)
  qed
  then show ?thesis
    by (simp add: process_packet_def acknowledge_eq Let_def)
qed

section \<open>receive\<close>

text \<open>A socket that holds datagrams of packets of the peer, each from some address.\<close>

lemma receive_loop_frames:
  assumes "lawful_repr (SEND ctx)" "list_all (\<lambda>(a, p). packet_ok (SEND ctx) p) aps"
    and "no_faults env s" "length (data_buffer s) = MAX_PACKET_LEN"
    and "inbox (os_socket s) = map (\<lambda>(a, p). Some (a, frame (SEND ctx) (CRC env ctx) p)) aps"
  shows "\<exists>t s'. receive_loop env (REVERSE ctx) c s =
      Returns ((fold (\<lambda>(a, p). process_packet p) aps c)\<lparr>last_seen := t\<rparr>, s')
    \<and> same_config s s' \<and> no_faults env s' \<and> inbox (os_socket s') = []
    \<and> outbox (os_socket s') = outbox (os_socket s)"
  using assms(2-5)
proof (induction aps arbitrary: c s)
  case Nil
  then have "receive_loop env (REVERSE ctx) c s = Returns (c, s)"
    by (subst receive_loop.simps) (simp add: recv_from_def)
  then show ?case using Nil by (intro exI [of _ "last_seen c"] exI [of _ s]) simp
next
  case (Cons ap aps)
  obtain a p where ap: "ap = (a, p)" by (cases ap)
  let ?f = "frame (SEND ctx) (CRC env ctx) p"
  let ?rest = "map (\<lambda>(a, p). Some (a, frame (SEND ctx) (CRC env ctx) p)) aps"
  have p: "packet_ok (SEND ctx) p" using Cons.prems(1) ap by simp
  let ?s = "s\<lparr>os_socket := (os_socket s)\<lparr>inbox := ?rest\<rparr>,
      data_buffer := ?f @ drop (length ?f) (data_buffer s)\<rparr>"
  have "length ?f \<le> length (data_buffer s)"
    using length_frame_le [OF assms(1) p] Cons.prems(3) by simp
  then have recv: "recv_from s = (Some (length ?f, a), ?s)"
    using Cons.prems(4) ap by (intro recv_from_Cons) simp
  have nf: "no_faults env ?s" using Cons.prems(2) by simp
  have delay: "debug_delay env None n ?s = (False, ?s)" for n
    using nf by (auto simp: debug_delay_def delay_packet_def no_faults_def)
  have read: "read_packet env (REVERSE ctx) (length ?f) c ?s =
      Returns (process_packet p (c\<lparr>last_seen := fst (now ?s)\<rparr>), snd (now ?s))"
    using nf by (intro read_packet_frame [OF assms(1) p]) simp_all
  let ?s' = "snd (now ?s)" and ?c = "process_packet p (c\<lparr>last_seen := fst (now ?s)\<rparr>)"
  have s': "length (data_buffer ?s') = MAX_PACKET_LEN" "inbox (os_socket ?s') = ?rest"
      "no_faults env ?s'" "same_config s ?s'" "outbox (os_socket ?s') = outbox (os_socket s)"
    using Cons.prems length_frame_le [OF assms(1) p, of "CRC env ctx"]
    by (simp_all add: now_def same_config_def)
  obtain t s'' where IH: "receive_loop env (REVERSE ctx) ?c ?s' =
      Returns ((fold (\<lambda>(a, p). process_packet p) aps ?c)\<lparr>last_seen := t\<rparr>, s'')"
      "same_config ?s' s''" "no_faults env s''" "inbox (os_socket s'') = []"
      "outbox (os_socket s'') = outbox (os_socket ?s')"
    using Cons.IH [OF _ s'(3,1,2), of ?c] Cons.prems(1) by auto
  have seen: "(fold (\<lambda>(a, p). process_packet p) aps (c\<lparr>last_seen := u\<rparr>))\<lparr>last_seen := t\<rparr> =
      (fold (\<lambda>(a, p). process_packet p) aps c)\<lparr>last_seen := t\<rparr>" for u c
  proof (induction aps arbitrary: c)
    case (Cons x xs)
    then show ?case using process_packet_seen [of "snd x" u c] by (cases x) simp
  qed simp
  have "receive_loop env (REVERSE ctx) c s = receive_loop env (REVERSE ctx) ?c ?s'"
    by (subst receive_loop.simps) (simp only: recv delay read option.case prod.case bool.case outcome_bind.simps)
  then show ?case
    using IH s'(4,5) same_config_trans [OF s'(4) IH(2)]
    by (intro exI [of _ t] exI [of _ s'']) (simp add: ap process_packet_seen seen)
qed

lemma receive_frames:
  assumes "lawful_repr (SEND ctx)" "list_all (\<lambda>(a, p). packet_ok (SEND ctx) p) aps"
    and "no_faults env s" "length (data_buffer s) = MAX_PACKET_LEN"
    and "inbox (os_socket s) = map (\<lambda>(a, p). Some (a, frame (SEND ctx) (CRC env ctx) p)) aps"
  shows "\<exists>t s'. receive env (REVERSE ctx) c s =
      Returns ((fold (\<lambda>(a, p). process_packet p) aps c)\<lparr>last_seen := t\<rparr>, s')
    \<and> same_config s s' \<and> no_faults env s' \<and> inbox (os_socket s') = []
    \<and> outbox (os_socket s') = outbox (os_socket s)"
proof -
  have empty: "delayed_loop env (REVERSE ctx) c s = Returns (c, s)"
    if "feature_debug env" "no_faults env s" for c s
    using that by (subst delayed_loop.simps) (simp add: no_faults_def read_delayed_def)
  show ?thesis
    using receive_loop_frames [OF assms, of c] empty unfolding receive_def by fastforce
qed

end
