(* ===== verification/DeriveTyped.thy ===== *)
theory DeriveTyped
  imports DeriveImpls
begin

text \<open>
  The type of what is read. An implementation is typed when \<open>from_bytes\<close>, on any slice of less
  than a gigabyte, returns only values of its type: no flag but \<open>true\<close> and \<open>false\<close>, no number
  beyond its width, no string that is not UTF-8, no variant the enum does not have, nothing else
  than as many items as an array has. The locale \<open>typed_repr\<close> is the contract between an element
  type and the code that reads through it; all derived code keeps it.
\<close>

section \<open>The contract\<close>

locale typed_repr =
  fixes d :: "'v byte_repr"
  assumes typed: "from_bytes d bs = Ok x \<Longrightarrow> length bs < 2 ^ 30 \<Longrightarrow> self_type d x"
begin

text \<open>So does \<open>read_many\<close>.\<close>

lemma read_many_from_typed:
  assumes "read_many_from d bytes ptr out = Some (Ok (xs, p))" "length bytes < 2 ^ 30"
    and "list_all (self_type d) out"
  shows "list_all (self_type d) xs"
proof -
  have "e = d \<longrightarrow> length bytes < 2 ^ 30 \<longrightarrow> list_all (self_type d) out \<longrightarrow>
      (\<forall>xs p. r = Ok (xs, p) \<longrightarrow> list_all (self_type d) xs)"
    if "read_many_from e bytes ptr out = Some r" for e r
  proof (rule read_many_from.raw_induct [OF _ that])
    fix f e bytes ptr out r
    assume IH: "\<And>e bytes ptr out r. f e bytes ptr out = Some r \<Longrightarrow>
        e = d \<longrightarrow> length bytes < 2 ^ 30 \<longrightarrow> list_all (self_type d) out \<longrightarrow>
        (\<forall>xs p. r = Ok (xs, p) \<longrightarrow> list_all (self_type d) xs)"
      and body: "(if ptr < length bytes \<and> min_byte_len e \<le> length bytes - ptr then
          (case from_bytes e (drop ptr bytes) of
             Ok v \<Rightarrow> f e bytes (ptr + byte_len e v) (out @ [v])
           | Err err \<Rightarrow> Some (Err err) | Panic \<Rightarrow> Some Panic)
        else Some (Ok (out, ptr))) = Some r"
    show "e = d \<longrightarrow> length bytes < 2 ^ 30 \<longrightarrow> list_all (self_type d) out \<longrightarrow>
        (\<forall>xs p. r = Ok (xs, p) \<longrightarrow> list_all (self_type d) xs)"
    proof (intro impI)
      assume e: "e = d" and len: "length bytes < 2 ^ 30" and out: "list_all (self_type d) out"
      show "\<forall>xs p. r = Ok (xs, p) \<longrightarrow> list_all (self_type d) xs"
      proof (cases "from_bytes d (drop ptr bytes)")
        case (Ok v)
        then have "self_type d v" using len by (intro typed [of "drop ptr bytes"]) simp_all
        then show ?thesis
          using body IH [of d bytes "ptr + byte_len d v" "out @ [v]" r] Ok e len out
          by (auto split: if_splits)
      qed (use body e out in \<open>auto split: if_splits\<close>)
    qed
  qed
  then show ?thesis using assms by blast
qed

lemma read_many_typed:
  "read_many d bytes = Some (Ok (xs, p)) \<Longrightarrow> length bytes < 2 ^ 30 \<Longrightarrow> list_all (self_type d) xs"
  using read_many_from_typed [of bytes 0 "[]"] by (simp add: read_many_def)

end

section \<open>Numbers and strings\<close>

lemma from_le_bytes_less: "from_le_bytes bs < 256 ^ length bs"
proof (induction bs)
  case (Cons b bs)
  have "unat b < 256" using unsigned_less [of b, where 'a = nat] by simp
  moreover have "Suc (from_le_bytes bs) * 256 \<le> 256 ^ length bs * 256"
    using Cons by (intro mult_le_mono1) simp
  ultimately show ?case by simp
qed simp

lemma length_from_utf8_lossy: "length (from_utf8_lossy bs) \<le> 3 * length bs"
proof (induction bs rule: from_utf8_lossy.induct)
  case (1 bs)
  show ?case
  proof (cases "bs = []")
    case False
    obtain ok n where s: "utf8_step bs = (ok, n)" by fastforce
    have n: "0 < n" using utf8_step_pos [OF False] s by simp
    have IH: "length (from_utf8_lossy (drop n bs)) \<le> 3 * length (drop n bs)"
      by (rule "1.IH" [OF False s [symmetric]])
    have "length (from_utf8_lossy bs) =
        length ((if ok then take n bs else replacement_char) @ from_utf8_lossy (drop n bs))"
      using s False by (subst from_utf8_lossy.simps) simp
    moreover have "1 \<le> length bs" using False by (cases bs) simp_all
    moreover have "length replacement_char = 3" by (simp add: replacement_char_def)
    ultimately show ?thesis using IH n by (auto simp: min_def split: if_splits)
  qed simp
qed

section \<open>Fields\<close>

text \<open>Shapes whose element types keep the contract.\<close>

fun typed_field :: "(field_value \<Rightarrow> rval byte_repr) \<Rightarrow> field_value \<Rightarrow> bool" where
  "typed_field impl (VCow v) = typed_field impl v"
| "typed_field impl (VOption v) = typed_field impl v"
| "typed_field impl (VArray v _) = typed_repr (impl v)"
| "typed_field impl (VVec v _) = typed_repr (impl v)"
| "typed_field impl (VDelegated d) = typed_repr d"
| "typed_field impl _ = True"

text \<open>What the fixed part of a field is read as: its value if it has no other part, or a length.\<close>

fun typed_fixed :: "(field_value \<Rightarrow> rval byte_repr) \<Rightarrow> field_value \<Rightarrow> fixed_read \<Rightarrow> bool" where
  "typed_fixed impl (VString _ _) fx = True"
| "typed_fixed impl (VVec _ _) fx = (flen fx < 2 ^ 32)"
| "typed_fixed impl (VCow _) fx = True"
| "typed_fixed impl (VOption _) fx = True"
| "typed_fixed impl (VArray _ _) fx = True"
| "typed_fixed impl (VDelegated _) fx = True"
| "typed_fixed impl v fx = has_type impl v (fvalue fx)"

lemma load_number_less: "load bs a k = Ok ws \<Longrightarrow> from_le_bytes ws < 256 ^ k"
  using from_le_bytes_less [of ws] by (auto simp: load_def split: if_splits)

lemma unat_byte_less: "unat (b :: u8) < 256"
  using unsigned_less [of b, where 'a = nat] by simp

lemma read_fixed_part_typed:
  assumes "read_fixed_part v off c = Ok (fx, q)"
  shows "typed_fixed impl v fx"
proof (cases v)
  case (VVec w m)
  then show ?thesis using assms load_number_less [where k = 4]
    by (fastforce simp: read_fixed_part_def res_bind_Ok_iff split: prod.splits)
qed (use assms load_number_less in
  \<open>fastforce simp: read_fixed_part_def bits_type_def res_bind_Ok_iff unat_byte_less split: prod.splits\<close>)+

lemma read_items_typed:
  assumes "typed_repr d" "length bytes < 2 ^ 30" "read_items d n bytes p = Ok (xs, q)"
  shows "length xs = n \<and> list_all (self_type d) xs"
  using assms(3)
proof (induction n arbitrary: p xs)
  case (Suc n)
  then obtain x p' ys where x: "read_via d bytes p = Ok (x, p')" "read_items d n bytes p' = Ok (ys, q)"
      "xs = x # ys"
    by (auto simp: res_bind_Ok_iff)
  have "self_type d x"
    using typed_repr.typed [OF assms(1), of "drop p bytes" x] x(1) assms(2)
    by (auto simp: read_via_def res_bind_Ok_iff split: if_splits)
  then show ?case using Suc.IH [OF x(2)] x(3) by simp
qed simp

lemma read_variable_part_typed:
  assumes "typed_field impl v" "typed_fixed impl v fx" "length bytes < 2 ^ 30"
    and "read_variable_part impl v off fx (bytes, p) = Ok (x, q)"
  shows "has_type impl v x"
  using assms
proof (induction v arbitrary: off fx p x q)
  case (VString m b)
  have "length (from_utf8_lossy (take (flen fx) (drop p bytes))) \<le> 3 * length bytes"
    by (rule order_trans [OF length_from_utf8_lossy]) simp
  then show ?case using VString valid_from_utf8_lossy by (auto split: if_splits)
next
  case (VCow v)
  then show ?case using read_fixed_part_typed by (fastforce simp: res_bind_Ok_iff)
next
  case (VOption v)
  then show ?case using read_fixed_part_typed by (fastforce simp: res_bind_Ok_iff split: if_splits)
qed (auto simp: res_bind_Ok_iff read_via_def dest: read_items_typed typed_repr.typed split: if_splits)

section \<open>Groups, structs, enums\<close>

lemma read_fixed_all_typed:
  assumes "read_fixed_all (make_fields a vs) bytes = Ok fxs"
  shows "list_all2 (typed_fixed impl) vs fxs"
  using assms
proof (induction vs arbitrary: a fxs)
  case (Cons v vs)
  then show ?case using read_fixed_part_typed by (fastforce simp: res_bind_Ok_iff)
qed simp

lemma read_variable_all_typed:
  assumes "list_all (typed_field impl) vs" "list_all2 (typed_fixed impl) vs fxs" "length bytes < 2 ^ 30"
    and "read_variable_all impl (make_fields a vs) fxs (bytes, p) = Ok xs"
  shows "list_all2 (has_type impl) vs xs"
  using assms(2,1,4)
proof (induction vs fxs arbitrary: a p xs rule: list_all2_induct)
  case (Cons v vs fx fxs)
  then show ?case
    using read_variable_part_typed [of impl v fx bytes] assms(3) by (fastforce simp: res_bind_Ok_iff)
qed simp

lemma group_read_typed:
  assumes "list_all (typed_field impl) vs" "length bytes < 2 ^ 30" "group_read impl a vs bytes = Ok xs"
  shows "list_all2 (has_type impl) vs xs"
proof -
  obtain fxs where "read_fixed_all (make_fields a vs) bytes = Ok fxs"
      "read_variable_all impl (make_fields a vs) fxs (bytes, group_fixed_bytes a vs) = Ok xs"
    using assms(3) by (auto simp: group_read_def Let_def res_bind_Ok_iff)
  then show ?thesis using read_variable_all_typed [OF assms(1) read_fixed_all_typed assms(2)] by blast
qed

lemma struct_repr_typed:
  assumes "list_all (typed_field impl) vs"
  shows "typed_repr (struct_repr impl vs)"
proof
  show "self_type (struct_repr impl vs) x"
    if "from_bytes (struct_repr impl vs) bs = Ok x" "length bs < 2 ^ 30" for bs x
    using that group_read_typed [OF assms that(2)] by (auto simp: struct_repr_def res_bind_Ok_iff)
qed

lemma enum_repr_typed:
  assumes "list_all (list_all (typed_field impl)) variants"
  shows "typed_repr (enum_repr impl variants)"
proof
  fix bs x
  assume read: "from_bytes (enum_repr impl variants) bs = Ok x" and len: "length bs < 2 ^ 30"
  obtain i xs a where i: "x = REnum i xs" "i < length variants"
      "group_read impl a (variants ! i) bs = Ok xs"
    using read by (auto simp: enum_repr_def Let_def res_bind_Ok_iff split: if_splits)
  then have "list_all (typed_field impl) (variants ! i)" using assms by (simp add: list_all_length)
  from group_read_typed [OF this len i(3)] show "self_type (enum_repr impl variants) x"
    using i(1,2) by (simp add: enum_repr_def Let_def)
qed

lemma derive_for_typed:
  assumes "typed_field impl v"
  shows "typed_repr (derive_for impl v)"
proof
  show "self_type (derive_for impl v) x"
    if "from_bytes (derive_for impl v) bs = Ok x" "length bs < 2 ^ 30" for bs x
    using that(1) read_variable_part_typed [OF assms _ that(2)] read_fixed_part_typed
    by (fastforce simp: derive_for_def res_bind_Ok_iff)
qed

text \<open>The standard types, nested in any way.\<close>

primrec delegates_typed :: "field_value \<Rightarrow> bool" where
  "delegates_typed VEmptyTuple = True" | "delegates_typed VBool = True"
| "delegates_typed VU8 = True" | "delegates_typed VI8 = True"
| "delegates_typed VU16 = True" | "delegates_typed VI16 = True"
| "delegates_typed VU32 = True" | "delegates_typed VI32 = True" | "delegates_typed VF32 = True"
| "delegates_typed VU64 = True" | "delegates_typed VI64 = True" | "delegates_typed VF64 = True"
| "delegates_typed VUSize = True" | "delegates_typed VISize = True"
| "delegates_typed VU128 = True" | "delegates_typed VI128 = True"
| "delegates_typed (VString m b) = True"
| "delegates_typed (VCow v) = delegates_typed v"
| "delegates_typed (VOption v) = delegates_typed v"
| "delegates_typed (VArray v n) = delegates_typed v"
| "delegates_typed (VVec v m) = delegates_typed v"
| "delegates_typed (VDelegated d) = typed_repr d"

lemma impl_of_typed: "delegates_typed v \<Longrightarrow> typed_repr (impl_of v)"
  by (induction v) (auto intro!: derive_for_typed)

lemma typed_field_impl_of: "delegates_typed v \<Longrightarrow> typed_field impl_of v"
  by (induction v) (auto intro!: impl_of_typed)

interpretation u16_typed: typed_repr "impl_of VU16" by (rule impl_of_typed) simp
interpretation string_typed: typed_repr "impl_of (VString m b)" for m b by (rule impl_of_typed) simp

end
