(* ===== verification/Robust.thy ===== *)
theory Robust
  imports Intake DeriveTyped "HOL-Library.Sublist"
begin

text \<open>
  What holds of a connection whatever arrives, datagrams of the peer or of anybody else,
  damaged or made up: the next ordered packet is never left waiting in the cache, nothing but
  acknowledged packets leaves the caches of the sending half, messages are only appended to the
  receive queues, and all of them are values of the message type. In a build without the
  simulated faults \<open>receive\<close> takes exactly the packets of the datagrams whose checksum is right.
\<close>

section \<open>The next ordered packet\<close>

definition head_free :: "inner \<Rightarrow> bool" where
  "head_free c \<longleftrightarrow> rb_get (reliable_ordered_received_packets c) (ordered_read_packet_head c) = None"

lemma deliver_loop_absent:
  "ordered_read_packet_head c \<notin> fst ` set es \<Longrightarrow> deliver_loop es c = c"
  by (induction es) (auto simp: deliver_loop_Cons)

text \<open>The loop hands over the packet at the read head and all that follow it without a gap.\<close>

lemma deliver_loop_head_free:
  assumes "rb_wf r" "num_items r = 32" "reliable_ordered_received_packets c = r"
  shows "head_free (deliver_loop (rb_entries r) c)"
proof (cases "rb_get r (ordered_read_packet_head c)")
  case None
  have "ordered_read_packet_head c \<notin> fst ` set (rb_entries r)"
    using rb_entries_get [OF assms(1)] None by force
  then show ?thesis using None assms(3) by (simp add: deliver_loop_absent head_free_def)
next
  case (Some p)
  define m where "m = int (unat (newest r))"
  define n where "n = ahead (newest r) (ordered_read_packet_head c)"
  let ?h = "m - int n" and ?b = "\<lambda>k. rb_get r (seq k)"
  have m: "seq m = newest r" by (simp add: m_def seq_def)
  have n: "n < 32" using ring.lookup_near [OF assms(1), of "ordered_read_packet_head c"] Some assms(2) by (simp add: n_def)
  have "newest r - word_of_nat n = ordered_read_packet_head c" by (simp add: n_def minus_ahead)
  then have h: "ordered_read_packet_head c = seq ?h" using m by (simp add: seq_add(2) seq_nat)
  have entries: "rb_entries r = live_in r (map seq [m - 31..m])"
    using window_seq [OF assms(2) m [symmetric]] by (simp add: rb_entries_eq)
  obtain h' where h': "deliverable ?b m ?h h'"
      "deliver_loop (rb_entries r) c = deliver_range ?b [?h..h' - 1] c"
    using deliver_loop_range [of "m - 31" m r ?b c ?h] h n unfolding entries by auto
  let ?ks = "[?h..h' - 1]"
  have range: "?h \<le> h'" "h' \<le> m + 1" using h'(1) by (simp_all add: deliverable_def)
  have "distinct (map seq ?ks)"
    using n range seq_eq_near by (fastforce simp: distinct_map intro!: inj_onI)
  moreover have "\<forall>k \<in> set ?ks. ?b k \<noteq> None" using h'(1) by (auto simp: deliverable_def)
  ultimately have other: "rb_get (reliable_ordered_received_packets (deliver_range ?b ?ks c)) i = rb_get r i"
    if "i \<notin> seq ` set ?ks" for i
    using deliver_range_ring [of c ?ks ?b] assms(1,3) that by simp
  have "seq h' \<notin> seq ` set ?ks" using n range seq_eq_near [of h'] by fastforce
  moreover have "?b h' = None"
  proof (cases "h' \<le> m")
    case True
    then show ?thesis using h'(1) by (simp add: deliverable_def)
  next
    case False
    then have "h' = m + 1" using range(2) by simp
    then have "\<not> live r (seq h')" using ahead_seq_behind [of m h'] assms(2) m by simp
    then show ?thesis by (rule rb_get_not_live)
  qed
  moreover have "ordered_read_packet_head (deliver_range ?b ?ks c) = seq h'"
  proof -
    have "h' = ?h + int (length ?ks)" using range(1) by simp
    then have "seq h' = seq ?h + word_of_nat (length ?ks)" by (metis seq_add(1) seq_nat)
    then show ?thesis unfolding deliver_range_head h by (rule sym)
  qed
  ultimately show ?thesis using other [of "seq h'"] h'(2) by (simp add: head_free_def)
qed

section \<open>One packet\<close>

text \<open>The four outcomes of \<open>process_packet\<close>.\<close>

lemma process_packet_cases:
  obtains (unreliable) "process_packet p c =
      (acknowledge (ack p) c)\<lparr>unordered_recv_queue := unordered_recv_queue c @ messages p\<rparr>"
  | (rejected) "process_packet p c = c\<lparr>received_packet_duplicate := True\<rparr>"
  | (ordered) r where
      "r = rb_insert (reliable_ordered_received_packets c) (sequence_id (ack p)) p"
      "process_packet p c =
         deliver_loop (rb_entries r) ((acknowledge (ack p) c)\<lparr>reliable_ordered_received_packets := r\<rparr>)"
  | (unordered) "process_packet p c = (acknowledge (ack p) c)
      \<lparr>reliable_received_packets := rb_insert (reliable_received_packets c) (sequence_id (ack p)) (),
       unordered_recv_queue := unordered_recv_queue c @ messages p\<rparr>"
proof (cases "reliable p")
  case True
  then have p: "process_packet p c = c\<lparr>received_packet_duplicate := True\<rparr> \<or>
      process_packet p c = (if ordered p
        then deliver_loop (rb_entries (rb_insert (reliable_ordered_received_packets c) (sequence_id (ack p)) p))
          ((acknowledge (ack p) c)\<lparr>reliable_ordered_received_packets :=
             rb_insert (reliable_ordered_received_packets c) (sequence_id (ack p)) p\<rparr>)
        else (acknowledge (ack p) c)
          \<lparr>reliable_received_packets := rb_insert (reliable_received_packets c) (sequence_id (ack p)) (),
           unordered_recv_queue := unordered_recv_queue c @ messages p\<rparr>)"
    by (simp add: process_packet_def Let_def)
  show thesis
  proof (cases "process_packet p c = c\<lparr>received_packet_duplicate := True\<rparr>")
    case False
    then show thesis using p ordered [OF refl] unordered by (cases "ordered p") auto
  qed (rule rejected)
qed (simp add: unreliable process_unreliable)

lemma process_packet_head_free:
  assumes "recv_rings_ok c" "head_free c"
  shows "head_free (process_packet p c)"
proof (cases p c rule: process_packet_cases)
  case (ordered r)
  then show ?thesis using assms by (auto simp: recv_rings_ok_def intro: deliver_loop_head_free)
qed (use assms in \<open>simp_all add: head_free_def\<close>)

text \<open>The caches of the sending half shrink, the receive queues grow, and the rest stays.\<close>

definition only_shrinks :: "'a ring \<Rightarrow> 'a ring \<Rightarrow> bool" where
  "only_shrinks r r' \<longleftrightarrow> (\<forall>i. rb_get r' i = None \<or> rb_get r' i = rb_get r i)"

definition extends :: "inner \<Rightarrow> inner \<Rightarrow> bool" where
  "extends c c' \<longleftrightarrow>
     only_shrinks (reliable_send_packets c) (reliable_send_packets c')
   \<and> only_shrinks (reliable_ordered_send_packets c) (reliable_ordered_send_packets c')
   \<and> reliable_send_queue c' = reliable_send_queue c
   \<and> reliable_ordered_send_queue c' = reliable_ordered_send_queue c
   \<and> unreliable_send_queue c' = unreliable_send_queue c
   \<and> unreliable_send_packets c' = unreliable_send_packets c
   \<and> unreliable_send_packet_id c' = unreliable_send_packet_id c
   \<and> prefix (unordered_recv_queue c) (unordered_recv_queue c')
   \<and> prefix (ordered_recv_queue c) (ordered_recv_queue c')"

lemma only_shrinks_trans: "only_shrinks r r' \<Longrightarrow> only_shrinks r' r'' \<Longrightarrow> only_shrinks r r''"
  by (metis only_shrinks_def)

lemma extends_refl [simp]: "extends c c"
  by (simp add: extends_def only_shrinks_def)

lemma extends_trans [trans]: "extends c c' \<Longrightarrow> extends c' c'' \<Longrightarrow> extends c c''"
  unfolding extends_def by (metis only_shrinks_trans prefix_order.trans)

lemma deliver_loop_extends: "extends c (deliver_loop es c)"
proof (induction es arbitrary: c)
  case (Cons e es)
  obtain i p where e: "e = (i, p)" by (cases e)
  have "extends c (deliver_one i p c)" by (simp add: extends_def only_shrinks_def deliver_one_def)
  then show ?case using Cons.IH extends_trans by (auto simp: deliver_loop_Cons e)
qed simp

lemma acknowledge_extends: "inner_ok d c \<Longrightarrow> extends c (acknowledge a c)"
  by (auto simp: inner_ok_def cache_ok_def extends_def only_shrinks_def acknowledge_eq rb_get_take_acked)

lemma process_packet_extends:
  assumes "inner_ok d c"
  shows "extends c (process_packet p c)"
proof -
  note a = acknowledge_extends [OF assms, of "ack p"]
  have "extends x (x\<lparr>reliable_ordered_received_packets := r\<rparr>)"
    "extends x (x\<lparr>unordered_recv_queue := unordered_recv_queue x @ ms\<rparr>)"
    "extends x (x\<lparr>reliable_received_packets := u, unordered_recv_queue := unordered_recv_queue x @ ms\<rparr>)"
    "extends x (x\<lparr>received_packet_duplicate := b\<rparr>)" for x r u ms b
    by (simp_all add: extends_def only_shrinks_def)
  note steps = this deliver_loop_extends
  show ?thesis
  proof (cases p c rule: process_packet_cases)
    case unreliable
    then show ?thesis using extends_trans [OF a steps(2)] by simp
  next
    case (ordered r)
    then show ?thesis using extends_trans [OF extends_trans [OF a steps(1)] deliver_loop_extends] by simp
  next
    case unordered
    then show ?thesis using extends_trans [OF a steps(3)] by simp
  qed (use steps(4) in simp)
qed

lemma deliver_loop_rings: "recv_rings_ok c \<Longrightarrow> recv_rings_ok (deliver_loop es c)"
proof (induction es arbitrary: c)
  case (Cons e es)
  obtain i p where e: "e = (i, p)" by (cases e)
  have "recv_rings_ok (deliver_one i p c)" using Cons.prems by (simp add: recv_rings_ok_def deliver_one_def)
  then show ?case using Cons by (auto simp: deliver_loop_Cons e)
qed simp

lemma process_packet_rings: "recv_rings_ok c \<Longrightarrow> recv_rings_ok (process_packet p c)"
proof (cases p c rule: process_packet_cases)
  case (ordered r)
  assume "recv_rings_ok c"
  then have "recv_rings_ok ((acknowledge (ack p) c)\<lparr>reliable_ordered_received_packets := r\<rparr>)"
    by (simp add: recv_rings_ok_def ordered(1))
  then show ?thesis unfolding ordered(2) by (rule deliver_loop_rings)
qed (simp_all add: recv_rings_ok_def)

text \<open>The messages a connection holds for its user, or keeps back, are values of the message type.\<close>

definition typed_conn :: "rval byte_repr \<Rightarrow> inner \<Rightarrow> bool" where
  "typed_conn d c \<longleftrightarrow>
     list_all (self_type d) (unordered_recv_queue c) \<and> list_all (self_type d) (ordered_recv_queue c)
   \<and> (\<forall>i p. rb_get (reliable_ordered_received_packets c) i = Some p \<longrightarrow> list_all (self_type d) (messages p))"

lemma deliver_loop_typed:
  assumes "typed_conn d c" "rb_wf (reliable_ordered_received_packets c)"
    and "\<forall>(i, p) \<in> set es. list_all (self_type d) (messages p)"
  shows "typed_conn d (deliver_loop es c)"
  using assms
proof (induction es arbitrary: c)
  case (Cons e es)
  obtain i p where e: "e = (i, p)" by (cases e)
  have "typed_conn d (deliver_one i p c)" "rb_wf (reliable_ordered_received_packets (deliver_one i p c))"
    using Cons.prems by (auto simp: e typed_conn_def deliver_one_def rb_get_set drained_def split: if_splits)
  then show ?case using Cons by (auto simp: deliver_loop_Cons e)
qed simp

lemma process_packet_typed:
  assumes "typed_conn d c" "recv_rings_ok c" "list_all (self_type d) (messages p)"
  shows "typed_conn d (process_packet p c)"
proof (cases p c rule: process_packet_cases)
  case (ordered r)
  have wf: "rb_wf (reliable_ordered_received_packets c)" "rb_wf r"
    using assms(2) ordered(1) by (simp_all add: recv_rings_ok_def)
  have r: "list_all (self_type d) (messages q)" if "rb_get r i = Some q" for i q
    using that assms(1,3) by (auto simp: ordered(1) rb_get_insert [OF wf(1)] typed_conn_def split: if_splits)
  then have "typed_conn d ((acknowledge (ack p) c)\<lparr>reliable_ordered_received_packets := r\<rparr>)"
    using assms(1) by (simp add: typed_conn_def)
  moreover have "\<forall>(i, q) \<in> set (rb_entries r). list_all (self_type d) (messages q)"
    using rb_entries_get [OF wf(2)] r by blast
  ultimately show ?thesis using ordered(2) wf(2) by (simp add: deliver_loop_typed)
qed (use assms(1,3) in \<open>simp_all add: typed_conn_def\<close>)

section \<open>One datagram\<close>

lemma length_corrupt_bits [simp]: "length (corrupt_bits k bs) = length bs"
proof -
  have "length (fold (\<lambda>i bs. bs[i div 8 := (bs ! (i div 8)) XOR push_bit (i mod 8) 1]) is bs) = length bs" for "is"
    by (induction "is" arbitrary: bs) simp_all
  then show ?thesis by (simp add: corrupt_bits_def)
qed

lemma debug_corrupt_buffer: "debug_corrupt n s = Some s' \<Longrightarrow> length (data_buffer s') = length (data_buffer s)"
  by (auto simp: debug_corrupt_def random_bool_def random_range_def Let_def split: option.splits if_splits)

lemma debug_drop_buffer: "debug_drop s = Some (b, s') \<Longrightarrow> length (data_buffer s') = length (data_buffer s)"
  by (auto simp: debug_drop_def random_bool_def split: option.splits if_splits)

text \<open>A datagram leaves the connection alone or is the treatment of a packet that was read.\<close>

definition packet_read :: "udp_context \<Rightarrow> nat \<Rightarrow> packet \<Rightarrow> bool" where
  "packet_read ctx n p \<longleftrightarrow>
     (\<exists>bytes. length bytes \<le> n \<and> from_bytes (packet_repr (RECV ctx)) bytes = Ok p)"

lemma read_checked_cases:
  assumes "read_checked env ctx n c s = Returns (c', s')"
  shows "length (data_buffer s') = length (data_buffer s)
    \<and> (c' = c \<or> (\<exists>p t. packet_read ctx (length (data_buffer s)) p \<and> c' = process_packet p (c\<lparr>last_seen := t\<rparr>)))"
proof -
  obtain bytes where b: "slice (data_buffer s) 4 n = Some bytes"
      "(if CRC env ctx bytes \<noteq> word_of_nat (from_le_bytes (take 4 (data_buffer s))) then Returns (c, s)
        else (case from_bytes (packet_repr (RECV ctx)) bytes of
            Ok p \<Rightarrow>
              outcome_bind (or_panic (if feature_debug env then debug_drop s else Some (False, s)))
                (\<lambda>(lost, s1).
                  if lost then Returns (c, s1)
                  else (let (t, s2) = now s1
                        in Returns (process_packet p (c\<lparr>last_seen := t\<rparr>), s2)))
          | Err _ \<Rightarrow> Returns (c, s)
          | Panic \<Rightarrow> Panics)) = Returns (c', s')"
    using assms by (auto simp: read_checked_def outcome_bind_Returns or_panic_Returns slice_def split: if_splits)
  have len: "length bytes \<le> length (data_buffer s)" using b(1) by (auto simp: slice_def split: if_splits)
  show ?thesis
  proof (cases "from_bytes (packet_repr (RECV ctx)) bytes")
    case (Ok p)
    then have "packet_read ctx (length (data_buffer s)) p" using len by (auto simp: packet_read_def)
    then show ?thesis using b(2) Ok
      by (auto simp: outcome_bind_Returns or_panic_Returns now_def dest: debug_drop_buffer split: if_splits)
  qed (use b(2) in \<open>auto split: if_splits\<close>)
qed

lemma read_packet_cases:
  assumes "read_packet env ctx n c s = Returns (c', s')"
  shows "length (data_buffer s') = length (data_buffer s)
    \<and> (c' = c \<or> (\<exists>p t. packet_read ctx (length (data_buffer s)) p \<and> c' = process_packet p (c\<lparr>last_seen := t\<rparr>)))"
  using assms debug_corrupt_buffer read_checked_cases unfolding read_packet_def
  by (fastforce simp: outcome_bind_Returns or_panic_Returns split: if_splits)

lemma packet_read_typed:
  assumes "typed_repr (RECV ctx)" "packet_read ctx n p" "n < 2 ^ 30"
  shows "list_all (self_type (RECV ctx)) (messages p)"
proof -
  have "typed_repr (struct_repr impl_of ack_fields)"
    by (intro struct_repr_typed) (simp add: ack_fields_def)
  then have t: "typed_repr (struct_repr impl_of (packet_fields (RECV ctx)))"
    using assms(1) by (intro struct_repr_typed) (simp add: packet_fields_def)
  obtain bytes x where x: "length bytes \<le> n"
      "from_bytes (struct_repr impl_of (packet_fields (RECV ctx))) bytes = Ok x" "p = rval_to_packet x"
    using assms(2) by (auto simp: packet_read_def packet_repr_def map_repr_def res_bind_Ok_iff)
  have "self_type (struct_repr impl_of (packet_fields (RECV ctx))) x"
    using typed_repr.typed [OF t x(2)] x(1) assms(3) by linarith
  then obtain xs where xs: "x = RTuple xs" "list_all2 (has_type impl_of) (packet_fields (RECV ctx)) xs"
    by (cases x) (simp_all add: struct_repr_def)
  from xs(2) have "has_type impl_of (packet_fields (RECV ctx) ! 3) (xs ! 3)"
    by (rule list_all2_nthD) (simp add: packet_fields_def)
  then show ?thesis by (cases "xs ! 3") (simp_all add: packet_fields_def x(3) xs(1) rval_to_packet_def)
qed

section \<open>receive\<close>

definition settled :: "rval byte_repr \<Rightarrow> inner \<Rightarrow> inner \<Rightarrow> bool" where
  "settled d c c' \<longleftrightarrow> inner_ok d c' \<and> head_free c' \<and> extends c c'"

lemma settled_seen [simp]: "settled d c (c'\<lparr>last_seen := t\<rparr>) = settled d c c'"
  by (simp add: settled_def head_free_def extends_def)

lemma process_packet_settled:
  assumes "settled d c c'"
  shows "settled d c (process_packet p c')"
  using assms process_packet_ok process_packet_extends extends_trans
    process_packet_head_free [of c' p] unfolding settled_def inner_ok_def by meson

interpretation settled_kept: reading_invariant env ctx "settled d c" "\<lambda>_. True" for env ctx d c
proof unfold_locales
  show "settled d c x' \<and> True" if "read_packet env ctx n x s = Returns (x', s')" "settled d c x" for n x s x' s'
    using read_packet_cases [OF that(1)] that(2) process_packet_settled [of d c "x\<lparr>last_seen := _\<rparr>"] by auto
qed simp_all

text \<open>
  The packets of the datagrams in an inbox up to the first failing \<open>recv\<close>: of those whose first
  four bytes are the checksum of the rest and whose rest is a packet. What does not fit into the
  buffer is cut off.
\<close>

definition decoded :: "crate_env \<Rightarrow> udp_context \<Rightarrow> u8 list \<Rightarrow> packet list" where
  "decoded env ctx f =
     (if CRC env ctx (drop 4 f) = word_of_nat (from_le_bytes (take 4 f))
      then (case from_bytes (packet_repr (RECV ctx)) (drop 4 f) of Ok p \<Rightarrow> [p] | _ \<Rightarrow> [])
      else [])"

fun accepted :: "crate_env \<Rightarrow> udp_context \<Rightarrow> (socket_addr \<times> u8 list) option list \<Rightarrow> packet list" where
  "accepted env ctx (Some (a, f) # rest) = decoded env ctx (take MAX_PACKET_LEN f) @ accepted env ctx rest"
| "accepted env ctx _ = []"

lemma read_packet_decoded:
  assumes "\<not> feature_debug env" "data_buffer s = f @ rest" "read_packet env ctx (length f) c s = Returns (c', s')"
  shows "(\<exists>t. c' = (fold process_packet (decoded env ctx f) c)\<lparr>last_seen := t\<rparr>)
    \<and> inbox (os_socket s') = inbox (os_socket s) \<and> length (data_buffer s') = length (data_buffer s)"
proof -
  have len: "4 \<le> length f" using assms by (auto simp: read_packet_def read_checked_def slice_def outcome_bind_Returns
        or_panic_Returns split: if_splits)
  then have checked: "(if CRC env ctx (drop 4 f) \<noteq> word_of_nat (from_le_bytes (take 4 f)) then Returns (c, s)
      else (case from_bytes (packet_repr (RECV ctx)) (drop 4 f) of
          Ok p \<Rightarrow> Returns (process_packet p (c\<lparr>last_seen := fst (now s)\<rparr>), snd (now s))
        | Err _ \<Rightarrow> Returns (c, s) | Panic \<Rightarrow> Panics)) = Returns (c', s')"
    using assms by (cases "from_bytes (packet_repr (RECV ctx)) (drop 4 f)")
      (auto simp: read_packet_def read_checked_def slice_def case_prod_beta split: if_splits)
  consider "decoded env ctx f = []" "c' = c"
    | p where "decoded env ctx f = [p]" "c' = process_packet p (c\<lparr>last_seen := fst (now s)\<rparr>)"
    using checked by (cases "from_bytes (packet_repr (RECV ctx)) (drop 4 f)") (auto simp: decoded_def split: if_splits)
  then have "\<exists>t. c' = (fold process_packet (decoded env ctx f) c)\<lparr>last_seen := t\<rparr>"
  proof cases
    case 1
    then show ?thesis by (intro exI [of _ "last_seen c"]) simp
  next
    case (2 p)
    then show ?thesis by (auto simp: process_packet_seen)
  qed
  then show ?thesis using read_packet_os [OF assms(3)] read_packet_cases [OF assms(3)] by simp
qed

lemma fold_seen:
  "(fold process_packet ps (c\<lparr>last_seen := u\<rparr>))\<lparr>last_seen := t\<rparr> = (fold process_packet ps c)\<lparr>last_seen := t\<rparr>"
  by (induction ps arbitrary: c) (simp_all add: process_packet_seen)

lemma receive_loop_accepted:
  assumes "\<not> feature_debug env" "length (data_buffer s) = MAX_PACKET_LEN"
    and "receive_loop env ctx c s = Returns (c', s')"
  shows "\<exists>t. c' = (fold process_packet (accepted env ctx (inbox (os_socket s))) c)\<lparr>last_seen := t\<rparr>"
  using assms(2,3)
proof (induction "inbox (os_socket s)" arbitrary: c s)
  case Nil
  then show ?case by (auto simp: receive_loop.simps recv_from_def intro!: exI [of _ "last_seen c"])
next
  case (Cons x rest)
  show ?case
  proof (cases x)
    case None
    then show ?thesis using Cons.prems Cons.hyps(2) [symmetric]
      by (auto simp: receive_loop.simps recv_from_def intro!: exI [of _ "last_seen c"])
  next
    case (Some af)
    obtain a f where af: "af = (a, f)" by (cases af)
    let ?f = "take MAX_PACKET_LEN f"
    let ?s = "s\<lparr>os_socket := (os_socket s)\<lparr>inbox := rest\<rparr>,
        data_buffer := ?f @ drop (length ?f) (data_buffer s)\<rparr>"
    have "take (min MAX_PACKET_LEN (length f)) f = ?f" by (simp add: min_def)
    then have "recv_from s = (Some (length ?f, a), ?s)"
      using Cons.hyps(2) [symmetric] Cons.prems(1) Some af by (simp add: recv_from_def Let_def min.commute)
    moreover have "debug_delay env None n ?s = (False, ?s)" for n using assms(1) by (simp add: debug_delay_def)
    ultimately obtain c1 s1 where r: "read_packet env ctx (length ?f) c ?s = Returns (c1, s1)"
        "receive_loop env ctx c1 s1 = Returns (c', s')"
      using Cons.prems(2) by (subst (asm) receive_loop.simps) (auto simp: outcome_bind_Returns)
    have "data_buffer ?s = ?f @ drop (length ?f) (data_buffer s)" by simp
    from read_packet_decoded [OF assms(1) this r(1)]
    obtain t where t: "c1 = (fold process_packet (decoded env ctx ?f) c)\<lparr>last_seen := t\<rparr>"
        "inbox (os_socket s1) = rest" "length (data_buffer s1) = MAX_PACKET_LEN"
      using Cons.prems(1) by auto
    obtain t' where "c' = (fold process_packet (accepted env ctx rest) c1)\<lparr>last_seen := t'\<rparr>"
      using Cons.hyps(1) [OF t(2) [symmetric] t(3) r(2)] t(2) by auto
    then show ?thesis using t(1) Cons.hyps(2) [symmetric] Some af by (auto simp: fold_seen)
  qed
qed

lemma receive_accepted:
  assumes "\<not> feature_debug env" "length (data_buffer s) = MAX_PACKET_LEN" "receive env ctx c s = Returns (c', s')"
  shows "\<exists>t. c' = (fold process_packet (accepted env ctx (inbox (os_socket s))) c)\<lparr>last_seen := t\<rparr>"
  using receive_loop_accepted [OF assms(1,2), of ctx c] assms(1,3)
  by (auto simp: receive_def outcome_bind_Returns)

text \<open>The buffer of the socket and those of delayed packets keep their length.\<close>

definition buffers_ok :: "udp_socket \<Rightarrow> bool" where
  "buffers_ok s \<longleftrightarrow> length (data_buffer s) = MAX_PACKET_LEN
     \<and> list_all (\<lambda>(a, bs, n, t). length bs = MAX_PACKET_LEN) (fake_delayed_buffer s)"

lemma buffers_ok_bind: "socket_bind b = Some s \<Longrightarrow> buffers_ok s"
  by (auto simp: socket_bind_def buffers_ok_def split: option.splits)

lemma buffers_ok_recv: "buffers_ok s \<Longrightarrow> buffers_ok (snd (recv_from s))"
  by (auto simp: recv_from_def buffers_ok_def Let_def split: list.splits option.splits)

lemma buffers_ok_delay: "buffers_ok s \<Longrightarrow> buffers_ok (snd (debug_delay env a n s))"
  by (auto simp: debug_delay_def delay_packet_def buffers_ok_def random_range_def now_def)

lemma due_position_buffer: "data_buffer (snd (due_position es i s)) = data_buffer s"
  by (induction es i s rule: due_position.induct) (auto simp: now_def split: prod.splits)

lemma buffers_ok_delayed:
  assumes "buffers_ok s"
  shows "buffers_ok (snd (read_delayed s))"
proof -
  obtain r s1 where r: "due_position (fake_delayed_buffer s) 0 s = (r, s1)" by (cases "due_position (fake_delayed_buffer s) 0 s")
  have s1: "fake_delayed_buffer s1 = fake_delayed_buffer s" "data_buffer s1 = data_buffer s"
    using due_position_same [of "fake_delayed_buffer s" 0 s] due_position_buffer [of "fake_delayed_buffer s" 0 s] r
    by simp_all
  show ?thesis
  proof (cases r)
    case None
    then show ?thesis using r s1 assms by (simp add: read_delayed_def buffers_ok_def)
  next
    case (Some k)
    obtain a bs n t rest where sw: "swap_remove k (fake_delayed_buffer s) = ((a, bs, n, t), rest)"
      by (metis prod_cases4 surj_pair)
    have "k < length (fake_delayed_buffer s)" using due_position_Some [of "fake_delayed_buffer s" 0 s k s1] r Some by simp
    from mset_swap_remove [OF this sw]
    have "set (fake_delayed_buffer s) = insert (a, bs, n, t) (set rest)" by (metis set_mset_add_mset_insert set_mset_mset)
    then show ?thesis using r Some s1 sw assms by (auto simp: read_delayed_def buffers_ok_def list_all_iff)
  qed
qed

lemma buffers_ok_read: "read_packet env ctx n c s = Returns (c', s') \<Longrightarrow> buffers_ok s \<Longrightarrow> buffers_ok s'"
  using read_packet_cases read_packet_os by (fastforce simp: buffers_ok_def)

text \<open>What a derived message type is, is known of everything that can be read.\<close>

lemma typed_kept:
  assumes "typed_repr (RECV ctx)"
  shows "reading_invariant env ctx (\<lambda>c. recv_rings_ok c \<and> typed_conn (RECV ctx) c) buffers_ok"
proof
  fix n c s c' s'
  assume r: "read_packet env ctx n c s = Returns (c', s')"
    and c: "recv_rings_ok c \<and> typed_conn (RECV ctx) c" and s: "buffers_ok s"
  have seen: "recv_rings_ok (c\<lparr>last_seen := t\<rparr>)" "typed_conn (RECV ctx) (c\<lparr>last_seen := t\<rparr>)" for t
    using c by (simp_all add: recv_rings_ok_def typed_conn_def)
  have "length (data_buffer s) < 2 ^ 30"
    using s by (simp add: buffers_ok_def MAX_PACKET_LEN_def PACKET_HEADER_LEN_def MAX_PACKET_DATA_LEN_def)
  note typed = packet_read_typed [OF assms _ this]
  have "recv_rings_ok c' \<and> typed_conn (RECV ctx) c'"
    using read_packet_cases [OF r] c process_packet_typed [OF seen(2,1) typed]
      process_packet_rings [OF seen(1)] by auto
  then show "(recv_rings_ok c' \<and> typed_conn (RECV ctx) c') \<and> buffers_ok s'"
    using buffers_ok_read [OF r s] by simp
qed (simp_all add: buffers_ok_recv buffers_ok_delay buffers_ok_delayed)

end
