(* ===== verification/DeriveTotal.thy ===== *)
theory DeriveTotal
  imports DeriveImpls
begin

text \<open>
  Reading bytes nobody wrote. An implementation is total when \<open>from_bytes\<close> panics on no slice
  and returns no value that is longer than the slice. The locale \<open>total_repr\<close> is the contract
  between an element type and the code that reads through it; derived code whose fields hold
  neither a string nor a \<open>Cow\<close> keeps it. (A string prefix beyond the slice panics, and a
  \<open>Cow\<close> is not checked with the fixed parts of the other fields.)
\<close>

section \<open>The contract\<close>

locale total_repr =
  fixes d :: "'v byte_repr"
  assumes no_panic: "from_bytes d bs \<noteq> Panic"
    and read_within: "from_bytes d bs = Ok x \<Longrightarrow> byte_len d x \<le> length bs"
begin

text \<open>\<open>read_many\<close> does not panic either, and never claims more bytes than it was given.\<close>

lemma read_many_from_within:
  assumes "read_many_from d bytes ptr out = Some r" "ptr \<le> length bytes"
  shows "r \<noteq> Panic \<and> (\<forall>xs p. r = Ok (xs, p) \<longrightarrow> p \<le> length bytes)"
proof -
  have "e = d \<longrightarrow> ptr \<le> length bytes \<longrightarrow> r \<noteq> Panic \<and> (\<forall>xs p. r = Ok (xs, p) \<longrightarrow> p \<le> length bytes)"
    if "read_many_from e bytes ptr out = Some r" for e
  proof (rule read_many_from.raw_induct [OF _ that])
    fix f e bytes ptr out r
    assume IH: "\<And>e bytes ptr out r. f e bytes ptr out = Some r \<Longrightarrow>
        e = d \<longrightarrow> ptr \<le> length bytes \<longrightarrow> r \<noteq> Panic \<and> (\<forall>xs p. r = Ok (xs, p) \<longrightarrow> p \<le> length bytes)"
      and body: "(if ptr < length bytes \<and> min_byte_len e \<le> length bytes - ptr then
          (case from_bytes e (drop ptr bytes) of
             Ok v \<Rightarrow> f e bytes (ptr + byte_len e v) (out @ [v])
           | Err err \<Rightarrow> Some (Err err) | Panic \<Rightarrow> Some Panic)
        else Some (Ok (out, ptr))) = Some r"
    show "e = d \<longrightarrow> ptr \<le> length bytes \<longrightarrow> r \<noteq> Panic \<and> (\<forall>xs p. r = Ok (xs, p) \<longrightarrow> p \<le> length bytes)"
    proof (intro impI)
      assume e: "e = d" and ptr: "ptr \<le> length bytes"
      show "r \<noteq> Panic \<and> (\<forall>xs p. r = Ok (xs, p) \<longrightarrow> p \<le> length bytes)"
      proof (cases "from_bytes d (drop ptr bytes)")
        case (Ok v)
        then have "ptr + byte_len d v \<le> length bytes"
          using read_within [OF Ok] ptr by simp
        then show ?thesis
          using body IH [of d bytes "ptr + byte_len d v" "out @ [v]" r] Ok e ptr
          by (auto split: if_splits)
      qed (use body e ptr no_panic in \<open>auto split: if_splits\<close>)
    qed
  qed
  then show ?thesis using assms by blast
qed

lemma read_many_within:
  "read_many d bytes = Some r \<Longrightarrow> r \<noteq> Panic \<and> (\<forall>xs p. r = Ok (xs, p) \<longrightarrow> p \<le> length bytes)"
  using read_many_from_within [of bytes 0 "[]" r] by (simp add: read_many_def)

end

section \<open>Reading through an element type\<close>

lemma read_via_total:
  assumes "total_repr d" "p \<le> length bytes"
  shows "read_via d bytes p \<noteq> Panic"
    and "read_via d bytes p = Ok (x, q) \<Longrightarrow> q = p + byte_len d x \<and> q \<le> length bytes"
  using total_repr.no_panic [OF assms(1)] total_repr.read_within [OF assms(1), of "drop p bytes"] assms(2)
  by (cases "from_bytes d (drop p bytes)"; auto simp: read_via_def)+

lemma read_items_total:
  assumes "total_repr d" "p \<le> length bytes"
  shows "read_items d n bytes p \<noteq> Panic \<and> (\<forall>xs q. read_items d n bytes p = Ok (xs, q) \<longrightarrow>
    q = p + sum_list (map (byte_len d) xs) \<and> q \<le> length bytes)"
  using assms(2)
proof (induction n arbitrary: p)
  case (Suc n)
  show ?case
  proof (cases "read_via d bytes p")
    case (Ok xq)
    obtain x q where xq: "xq = (x, q)" by (cases xq)
    have q: "q = p + byte_len d x" "q \<le> length bytes"
      using read_via_total(2) [OF assms(1) Suc.prems] Ok xq by auto
    show ?thesis
      using Suc.IH [OF q(2)] q Ok xq by (cases "read_items d n bytes q") auto
  qed (use read_via_total(1) [OF assms(1) Suc.prems] in auto)
qed simp

section \<open>Fields\<close>

text \<open>Shapes without strings and \<open>Cow\<close>s whose element types keep the contract.\<close>

fun plain :: "(field_value \<Rightarrow> rval byte_repr) \<Rightarrow> field_value \<Rightarrow> bool" where
  "plain impl (VString _ _) = False"
| "plain impl (VCow _) = False"
| "plain impl (VOption v) = plain impl v"
| "plain impl (VArray v _) = total_repr (impl v)"
| "plain impl (VVec v _) = total_repr (impl v)"
| "plain impl (VDelegated d) = total_repr d"
| "plain impl _ = True"

lemma load_cases: "load bs a n = Err SliceTooShort \<or> load bs a n = Ok (take n (drop a bs)) \<and> a + n \<le> length bs"
  by (simp add: load_def)

lemma read_fixed_part_no_panic: "read_fixed_part v off c \<noteq> Panic"
proof -
  have "load bs a n \<noteq> Panic" for bs a n by (simp add: load_def)
  then have "res_bind (load bs a n) (\<lambda>x. Ok (f x)) \<noteq> Panic" for bs a n and f :: "u8 list \<Rightarrow> fixed_read \<times> nat"
    by (cases "load bs a n") auto
  then show ?thesis by (simp add: read_fixed_part_def split: prod.splits)
qed

text \<open>A fixed part that is read lies in the slice.\<close>

lemma read_fixed_part_within:
  assumes "plain impl v" "read_fixed_part v off (bytes, p) = Ok (fx, q)"
  shows "off = Static a \<Longrightarrow> a \<le> length bytes \<Longrightarrow> a + fixed_bytes v \<le> length bytes"
    and "off = Dynamic \<Longrightarrow> p \<le> length bytes \<Longrightarrow> q = p + fixed_bytes v \<and> q \<le> length bytes"
  using assms load_cases
  by (cases v; auto simp: read_fixed_part_def res_bind_Ok_iff load_def split: if_splits)+

lemma read_variable_part_total:
  assumes "plain impl v" "p \<le> length bytes"
  shows "read_variable_part impl v off fx (bytes, p) \<noteq> Panic \<and>
    (\<forall>x q. read_variable_part impl v off fx (bytes, p) = Ok (x, q) \<longrightarrow>
       p + value_len impl v x = q + fixed_bytes v \<and> q \<le> length bytes)"
  using assms
proof (induction v arbitrary: off fx p)
  case (VOption v)
  show ?case
  proof (cases "ftag fx")
    case True
    show ?thesis
    proof (cases "read_fixed_part v Dynamic (bytes, p)")
      case (Ok fq)
      obtain fx' q where fq: "fq = (fx', q)" by (cases fq)
      have q: "q = p + fixed_bytes v" "q \<le> length bytes"
        using read_fixed_part_within(2) [of impl v Dynamic bytes p fx' q] VOption.prems Ok fq by auto
      show ?thesis
        using VOption.IH [of q Dynamic fx'] VOption.prems q Ok fq True
        by (cases "read_variable_part impl v Dynamic fx' (bytes, q)") auto
    qed (use True read_fixed_part_no_panic in auto)
  qed (use VOption.prems in auto)
next
  case (VArray v n)
  then show ?case using read_items_total [of "impl v" p bytes n]
    by (cases "read_items (impl v) n bytes p") auto
next
  case (VVec v m)
  then show ?case using read_items_total [of "impl v" p bytes "flen fx"]
    by (cases "read_items (impl v) (flen fx) bytes p") auto
next
  case (VDelegated d)
  then show ?case using read_via_total [of d p bytes] by auto
qed auto

section \<open>Groups\<close>

lemma read_fixed_all_total:
  assumes "list_all (plain impl) vs" "a \<le> length bytes"
  shows "read_fixed_all (make_fields a vs) bytes \<noteq> Panic \<and>
    (\<forall>fxs. read_fixed_all (make_fields a vs) bytes = Ok fxs \<longrightarrow>
       length fxs = length vs \<and> group_fixed_bytes a vs \<le> length bytes)"
  using assms
proof (induction vs arbitrary: a)
  case (Cons v vs)
  show ?case
  proof (cases "read_fixed_part v (Static a) (bytes, 0)")
    case (Ok fq)
    obtain fx q where fq: "fq = (fx, q)" by (cases fq)
    have "a + fixed_bytes v \<le> length bytes"
      using read_fixed_part_within(1) [of impl v "Static a" bytes 0 fx q a] Cons.prems Ok fq by auto
    then show ?thesis
      using Cons.IH [of "a + fixed_bytes v"] Cons.prems Ok fq
      by (cases "read_fixed_all (make_fields (a + fixed_bytes v) vs) bytes")
         (auto simp: group_fixed_bytes_def add.assoc)
  qed (use read_fixed_part_no_panic in auto)
qed (simp add: group_fixed_bytes_def)

lemma read_variable_all_total:
  assumes "list_all (plain impl) vs" "length fxs = length vs" "p \<le> length bytes"
  shows "read_variable_all impl (make_fields a vs) fxs (bytes, p) \<noteq> Panic \<and>
    (\<forall>xs. read_variable_all impl (make_fields a vs) fxs (bytes, p) = Ok xs \<longrightarrow>
       length xs = length vs \<and> p + group_len impl vs xs \<le> length bytes + sum_list (map fixed_bytes vs))"
  using assms
proof (induction vs arbitrary: a fxs p)
  case (Cons v vs)
  obtain fx fxs' where fxs: "fxs = fx # fxs'" using Cons.prems(2) by (cases fxs) auto
  note v = read_variable_part_total [of impl v p bytes "Static a" fx]
  show ?case
  proof (cases "read_variable_part impl v (Static a) fx (bytes, p)")
    case (Ok xq)
    obtain x q where xq: "xq = (x, q)" by (cases xq)
    have q: "p + value_len impl v x = q + fixed_bytes v" "q \<le> length bytes"
      using v Cons.prems Ok xq by auto
    then show ?thesis
      using Cons.IH [of fxs' q "a + fixed_bytes v"] Cons.prems Ok xq fxs
      by (cases "read_variable_all impl (make_fields (a + fixed_bytes v) vs) fxs' (bytes, q)")
         (auto simp: group_len_def)
  qed (use v Cons.prems fxs in auto)
qed (simp add: group_len_def)

lemma group_read_total:
  assumes "list_all (plain impl) vs" "a \<le> length bytes"
  shows "group_read impl a vs bytes \<noteq> Panic \<and>
    (\<forall>xs. group_read impl a vs bytes = Ok xs \<longrightarrow> a + group_len impl vs xs \<le> length bytes)"
proof (cases "read_fixed_all (make_fields a vs) bytes")
  case (Ok fxs)
  then have f: "length fxs = length vs" "group_fixed_bytes a vs \<le> length bytes"
    using read_fixed_all_total [OF assms] by auto
  then show ?thesis
    using read_variable_all_total [OF assms(1) f, of a] Ok
    by (auto simp: group_read_def group_fixed_bytes_def)
qed (use read_fixed_all_total [OF assms] in \<open>auto simp: group_read_def\<close>)

section \<open>Structs, enums, standard types\<close>

lemma struct_repr_total:
  assumes "list_all (plain impl) vs"
  shows "total_repr (struct_repr impl vs)"
proof
  fix bs x
  note g = group_read_total [OF assms, of 0 bs]
  show "from_bytes (struct_repr impl vs) bs \<noteq> Panic"
    using g by (cases "group_read impl 0 vs bs") (auto simp: struct_repr_def)
  show "byte_len (struct_repr impl vs) x \<le> length bs" if "from_bytes (struct_repr impl vs) bs = Ok x"
    using that g by (auto simp: struct_repr_def res_bind_Ok_iff)
qed

lemma enum_repr_total:
  assumes "list_all (list_all (plain impl)) variants" "0 < length variants" "length variants \<le> 256"
  shows "total_repr (enum_repr impl variants)"
proof
  let ?d = "enum_repr impl variants" and ?v = "variant_len (length variants)"
  fix bs x
  have v: "?v = (if length variants = 1 then 0 else 1)" using assms(2,3) by (intro variant_len_cases) auto
  have ok: "list_all (plain impl) (variants ! i)" if "i < length variants" for i
    using assms(1) that by (simp add: list_all_length)
  have "from_bytes ?d bs \<noteq> Panic \<and> (\<forall>x. from_bytes ?d bs = Ok x \<longrightarrow> byte_len ?d x \<le> length bs)"
  proof (cases "length variants = 1")
    case True
    then show ?thesis using group_read_total [OF ok, of 0 0 bs] v
      by (cases "group_read impl 0 (variants ! 0) bs") (auto simp: enum_repr_def)
  next
    case False
    show ?thesis
    proof (cases bs)
      case (Cons b bs')
      have "group_read impl 1 (variants ! unat b) bs \<noteq> Panic \<and> (\<forall>xs. group_read impl 1 (variants ! unat b) bs = Ok xs
          \<longrightarrow> 1 + group_len impl (variants ! unat b) xs \<le> length bs)" if "unat b < length variants"
        using group_read_total [OF ok [OF that], of 1 bs] Cons by simp
      then show ?thesis using False v Cons
        by (cases "unat b < length variants"; cases "group_read impl 1 (variants ! unat b) bs")
           (auto simp: enum_repr_def Let_def load_def)
    qed (use False in \<open>auto simp: enum_repr_def Let_def load_def\<close>)
  qed
  then show "from_bytes ?d bs \<noteq> Panic" and "from_bytes ?d bs = Ok x \<Longrightarrow> byte_len ?d x \<le> length bs"
    by blast+
qed

lemma derive_for_total:
  assumes "plain impl v"
  shows "total_repr (derive_for impl v)"
proof
  let ?d = "derive_for impl v"
  fix bs x
  have "from_bytes ?d bs \<noteq> Panic \<and> (\<forall>x. from_bytes ?d bs = Ok x \<longrightarrow> byte_len ?d x \<le> length bs)"
  proof (cases "read_fixed_part v (Static 0) (bs, 0)")
    case (Ok fq)
    obtain fx q where fq: "fq = (fx, q)" by (cases fq)
    have "fixed_bytes v \<le> length bs"
      using read_fixed_part_within(1) [OF assms, of "Static 0" bs 0 fx q 0] Ok fq by simp
    then show ?thesis
      using read_variable_part_total [OF assms, of "fixed_bytes v" bs "Static 0" fx] Ok fq
      by (cases "read_variable_part impl v (Static 0) fx (bs, fixed_bytes v)")
         (auto simp: derive_for_def)
  qed (use read_fixed_part_no_panic in \<open>auto simp: derive_for_def\<close>)
  then show "from_bytes ?d bs \<noteq> Panic" and "from_bytes ?d bs = Ok x \<Longrightarrow> byte_len ?d x \<le> length bs"
    by blast+
qed

text \<open>The standard types, nested in any way.\<close>

primrec panic_free :: "field_value \<Rightarrow> bool" where
  "panic_free VEmptyTuple = True" | "panic_free VBool = True"
| "panic_free VU8 = True" | "panic_free VI8 = True"
| "panic_free VU16 = True" | "panic_free VI16 = True"
| "panic_free VU32 = True" | "panic_free VI32 = True" | "panic_free VF32 = True"
| "panic_free VU64 = True" | "panic_free VI64 = True" | "panic_free VF64 = True"
| "panic_free VUSize = True" | "panic_free VISize = True"
| "panic_free VU128 = True" | "panic_free VI128 = True"
| "panic_free (VString m b) = False"
| "panic_free (VCow v) = False"
| "panic_free (VOption v) = panic_free v"
| "panic_free (VArray v n) = panic_free v"
| "panic_free (VVec v m) = panic_free v"
| "panic_free (VDelegated d) = total_repr d"

lemma impl_of_total: "panic_free v \<Longrightarrow> total_repr (impl_of v)"
  by (induction v) (auto intro!: derive_for_total)

lemma plain_impl_of: "panic_free v \<Longrightarrow> plain impl_of v"
  by (induction v) (auto intro!: impl_of_total)

interpretation u16_total: total_repr "impl_of VU16" by (rule impl_of_total) simp
interpretation bool_total: total_repr "impl_of VBool" by (rule impl_of_total) simp

end
