(* ===== verification/ReceiveSpec.thy ===== *)
theory ReceiveSpec
  imports Robust DeriveTotal Scenario
begin

text \<open>
  What the receiving half of a connection guarantees (\<open>communicator/inner.rs\<close>): a datagram
  of the peer is understood, damage is noticed, reliable packets are taken once, ordered
  ones in order, nothing that arrives breaks the connection, and where the code falls short
  of that.
\<close>

section \<open>Datagrams\<close>

text \<open>
  C21. A datagram as the peer's \<open>send\<close> puts it on the wire, at the start of the buffer, is
  read as the packet it was made from; only the instant of the last packet changes besides.
\<close>

theorem datagram_roundtrip:
  assumes "lawful_repr (SEND ctx)" "packet_ok (SEND ctx) p" "no_faults env s"
    and "data_buffer s = frame (SEND ctx) (CRC env ctx) p @ rest"
  shows "read_packet env (REVERSE ctx) (length (frame (SEND ctx) (CRC env ctx) p)) c s =
    Returns (process_packet p (c\<lparr>last_seen := fst (now s)\<rparr>), snd (now s))"
  using assms by (rule read_packet_frame)

lemma no_faults_production: "\<not> feature_debug env \<Longrightarrow> no_faults env s"
  by (simp add: no_faults_def)

theorem datagram_roundtrip_witness:
  "\<exists>s c'. read_packet demo_env (REVERSE demo_ctx)
      (length (frame test_message (CRC demo_env demo_ctx) (demo_packet False False 3))) demo_inner s =
    Returns (c', snd (now s)) \<and> unordered_recv_queue c' = [REnum 0 []]"
proof -
  let ?p = "demo_packet False False 3"
  let ?s = "demo_socket\<lparr>data_buffer := frame test_message (CRC demo_env demo_ctx) ?p @ []\<rparr>"
  have "read_packet demo_env (REVERSE demo_ctx)
      (length (frame test_message (CRC demo_env demo_ctx) ?p)) demo_inner ?s =
    Returns (process_packet ?p (demo_inner\<lparr>last_seen := fst (now ?s)\<rparr>), snd (now ?s))"
    using datagram_roundtrip [of demo_ctx ?p demo_env ?s "[]" demo_inner] test_message_lawful
    by (simp add: no_faults_production)
  moreover have "unordered_recv_queue (process_packet ?p (demo_inner\<lparr>last_seen := t\<rparr>)) = [REnum 0 []]" for t
    by (simp add: process_unreliable)
  ultimately show ?thesis by blast
qed

definition mismatched :: "crate_env \<Rightarrow> udp_context \<Rightarrow> u8 list \<Rightarrow> bool" where
  "mismatched env ctx f \<longleftrightarrow> 4 \<le> length f \<and> length f \<le> MAX_PACKET_LEN
     \<and> CRC env ctx (drop 4 f) \<noteq> word_of_nat (from_le_bytes (take 4 f))"

lemma read_packet_mismatched:
  assumes "\<not> feature_debug env" "mismatched env ctx f" "data_buffer s = f @ rest"
  shows "read_packet env ctx (length f) c s = Returns (c, s)"
  using assms by (simp add: read_packet_def read_checked_def slice_def mismatched_def)

lemma receive_loop_mismatched:
  assumes "\<not> feature_debug env" "list_all (\<lambda>(a, f). mismatched env ctx f) afs"
    and "inbox (os_socket s) = map Some afs" "length (data_buffer s) = MAX_PACKET_LEN"
  shows "\<exists>s'. receive_loop env ctx c s = Returns (c, s') \<and> inbox (os_socket s') = []"
  using assms(2-4)
proof (induction afs arbitrary: s)
  case Nil
  then show ?case by (subst receive_loop.simps) (simp add: recv_from_def)
next
  case (Cons af afs)
  obtain a f where af: "af = (a, f)" by (cases af)
  let ?s = "s\<lparr>os_socket := (os_socket s)\<lparr>inbox := map Some afs\<rparr>,
      data_buffer := f @ drop (length f) (data_buffer s)\<rparr>"
  have f: "mismatched env ctx f" using Cons.prems(1) af by simp
  then have recv: "recv_from s = (Some (length f, a), ?s)"
    using Cons.prems(2,3) af by (intro recv_from_Cons) (simp_all add: mismatched_def)
  have read: "read_packet env ctx (length f) c ?s = Returns (c, ?s)"
    using assms(1) f by (rule read_packet_mismatched) simp
  have "debug_delay env None n ?s = (False, ?s)" for n using assms(1) by (simp add: debug_delay_def)
  then have "receive_loop env ctx c s = receive_loop env ctx c ?s"
    using recv read by (subst receive_loop.simps) simp
  moreover have "\<exists>s'. receive_loop env ctx c ?s = Returns (c, s') \<and> inbox (os_socket s') = []"
    using Cons.prems f by (intro Cons.IH) (simp_all add: mismatched_def)
  ultimately show ?case by simp
qed

text \<open>
  C20. Datagrams whose checksum does not match, any number of them, leave the connection
  exactly as it was.
\<close>

theorem noise_ignored:
  assumes "\<not> feature_debug env" "list_all (\<lambda>(a, f). mismatched env ctx f) afs"
    and "inbox (os_socket s) = map Some afs" "length (data_buffer s) = MAX_PACKET_LEN"
  shows "\<exists>s'. receive env ctx c s = Returns (c, s') \<and> inbox (os_socket s') = []"
  using receive_loop_mismatched [OF assms, of c] assms(1) by (auto simp: receive_def)

theorem noise_ignored_witness:
  "\<exists>s'. receive demo_env demo_ctx demo_inner
      (demo_socket\<lparr>os_socket := demo_os\<lparr>inbox := [Some (9, [0, 0, 0, 0, 7])]\<rparr>\<rparr>) = Returns (demo_inner, s')"
proof -
  have "mismatched demo_env demo_ctx [0, 0, 0, 0, 7]"
    by (simp add: mismatched_def CRC_def demo_env_def CRC_ALGORITHM_def MAX_PACKET_LEN_def
        PACKET_HEADER_LEN_def)
  then show ?thesis
    using noise_ignored [of demo_env demo_ctx "[(9, [0, 0, 0, 0, 7])]"
        "demo_socket\<lparr>os_socket := demo_os\<lparr>inbox := [Some (9, [0, 0, 0, 0, 7])]\<rparr>\<rparr>" demo_inner]
    by auto
qed

section \<open>Totality\<close>

lemma packet_repr_no_panic:
  assumes "total_repr m"
  shows "from_bytes (packet_repr m) bs \<noteq> Panic"
proof -
  have "total_repr (struct_repr impl_of ack_fields)"
    by (intro struct_repr_total) (simp add: ack_fields_def)
  then have "total_repr (struct_repr impl_of (packet_fields m))"
    using assms by (intro struct_repr_total) (simp add: packet_fields_def)
  then show ?thesis
    using total_repr.no_panic [of "struct_repr impl_of (packet_fields m)" bs]
    by (cases "from_bytes (struct_repr impl_of (packet_fields m)) bs")
       (simp_all add: packet_repr_def map_repr_def)
qed

lemma read_packet_returns:
  assumes "\<not> feature_debug env" "total_repr (RECV ctx)" "4 \<le> n" "n \<le> length (data_buffer s)"
  shows "\<exists>c' s'. read_packet env ctx n c s = Returns (c', s') \<and> same_config s s'
    \<and> inbox (os_socket s') = inbox (os_socket s)"
proof -
  let ?bs = "take (n - 4) (drop 4 (data_buffer s))"
  have "from_bytes (packet_repr (RECV ctx)) ?bs \<noteq> Panic"
    using assms(2) by (rule packet_repr_no_panic)
  then show ?thesis
    using assms same_config_env(1) [of s]
    by (cases "from_bytes (packet_repr (RECV ctx)) ?bs")
       (auto simp: read_packet_def read_checked_def slice_def case_prod_beta now_def same_config_def)
qed

lemma receive_loop_returns:
  assumes "\<not> feature_debug env" "total_repr (RECV ctx)" "length (data_buffer s) = MAX_PACKET_LEN"
    and "\<forall>a f. Some (a, f) \<in> set (inbox (os_socket s)) \<longrightarrow> 4 \<le> length f"
  shows "\<exists>c' s'. receive_loop env ctx c s = Returns (c', s') \<and> same_config s s'"
  using assms(3,4)
proof (induction "length (inbox (os_socket s))" arbitrary: c s rule: less_induct)
  case less
  show ?case
  proof (cases "inbox (os_socket s)")
    case Nil
    then show ?thesis by (subst receive_loop.simps) (simp add: recv_from_def)
  next
    case (Cons x rest)
    show ?thesis
    proof (cases x)
      case None
      then show ?thesis using Cons by (subst receive_loop.simps) (simp add: recv_from_def)
    next
      case (Some af)
      obtain a f where af: "af = (a, f)" by (cases af)
      let ?n = "min (length f) (length (data_buffer s))"
      let ?s = "s\<lparr>os_socket := (os_socket s)\<lparr>inbox := rest\<rparr>,
          data_buffer := take ?n f @ drop ?n (data_buffer s)\<rparr>"
      have recv: "recv_from s = (Some (?n, a), ?s)"
        using Cons Some af by (simp add: recv_from_def Let_def)
      have f: "4 \<le> length f" and rest: "\<forall>a f. Some (a, f) \<in> set rest \<longrightarrow> 4 \<le> length f"
        using less(3) Cons Some af by auto
      have "4 \<le> ?n" using f less(2) by (simp add: MAX_PACKET_LEN_def PACKET_HEADER_LEN_def)
      then obtain c1 s1 where r: "read_packet env ctx ?n c ?s = Returns (c1, s1)" "same_config ?s s1"
          "inbox (os_socket s1) = rest"
        using read_packet_returns [OF assms(1,2), of ?n ?s c] by auto
      have "length (data_buffer s1) = MAX_PACKET_LEN"
        using r(2) less(2) by (simp add: same_config_def)
      then obtain c' s' where "receive_loop env ctx c1 s1 = Returns (c', s')" "same_config s1 s'"
        using less(1) [of s1 c1] rest Cons r(3) by auto
      moreover have "same_config s s1" using r(2) by (simp add: same_config_def)
      moreover have "debug_delay env None n ?s = (False, ?s)" for n using assms(1) by (simp add: debug_delay_def)
      ultimately show ?thesis
        using recv r(1) same_config_trans [of s s1 s'] by (subst receive_loop.simps) simp
    qed
  qed
qed

text \<open>
  C19. In a build without the simulated faults, \<open>receive\<close> returns whatever datagrams of at
  least four bytes have arrived, if the message type never panics on bytes nobody wrote.
\<close>

theorem receive_total:
  assumes "\<not> feature_debug env" "total_repr (RECV ctx)" "length (data_buffer s) = MAX_PACKET_LEN"
    and "\<forall>a f. Some (a, f) \<in> set (inbox (os_socket s)) \<longrightarrow> 4 \<le> length f"
  shows "\<exists>c' s'. receive env ctx c s = Returns (c', s')"
  using receive_loop_returns [OF assms, of c] assms(1) by (auto simp: receive_def)

lemma test_message_total: "total_repr test_message"
  unfolding test_message_def by (rule enum_repr_total) simp_all

theorem receive_total_witness:
  "\<exists>c' s'. receive demo_env demo_ctx demo_inner
      (demo_socket\<lparr>os_socket := demo_os\<lparr>inbox := [Some (1, [1, 2, 3, 4, 5]), None]\<rparr>\<rparr>) = Returns (c', s')"
  by (rule receive_total) (auto simp: test_message_total)

text \<open>
  C25. Types built without strings and without \<open>Cow\<close>: reading never panics, whatever the
  bytes, and a value that is read is not longer than the slice. For structs of such fields
  the same holds.
\<close>

theorem reading_never_panics:
  assumes "list_all panic_free vs"
  shows "from_bytes (struct_repr impl_of vs) bs \<noteq> Panic
    \<and> (\<forall>x. from_bytes (struct_repr impl_of vs) bs = Ok x \<longrightarrow> byte_len (struct_repr impl_of vs) x \<le> length bs)"
proof -
  have "list_all (plain impl_of) vs" using assms by (auto simp: list_all_iff plain_impl_of)
  note t = struct_repr_total [OF this]
  show ?thesis using total_repr.no_panic [OF t] total_repr.read_within [OF t] by blast
qed

theorem reading_never_panics_witness:
  "from_bytes (struct_repr impl_of [VU16, VOption (VVec VU8 1000), VArray VBool 3]) [1, 2, 1, 200] \<noteq> Panic"
  using reading_never_panics [of "[VU16, VOption (VVec VU8 1000), VArray VBool 3]" "[1, 2, 1, 200]"] by simp

text \<open>
  A \<open>Cow\<close> after a delegated field breaks this: its fixed part is skipped when the slice is
  checked, and the delegated field then slices beyond the end.
\<close>

lemma cow_short_read_panics:
  assumes "length bs < fixed_bytes v"
  shows "from_bytes (struct_repr impl_of [VDelegated d, VCow v]) bs = Panic"
  using assms
  by (simp add: struct_repr_def group_read_def group_fixed_bytes_def read_fixed_part_def read_via_def Let_def)

section \<open>Delivery\<close>

text \<open>A socket that holds the datagrams of a run of arrivals.\<close>

definition datagrams :: "crate_env \<Rightarrow> udp_context \<Rightarrow> socket_addr \<Rightarrow> peer \<Rightarrow> arrival list \<Rightarrow> (socket_addr \<times> u8 list) option list"
where
  "datagrams env ctx addr s as =
     map (\<lambda>a. Some (addr, frame (SEND ctx) (CRC env ctx) (arrival_packet s a))) as"

lemma receive_datagrams:
  assumes "lawful_repr (SEND ctx)" "\<forall>a \<in> set as. packet_ok (SEND ctx) (arrival_packet s a)"
    and "no_faults env sock" "length (data_buffer sock) = MAX_PACKET_LEN"
    and "inbox (os_socket sock) = datagrams env ctx addr s as"
  shows "\<exists>t sock'. receive env (REVERSE ctx) c sock = Returns ((process_all s as c)\<lparr>last_seen := t\<rparr>, sock')"
proof -
  let ?aps = "map (\<lambda>a. (addr, arrival_packet s a)) as"
  have "fold (\<lambda>(a, p). process_packet p) ?aps c = process_all s as c"
    by (simp add: process_all_def fold_map comp_def)
  then show ?thesis
    using receive_frames [OF assms(1) _ assms(3,4), of ?aps c] assms(2,5)
    by (auto simp: datagrams_def list_all_iff comp_def)
qed

text \<open>
  C10. A fresh connection that receives any run of datagrams the sender's window and the
  network allow, with losses, repetitions and reordering: the unordered messages come out
  once each, packet by packet at the first arrival.
\<close>

theorem unordered_exactly_once:
  assumes "lawful_repr (SEND ctx)" "\<forall>a \<in> set as. packet_ok (SEND ctx) (arrival_packet p a)"
    and "no_faults env s" "length (data_buffer s) = MAX_PACKET_LEN"
    and "inbox (os_socket s) = datagrams env ctx addr p as" "peer_ok p" "run_ok {} {} as"
  shows "\<exists>c' s'. receive env (REVERSE ctx) (fst (inner_default s0)) s = Returns (c', s')
    \<and> unordered_recv_queue c' = unordered_output p {} as"
proof -
  let ?c = "fst (inner_default s0)"
  have "unordered_recv_queue (process_all p as ?c) = unordered_recv_queue ?c @ unordered_output p {} as"
    using assms(6,7) fresh_states by (intro process_all_unordered)
  moreover have "unordered_recv_queue ?c = []" by (simp add: inner_default_def now_def)
  ultimately show ?thesis using receive_datagrams [OF assms(1-5), of ?c] by auto
qed

text \<open>
  C9. Under the same conditions the ordered messages come out in the order in which they were
  sent, once each and without a gap: all of those before the first packet that is missing.
\<close>

theorem ordered_in_order:
  assumes "lawful_repr (SEND ctx)" "\<forall>a \<in> set as. packet_ok (SEND ctx) (arrival_packet p a)"
    and "no_faults env s" "length (data_buffer s) = MAX_PACKET_LEN"
    and "inbox (os_socket s) = datagrams env ctx addr p as" "peer_ok p" "run_ok {} {} as"
  shows "\<exists>c' s'. receive env (REVERSE ctx) (fst (inner_default s0)) s = Returns (c', s')
    \<and> ordered_recv_queue c' =
        concat (map (messages \<circ> ordered_sent p) [0..<first_missing (ordered_ids as)])"
proof -
  let ?c = "fst (inner_default s0)"
  have "first_missing {} = 0" by (rule first_missing_eqI) simp_all
  then have "ordered_recv_queue (process_all p as ?c) = ordered_recv_queue ?c
      @ concat (map (messages \<circ> ordered_sent p) [0..<first_missing (ordered_ids as)])"
    using process_all_ordered [OF assms(6,7) fresh_states] by simp
  moreover have "ordered_recv_queue ?c = []" by (simp add: inner_default_def now_def)
  ultimately show ?thesis using receive_datagrams [OF assms(1-5), of ?c] by auto
qed

text \<open>A peer that numbers its messages, and a run that reorders, repeats and mixes.\<close>

definition demo_peer :: peer where
  "demo_peer = \<lparr>unordered_sent = demo_packet True False, ordered_sent =
     (\<lambda>n. (demo_packet True True n)\<lparr>messages := [REnum 1 [RBits (n mod 65536)]]\<rparr>)\<rparr>"

definition demo_run :: "arrival list" where
  "demo_run = [Ordered 1, Unordered 2, Ordered 0, Ordered 1, Unordered 2, Unreliable (demo_packet False False 0)]"

lemma demo_peer_ok: "peer_ok demo_peer"
  by (simp add: peer_ok_def is_reliable_def demo_peer_def)

lemma demo_run_ok: "run_ok {} {} demo_run"
  by (simp add: demo_run_def may_arrive_def newest_of_def)

lemma demo_run_packets: "\<forall>a \<in> set demo_run. packet_ok test_message (arrival_packet demo_peer a)"
proof -
  have "self_type test_message (REnum (Suc 0) [RBits n])" if "n < 65536" for n
    using that by (simp add: test_message_def enum_repr_def Let_def bits_type_def)
  then show ?thesis
    using demo_packet_simps(5)
    by (auto simp: demo_run_def demo_peer_def packet_ok_iff queue_ok_def MAX_PACKET_DATA_LEN_def)
qed

definition demo_inbox :: udp_socket where
  "demo_inbox = demo_socket\<lparr>os_socket := demo_os\<lparr>inbox := datagrams demo_env demo_ctx 7 demo_peer demo_run\<rparr>\<rparr>"

lemma demo_inbox_simps:
  "no_faults demo_env demo_inbox" "length (data_buffer demo_inbox) = MAX_PACKET_LEN"
  "inbox (os_socket demo_inbox) = datagrams demo_env demo_ctx 7 demo_peer demo_run"
  by (simp_all add: demo_inbox_def no_faults_production)

theorem unordered_exactly_once_witness:
  "\<exists>c' s'. receive demo_env (REVERSE demo_ctx) demo_inner demo_inbox = Returns (c', s')
    \<and> unordered_recv_queue c' = [REnum 0 [], REnum 0 []]"
  using unordered_exactly_once [of demo_ctx demo_run demo_peer demo_env demo_inbox 7 demo_socket]
    test_message_lawful demo_run_packets demo_inbox_simps demo_peer_ok demo_run_ok
  by (simp add: demo_run_def demo_inner_def [symmetric]) (simp add: demo_peer_def)

theorem ordered_in_order_witness:
  "\<exists>c' s'. receive demo_env (REVERSE demo_ctx) demo_inner demo_inbox = Returns (c', s')
    \<and> ordered_recv_queue c' = [REnum 1 [RBits 0], REnum 1 [RBits 1]]"
proof -
  have "first_missing {1, 0, Suc 0} = 2" by (rule first_missing_eqI) auto
  then have m: "first_missing (ordered_ids demo_run) = 2" by (simp add: demo_run_def insert_commute)
  have "\<exists>c' s'. receive demo_env (REVERSE demo_ctx) demo_inner demo_inbox = Returns (c', s')
      \<and> ordered_recv_queue c' =
        concat (map (messages \<circ> ordered_sent demo_peer) [0..<first_missing (ordered_ids demo_run)])"
    using ordered_in_order [of demo_ctx demo_run demo_peer demo_env demo_inbox 7 demo_socket]
      test_message_lawful demo_run_packets demo_inbox_simps demo_peer_ok demo_run_ok
    by (simp add: demo_inner_def [symmetric])
  moreover have "[0..<2] = [0, 1 :: nat]" by (simp add: upt_rec)
  ultimately show ?thesis by (simp add: m demo_peer_def)
qed

section \<open>Whatever arrives\<close>

text \<open>
  C18. Whatever arrives, in any build and whoever sent it: when \<open>receive\<close> returns, the invariant
  of the sending half holds, the next ordered packet is not left waiting in the cache, the caches
  of sent packets have lost packets at most and changed none, the send queues are as they were,
  and the receive queues hold what they held and perhaps more behind it. In a build without the
  simulated faults the connection is what the packets of the intact datagrams make of it, treated
  one after the other; every other datagram has no effect at all.
\<close>

theorem receive_keeps_ok:
  assumes "inner_ok d c" "head_free c" "receive env ctx c s = Returns (c', s')"
  shows "inner_ok d c' \<and> head_free c' \<and> extends c c'
    \<and> (\<not> feature_debug env \<and> length (data_buffer s) = MAX_PACKET_LEN \<longrightarrow>
        (\<exists>t. c' = (fold process_packet (accepted env ctx (inbox (os_socket s))) c)\<lparr>last_seen := t\<rparr>))"
proof -
  have "settled d c c" using assms(1,2) by (simp add: settled_def)
  then have "settled d c c'" using settled_kept.receive_keeps [OF assms(3)] by blast
  then show ?thesis using receive_accepted [OF _ _ assms(3)] by (simp add: settled_def)
qed

lemma demo_inner_head_free: "head_free demo_inner"
  by (simp add: head_free_def)

lemma demo_received:
  "\<exists>t s'. receive demo_env (REVERSE demo_ctx) demo_inner demo_inbox =
     Returns ((process_all demo_peer demo_run demo_inner)\<lparr>last_seen := t\<rparr>, s')"
  using receive_datagrams [of demo_ctx demo_run demo_peer demo_env demo_inbox 7 demo_inner]
    test_message_lawful demo_run_packets demo_inbox_simps by simp

theorem receive_keeps_ok_witness:
  "length (inbox (os_socket demo_inbox)) = 6
    \<and> (\<exists>c' s' t. receive demo_env (REVERSE demo_ctx) demo_inner demo_inbox = Returns (c', s') \<and> head_free c'
        \<and> c' = (fold process_packet (accepted demo_env (REVERSE demo_ctx) (inbox (os_socket demo_inbox))) demo_inner)
             \<lparr>last_seen := t\<rparr>)"
proof -
  obtain c' s' where r: "receive demo_env (REVERSE demo_ctx) demo_inner demo_inbox = Returns (c', s')"
    using demo_received by blast
  show ?thesis
    using receive_keeps_ok [OF demo_inner_ok [of test_message] demo_inner_head_free r] r demo_inbox_simps(2)
    by (auto simp: demo_inbox_simps(3) datagrams_def demo_run_def)
qed

text \<open>
  C8. Type safety of the wire: with an enum of derived fields as the message type (its fields
  numbers, flags, strings, options, vectors, arrays, Cows and types that are typed themselves, nested
  in any way), whatever bytes arrive, everything \<open>receive\<close> makes readable or keeps for later is a
  value of that enum: one of its variants, with fields of the declared types.
\<close>

theorem received_typed:
  assumes "RECV ctx = enum_repr impl_of variants" "list_all (list_all delegates_typed) variants"
    and "recv_rings_ok c" "typed_conn (RECV ctx) c" "buffers_ok s" "receive env ctx c s = Returns (c', s')"
  shows "typed_conn (RECV ctx) c' \<and> recv_rings_ok c' \<and> buffers_ok s'
    \<and> (\<forall>m \<in> set (unordered_recv_queue c') \<union> set (ordered_recv_queue c').
         \<exists>i xs. m = REnum i xs \<and> i < length variants \<and> list_all2 (has_type impl_of) (variants ! i) xs)"
proof -
  have "list_all (list_all (typed_field impl_of)) variants"
    using assms(2) typed_field_impl_of by (auto simp: list_all_iff)
  then have t: "typed_repr (RECV ctx)" unfolding assms(1) by (rule enum_repr_typed)
  have "recv_rings_ok c' \<and> typed_conn (RECV ctx) c' \<and> buffers_ok s'"
    using reading_invariant.receive_keeps [OF typed_kept [OF t] assms(6)] assms(3-5) by blast
  moreover have "\<exists>i xs. m = REnum i xs \<and> i < length variants \<and> list_all2 (has_type impl_of) (variants ! i) xs"
    if "self_type (RECV ctx) m" for m
    using that by (cases m) (simp_all add: assms(1) enum_repr_def Let_def)
  ultimately show ?thesis by (auto simp: typed_conn_def list_all_iff)
qed

theorem received_typed_witness:
  "\<exists>c' s'. receive demo_env (REVERSE demo_ctx) demo_inner demo_inbox = Returns (c', s')
    \<and> typed_conn (enum_repr impl_of [[], [VU16]]) c'"
proof -
  obtain c' s' where r: "receive demo_env (REVERSE demo_ctx) demo_inner demo_inbox = Returns (c', s')"
    using demo_received by blast
  have "buffers_ok demo_inbox"
    by (simp add: buffers_ok_def demo_inbox_def demo_socket_def)
  moreover have "recv_rings_ok demo_inner" "typed_conn d demo_inner" for d
    using demo_inner_ok [of d] by (simp_all add: inner_ok_def typed_conn_def)
  moreover have d: "RECV (REVERSE demo_ctx) = enum_repr impl_of [[], [VU16]]" by (simp add: test_message_def)
  ultimately show ?thesis
    using received_typed [OF d _ _ _ _ r] r by (simp add: d)
qed

section \<open>Datagrams that end the program\<close>

text \<open>
  C37. A datagram of less than four bytes makes \<open>receive\<close> panic, in every build, unless a
  simulated delay puts it aside first: the slice after the checksum ends before it starts.
\<close>

theorem short_datagram_panics:
  assumes "inbox (os_socket s) = Some (a, f) # rest" "length f < 4"
    and "snd (fake_delay s) \<le> fst (fake_delay s)" "length (data_buffer s) = MAX_PACKET_LEN"
  shows "receive env ctx c s = Panics"
proof -
  let ?s = "s\<lparr>os_socket := (os_socket s)\<lparr>inbox := rest\<rparr>,
      data_buffer := f @ drop (length f) (data_buffer s)\<rparr>"
  have "4 \<le> MAX_PACKET_LEN" by (simp add: MAX_PACKET_LEN_def PACKET_HEADER_LEN_def)
  then have "recv_from s = (Some (length f, a), ?s)"
    using assms by (intro recv_from_Cons) linarith+
  moreover have "debug_delay env None n ?s = (False, ?s)" for n
    using assms(3) by (simp add: debug_delay_def delay_packet_def)
  moreover have "read_packet env ctx (length f) c ?s = Panics"
    using assms(2) \<open>4 \<le> MAX_PACKET_LEN\<close> assms(4)
    by (simp add: read_packet_def debug_preparse_def read_checked_def slice_def)
  ultimately have "receive_loop env ctx c s = Panics" by (subst receive_loop.simps) simp
  then show ?thesis by (simp add: receive_def)
qed

theorem short_datagram_panics_witness:
  "receive demo_env demo_ctx demo_inner
    (demo_socket\<lparr>os_socket := demo_os\<lparr>inbox := [Some (1, [0, 0, 0])]\<rparr>\<rparr>) = Panics"
  by (rule short_datagram_panics [where f = "[0, 0, 0]"]) (simp_all add: demo_socket_def)

text \<open>
  In a build with the feature \<open>debug\<close>, any datagram whose bytes are no packet makes
  \<open>receive\<close> panic before the checksum is compared.
\<close>

lemma debug_build_panics:
  assumes "feature_debug env" "inbox (os_socket s) = Some (a, f) # rest" "4 \<le> length f"
    and "length f \<le> length (data_buffer s)" "snd (fake_delay s) \<le> fst (fake_delay s)"
    and "\<forall>p. from_bytes (packet_repr (RECV ctx)) (drop 4 f) \<noteq> Ok p"
  shows "receive env ctx c s = Panics"
proof -
  let ?s = "s\<lparr>os_socket := (os_socket s)\<lparr>inbox := rest\<rparr>,
      data_buffer := f @ drop (length f) (data_buffer s)\<rparr>"
  have "recv_from s = (Some (length f, a), ?s)" using assms(2,4) by (rule recv_from_Cons)
  moreover have "debug_delay env None n ?s = (False, ?s)" for n
    using assms(5) by (simp add: debug_delay_def delay_packet_def)
  moreover have "read_packet env ctx (length f) c ?s = Panics"
    using assms(1,3,6)
    by (cases "from_bytes (packet_repr (RECV ctx)) (drop 4 f)")
       (simp_all add: read_packet_def debug_preparse_def slice_def)
  ultimately have "receive_loop env ctx c s = Panics" by (subst receive_loop.simps) simp
  then show ?thesis by (simp add: receive_def)
qed

lemma debug_build_panics_demo:
  "receive (demo_env\<lparr>feature_debug := True\<rparr>) demo_ctx demo_inner
    (demo_socket\<lparr>os_socket := demo_os\<lparr>inbox := [Some (1, [0, 0, 0, 0, 7])]\<rparr>\<rparr>) = Panics"
proof -
  have "from_bytes (packet_repr test_message) [7] \<noteq> Ok p" for p
    by (simp add: packet_repr_def map_repr_def struct_repr_def group_read_def packet_fields_def
        read_fixed_part_def read_via_def load_def group_fixed_bytes_def ack_fields_def Let_def)
  then show ?thesis
    by (intro debug_build_panics [where f = "[0, 0, 0, 0, 7]"])
       (simp_all add: demo_socket_def MAX_PACKET_LEN_def PACKET_HEADER_LEN_def demo_ctx_def)
qed

section \<open>Where the window ends\<close>

lemma wrapping_gt_plain:
  assumes "64 \<le> unat x" "unat x < 65472"
  shows "wrapping_gt x y 64 \<longleftrightarrow> unat y < unat x"
proof -
  have "unat (u16_MAX - x) = 65535 - unat x" using unat_u16_lt [of x] by (simp add: seq_arith)
  then show ?thesis
    using assms unat_u16_lt [of y]
    by (auto simp: wrapping_gt_def word_less_nat_alt word_le_nat_alt seq_arith)
qed

text \<open>
  C38. A fresh connection takes no reliable packet numbered 33 to 65503: it is treated as too
  old. A peer whose connection is older than this one, so that it is past its first packets,
  is never understood.
\<close>

theorem fresh_rejects:
  assumes "reliable p" "33 \<le> unat (sequence_id (ack p))" "unat (sequence_id (ack p)) < 65504"
  shows "process_packet p (fst (inner_default s)) =
    (fst (inner_default s))\<lparr>received_packet_duplicate := True\<rparr>"
proof -
  let ?i = "sequence_id (ack p)"
  have "wrapping_gt 65504 ?i 64"
    using assms(2,3) by (auto simp: wrapping_gt_def word_less_nat_alt word_le_nat_alt seq_arith)
  then show ?thesis
    using assms(1) by (simp add: process_packet_def inner_default_def now_def rb_newest_index_def Let_def)
qed

theorem fresh_rejects_witness:
  "process_packet (demo_packet True True 33) (fst (inner_default demo_socket)) =
    (fst (inner_default demo_socket))\<lparr>received_packet_duplicate := True\<rparr>"
  by (rule fresh_rejects) simp_all

text \<open>
  C39. Too old means a smaller number, not an older packet, except near the wrap-around: a
  reliable unordered packet of the previous 65536 whose number is greater than the newest by 32 or
  more is taken for a new one, and taking it empties the cache of received unordered packets.
\<close>

theorem stale_packet_accepted:
  assumes "rb_wf r" "num_items r = 32" "reliable_received_packets c = r"
    and "95 \<le> unat (newest r)" "unat (newest r) < 65472"
    and "reliable p" "\<not> ordered p" "unat (newest r) + 32 \<le> unat (sequence_id (ack p))"
  shows "unordered_recv_queue (process_packet p c) = unordered_recv_queue c @ messages p
    \<and> (\<forall>j. rb_get (reliable_received_packets (process_packet p c)) j =
          (if j = sequence_id (ack p) then Some () else None))"
proof -
  let ?i = "sequence_id (ack p)"
  have n: "unat (newest r - 31) = unat (newest r) - 31"
    using assms(4) by (subst unat_sub) (simp_all add: word_le_nat_alt)
  have gt: "\<not> wrapping_gt (newest r - 31) ?i 64"
    using wrapping_gt_plain [of "newest r - 31" ?i] n assms(4,5,8) by simp
  have i: "ahead ?i (newest r) = unat ?i - unat (newest r)"
    using assms(8) by (simp add: ahead_def) (subst unat_sub, simp_all add: word_le_nat_alt)
  have far: "\<not> ahead (newest r) ?i < 32" "\<not> ahead ?i (newest r) < 32"
    using i assms(4,8) unat_u16_lt [of ?i] ahead_flip [of ?i "newest r"] by fastforce+
  then have "rb_get r ?i = None" using rb_get_not_live [of r ?i] assms(2) by simp
  then have "process_packet p c = (acknowledge (ack p) c)
      \<lparr>reliable_received_packets := rb_insert r ?i (), unordered_recv_queue := unordered_recv_queue c @ messages p\<rparr>"
    using gt assms(3,6,7) by (simp add: process_packet_def rb_newest_index_def Let_def)
  then show ?thesis using far assms(2) by (simp add: rb_get_insert [OF assms(1)])
qed

theorem stale_packet_accepted_witness:
  "\<exists>c. rb_get (reliable_received_packets c) 200 = Some () \<and>
    rb_get (reliable_received_packets (process_packet (demo_packet True False 65400) c)) 200 = None"
proof -
  let ?r = "rb_insert rb_default 200 () :: unit ring"
  have new: "newest ?r = 200" by (simp add: newest_insert ahead_def)
  have "rb_get (reliable_received_packets (process_packet (demo_packet True False 65400)
      (demo_inner\<lparr>reliable_received_packets := ?r\<rparr>))) 200 = None"
    using stale_packet_accepted [of ?r "demo_inner\<lparr>reliable_received_packets := ?r\<rparr>"
        "demo_packet True False 65400"] new by simp
  then show ?thesis
    by (intro exI [of _ "demo_inner\<lparr>reliable_received_packets := ?r\<rparr>"]) (simp add: rb_get_insert)
qed

section \<open>Simulated delay\<close>

text \<open>
  A datagram put aside by the simulated delay is handed over exactly once, with its bytes,
  and at a clock reading that is not before its instant.
\<close>

lemma delayed_once:
  assumes "read_delayed s = (Some (n, addr), s')"
  shows "\<exists>t m. mset (fake_delayed_buffer s) =
      add_mset (addr, data_buffer s', n, t) (mset (fake_delayed_buffer s'))
    \<and> t \<le> clock (os_socket s) m"
  using assms by (rule read_delayed_Some)

end
