(* ===== verification/Communicator.thy ===== *)
theory Communicator
  imports Intake Scenario
begin

text \<open>
  \<open>communicator/mod.rs\<close>: \<open>UdpCommunicator\<close>, which owns a socket and one connection, and
  \<open>UdpCommunicatorMut\<close>, the handle of a connection of a \<open>MultiUdpCommunicator\<close>. Both
  implement the trait \<open>Communicator\<close>; the locale \<open>communicator_trait\<close> is that trait with the laws
  its documentation promises, and the two implementations interpret it.
\<close>

section \<open>UdpCommunicator\<close>

record communicator =
  com_socket :: udp_socket
  com_inner :: inner

text \<open>\<open>bind\<close>; \<open>None\<close> is the panic of the socket's \<open>bind\<close>. \<open>default\<close> binds to any port.\<close>

definition com_bind :: "os option \<Rightarrow> communicator option" where
  "com_bind bound =
     (case socket_bind bound of
        None \<Rightarrow> None
      | Some s \<Rightarrow> (case inner_default s of (c, s') \<Rightarrow> Some \<lparr>com_socket = s', com_inner = c\<rparr>))"

definition com_default :: "os option \<Rightarrow> communicator option" where
  "com_default bound =
     (case socket_bind bound of
        None \<Rightarrow> None
      | Some s \<Rightarrow> (case inner_default s of (c, s') \<Rightarrow> Some \<lparr>com_socket = s', com_inner = c\<rparr>))"

definition com_with_reliable_unordered_resend_interval :: "nat \<Rightarrow> communicator \<Rightarrow> communicator" where
  "com_with_reliable_unordered_resend_interval d com =
     com\<lparr>com_socket := with_reliable_unordered_resend_interval d (com_socket com)\<rparr>"

definition com_with_reliable_ordered_resend_interval :: "nat \<Rightarrow> communicator \<Rightarrow> communicator" where
  "com_with_reliable_ordered_resend_interval d com =
     com\<lparr>com_socket := with_reliable_ordered_resend_interval d (com_socket com)\<rparr>"

definition com_with_max_reliable_unordered_retries :: "nat \<Rightarrow> communicator \<Rightarrow> communicator" where
  "com_with_max_reliable_unordered_retries n com =
     com\<lparr>com_socket := with_max_reliable_unordered_retries n (com_socket com)\<rparr>"

definition com_with_max_reliable_ordered_retries :: "nat \<Rightarrow> communicator \<Rightarrow> communicator" where
  "com_with_max_reliable_ordered_retries n com =
     com\<lparr>com_socket := with_max_reliable_ordered_retries n (com_socket com)\<rparr>"

text \<open>The extension of a \<open>debug\<close> build (\<open>communicator/debug.rs\<close>).\<close>

definition com_with_fake_drop :: "f64 \<Rightarrow> communicator \<Rightarrow> communicator" where
  "com_with_fake_drop p com = com\<lparr>com_socket := with_fake_drop p (com_socket com)\<rparr>"

definition com_with_fake_corruption :: "f64 \<Rightarrow> communicator \<Rightarrow> communicator" where
  "com_with_fake_corruption p com = com\<lparr>com_socket := with_fake_corruption p (com_socket com)\<rparr>"

definition com_with_fake_delay :: "nat \<times> nat \<Rightarrow> communicator \<Rightarrow> communicator" where
  "com_with_fake_delay r com = com\<lparr>com_socket := with_fake_delay r (com_socket com)\<rparr>"

definition com_with_debug_logs :: "communicator \<Rightarrow> communicator" where
  "com_with_debug_logs com = com\<lparr>com_socket := with_debug_logs (com_socket com)\<rparr>"

text \<open>
  \<open>connect\<close>: whether the system accepts the address decides the result; sending and
  receiving through a connected socket is part of the environment.
\<close>

definition com_connect :: "bool \<Rightarrow> communicator \<Rightarrow> communicator option" where
  "com_connect accepted com = (if accepted then Some com else None)"

definition com_write :: "rval \<Rightarrow> communicator \<Rightarrow> communicator" where
  "com_write m com = com\<lparr>com_inner := (com_inner com)
     \<lparr>unreliable_send_queue := unreliable_send_queue (com_inner com) @ [m]\<rparr>\<rparr>"

definition com_write_reliable :: "rval \<Rightarrow> communicator \<Rightarrow> communicator" where
  "com_write_reliable m com = com\<lparr>com_inner := (com_inner com)
     \<lparr>reliable_send_queue := reliable_send_queue (com_inner com) @ [m]\<rparr>\<rparr>"

definition com_write_ordered :: "rval \<Rightarrow> communicator \<Rightarrow> communicator" where
  "com_write_ordered m com = com\<lparr>com_inner := (com_inner com)
     \<lparr>reliable_ordered_send_queue := reliable_ordered_send_queue (com_inner com) @ [m]\<rparr>\<rparr>"

definition com_write_heartbeat :: "communicator \<Rightarrow> communicator" where
  "com_write_heartbeat com = com\<lparr>com_inner := inner_write_heartbeat (com_inner com)\<rparr>"

text \<open>\<open>pop_front\<close> of a queue.\<close>

fun pop_front :: "'m list \<Rightarrow> 'm option \<times> 'm list" where
  "pop_front [] = (None, [])"
| "pop_front (m # ms) = (Some m, ms)"

definition com_read :: "communicator \<Rightarrow> rval option \<times> communicator" where
  "com_read com = (case pop_front (unordered_recv_queue (com_inner com)) of (m, q) \<Rightarrow>
     (m, com\<lparr>com_inner := (com_inner com)\<lparr>unordered_recv_queue := q\<rparr>\<rparr>))"

definition com_read_ordered :: "communicator \<Rightarrow> rval option \<times> communicator" where
  "com_read_ordered com = (case pop_front (ordered_recv_queue (com_inner com)) of (m, q) \<Rightarrow>
     (m, com\<lparr>com_inner := (com_inner com)\<lparr>ordered_recv_queue := q\<rparr>\<rparr>))"

definition com_has_work :: "communicator \<Rightarrow> bool" where
  "com_has_work com = has_work (com_inner com)"

definition com_last_seen :: "communicator \<Rightarrow> instant" where
  "com_last_seen com = last_seen (com_inner com)"

definition com_last_send :: "communicator \<Rightarrow> instant" where
  "com_last_send com = last_send (com_inner com)"

text \<open>\<open>recv\<close>, \<open>send\<close> to the connected address, and \<open>tick\<close>, which drops no error.\<close>

definition com_recv :: "crate_env \<Rightarrow> udp_context \<Rightarrow> communicator \<Rightarrow> communicator outcome" where
  "com_recv env ctx com =
     outcome_bind (receive env ctx (com_inner com) (com_socket com))
       (\<lambda>(c, s). Returns \<lparr>com_socket = s, com_inner = c\<rparr>)"

definition com_send ::
  "crate_env \<Rightarrow> udp_context \<Rightarrow> communicator \<Rightarrow> (byte_repr_error option \<times> communicator) outcome" where
  "com_send env ctx com =
     outcome_bind (inner_send env ctx None (com_inner com) (com_socket com))
       (\<lambda>(e, c, s). Returns (e, \<lparr>com_socket = s, com_inner = c\<rparr>))"

definition com_tick ::
  "crate_env \<Rightarrow> udp_context \<Rightarrow> communicator \<Rightarrow> (byte_repr_error option \<times> communicator) outcome" where
  "com_tick env ctx com = outcome_bind (com_recv env ctx com) (com_send env ctx)"

section \<open>UdpCommunicatorMut\<close>

text \<open>The address and the borrowed connection; the socket is borrowed for log output only.\<close>

record communicator_mut =
  mut_addr :: socket_addr
  mut_inner :: inner

definition mut_write :: "rval \<Rightarrow> communicator_mut \<Rightarrow> communicator_mut" where
  "mut_write m com = com\<lparr>mut_inner := (mut_inner com)
     \<lparr>unreliable_send_queue := unreliable_send_queue (mut_inner com) @ [m]\<rparr>\<rparr>"

definition mut_write_reliable :: "rval \<Rightarrow> communicator_mut \<Rightarrow> communicator_mut" where
  "mut_write_reliable m com = com\<lparr>mut_inner := (mut_inner com)
     \<lparr>reliable_send_queue := reliable_send_queue (mut_inner com) @ [m]\<rparr>\<rparr>"

definition mut_write_ordered :: "rval \<Rightarrow> communicator_mut \<Rightarrow> communicator_mut" where
  "mut_write_ordered m com = com\<lparr>mut_inner := (mut_inner com)
     \<lparr>reliable_ordered_send_queue := reliable_ordered_send_queue (mut_inner com) @ [m]\<rparr>\<rparr>"

definition mut_write_heartbeat :: "communicator_mut \<Rightarrow> communicator_mut" where
  "mut_write_heartbeat com = com\<lparr>mut_inner := inner_write_heartbeat (mut_inner com)\<rparr>"

definition mut_read :: "communicator_mut \<Rightarrow> rval option \<times> communicator_mut" where
  "mut_read com = (case pop_front (unordered_recv_queue (mut_inner com)) of (m, q) \<Rightarrow>
     (m, com\<lparr>mut_inner := (mut_inner com)\<lparr>unordered_recv_queue := q\<rparr>\<rparr>))"

definition mut_read_ordered :: "communicator_mut \<Rightarrow> rval option \<times> communicator_mut" where
  "mut_read_ordered com = (case pop_front (ordered_recv_queue (mut_inner com)) of (m, q) \<Rightarrow>
     (m, com\<lparr>mut_inner := (mut_inner com)\<lparr>ordered_recv_queue := q\<rparr>\<rparr>))"

definition mut_has_work :: "communicator_mut \<Rightarrow> bool" where
  "mut_has_work com = has_work (mut_inner com)"

definition mut_last_seen :: "communicator_mut \<Rightarrow> instant" where
  "mut_last_seen com = last_seen (mut_inner com)"

definition mut_last_send :: "communicator_mut \<Rightarrow> instant" where
  "mut_last_send com = last_send (mut_inner com)"

section \<open>The trait\<close>

text \<open>An application that reads at most \<open>n\<close> messages: \<open>while let Some(m) = com.read()\<close>.\<close>

primrec read_times :: "('s \<Rightarrow> 'm option \<times> 's) \<Rightarrow> nat \<Rightarrow> 's \<Rightarrow> 'm list \<times> 's" where
  "read_times rd 0 s = ([], s)"
| "read_times rd (Suc n) s =
     (case rd s of
        (None, s') \<Rightarrow> ([], s')
      | (Some m, s') \<Rightarrow> (case read_times rd n s' of (ms, s'') \<Rightarrow> (m # ms, s'')))"

locale communicator_trait =
  fixes inner_of :: "'s \<Rightarrow> inner"
    and wr :: "rval \<Rightarrow> 's \<Rightarrow> 's" and wr_reliable :: "rval \<Rightarrow> 's \<Rightarrow> 's" and wr_ordered :: "rval \<Rightarrow> 's \<Rightarrow> 's"
    and rd :: "'s \<Rightarrow> rval option \<times> 's" and rd_ordered :: "'s \<Rightarrow> rval option \<times> 's"
    and works :: "'s \<Rightarrow> bool"
  assumes write_law: "inner_of (wr m s) =
      (inner_of s)\<lparr>unreliable_send_queue := unreliable_send_queue (inner_of s) @ [m]\<rparr>"
    and write_reliable_law: "inner_of (wr_reliable m s) =
      (inner_of s)\<lparr>reliable_send_queue := reliable_send_queue (inner_of s) @ [m]\<rparr>"
    and write_ordered_law: "inner_of (wr_ordered m s) =
      (inner_of s)\<lparr>reliable_ordered_send_queue := reliable_ordered_send_queue (inner_of s) @ [m]\<rparr>"
    and read_law: "rd s = (r, s') \<Longrightarrow> (r, unordered_recv_queue (inner_of s')) =
        pop_front (unordered_recv_queue (inner_of s))
      \<and> inner_of s' = (inner_of s)\<lparr>unordered_recv_queue := unordered_recv_queue (inner_of s')\<rparr>"
    and read_ordered_law: "rd_ordered s = (r, s') \<Longrightarrow> (r, ordered_recv_queue (inner_of s')) =
        pop_front (ordered_recv_queue (inner_of s))
      \<and> inner_of s' = (inner_of s)\<lparr>ordered_recv_queue := ordered_recv_queue (inner_of s')\<rparr>"
    and works_law: "works s \<longleftrightarrow> has_work (inner_of s)"
begin

text \<open>Messages are queued in the order of the writes.\<close>

lemma writes_queued:
  "inner_of (fold wr ms s) =
   (inner_of s)\<lparr>unreliable_send_queue := unreliable_send_queue (inner_of s) @ ms\<rparr>"
  "inner_of (fold wr_reliable ms s) =
   (inner_of s)\<lparr>reliable_send_queue := reliable_send_queue (inner_of s) @ ms\<rparr>"
  "inner_of (fold wr_ordered ms s) =
   (inner_of s)\<lparr>reliable_ordered_send_queue := reliable_ordered_send_queue (inner_of s) @ ms\<rparr>"
  by (induction ms arbitrary: s) (simp_all add: write_law write_reliable_law write_ordered_law)

text \<open>After a write there is work to do.\<close>

lemma works_after_write: "works (wr m s)" "works (wr_reliable m s)" "works (wr_ordered m s)"
  by (simp_all add: works_law has_work_def write_law write_reliable_law write_ordered_law)

text \<open>Reading returns the queue in order, and nothing else changes.\<close>

lemma read_times_unordered:
  "read_times rd n s = (ms, s') \<Longrightarrow> ms = take n (unordered_recv_queue (inner_of s))
    \<and> inner_of s' = (inner_of s)\<lparr>unordered_recv_queue := drop n (unordered_recv_queue (inner_of s))\<rparr>"
proof (induction n arbitrary: s ms s')
  case (Suc n)
  obtain r s1 where r: "rd s = (r, s1)" by (cases "rd s")
  note law = read_law [OF r]
  show ?case
  proof (cases "unordered_recv_queue (inner_of s)")
    case Nil
    then show ?thesis using law Suc.prems r by (auto split: option.splits)
  next
    case (Cons m q)
    then have s1: "r = Some m" "unordered_recv_queue (inner_of s1) = q"
        "inner_of s1 = (inner_of s)\<lparr>unordered_recv_queue := q\<rparr>"
      using law by auto
    obtain ms' where "read_times rd n s1 = (ms', s')" "ms = m # ms'"
      using Suc.prems r s1 by (auto split: prod.splits)
    then show ?thesis using Suc.IH [of s1 ms' s'] s1 Cons by simp
  qed
qed simp

lemma read_times_ordered:
  "read_times rd_ordered n s = (ms, s') \<Longrightarrow> ms = take n (ordered_recv_queue (inner_of s))
    \<and> inner_of s' = (inner_of s)\<lparr>ordered_recv_queue := drop n (ordered_recv_queue (inner_of s))\<rparr>"
proof (induction n arbitrary: s ms s')
  case (Suc n)
  obtain r s1 where r: "rd_ordered s = (r, s1)" by (cases "rd_ordered s")
  note law = read_ordered_law [OF r]
  show ?case
  proof (cases "ordered_recv_queue (inner_of s)")
    case Nil
    then show ?thesis using law Suc.prems r by (auto split: option.splits)
  next
    case (Cons m q)
    then have s1: "r = Some m" "ordered_recv_queue (inner_of s1) = q"
        "inner_of s1 = (inner_of s)\<lparr>ordered_recv_queue := q\<rparr>"
      using law by auto
    obtain ms' where "read_times rd_ordered n s1 = (ms', s')" "ms = m # ms'"
      using Suc.prems r s1 by (auto split: prod.splits)
    then show ?thesis using Suc.IH [of s1 ms' s'] s1 Cons by simp
  qed
qed simp

end

interpretation com: communicator_trait com_inner com_write com_write_reliable com_write_ordered
    com_read com_read_ordered com_has_work
  by unfold_locales
     (auto simp: com_write_def com_write_reliable_def com_write_ordered_def com_read_def
       com_read_ordered_def com_has_work_def split: prod.splits)

interpretation com_mut: communicator_trait mut_inner mut_write mut_write_reliable mut_write_ordered
    mut_read mut_read_ordered mut_has_work
  by unfold_locales
     (auto simp: mut_write_def mut_write_reliable_def mut_write_ordered_def mut_read_def
       mut_read_ordered_def mut_has_work_def split: prod.splits)

end
