(* ===== verification/Multi.thy ===== *)
theory Multi
  imports Communicator
begin

text \<open>
  \<open>communicator/multi.rs\<close>: \<open>MultiUdpCommunicator\<close>, one socket and a hash map of connections,
  its callbacks, and the locale of the trait \<open>OnReceiveCallback\<close> with the implementations
  the code provides. The order in which the hash map is iterated is not specified: every
  operation that iterates takes it as an argument, a list without repetition of the
  addresses that have a connection.
\<close>

section \<open>The state\<close>

record multi =
  multi_socket :: udp_socket
  coms :: "socket_addr \<Rightarrow> inner option"

definition enumerates :: "socket_addr list \<Rightarrow> multi \<Rightarrow> bool" where
  "enumerates order m \<longleftrightarrow> distinct order \<and> set order = dom (coms m)"

definition multi_bind :: "os option \<Rightarrow> multi option" where
  "multi_bind bound = map_option (\<lambda>s. \<lparr>multi_socket = s, coms = (\<lambda>_. None)\<rparr>) (socket_bind bound)"

definition multi_default :: "os option \<Rightarrow> multi option" where
  "multi_default bound = multi_bind bound"

definition multi_with_reliable_unordered_resend_interval :: "nat \<Rightarrow> multi \<Rightarrow> multi" where
  "multi_with_reliable_unordered_resend_interval d m =
     m\<lparr>multi_socket := with_reliable_unordered_resend_interval d (multi_socket m)\<rparr>"

definition multi_with_reliable_ordered_resend_interval :: "nat \<Rightarrow> multi \<Rightarrow> multi" where
  "multi_with_reliable_ordered_resend_interval d m =
     m\<lparr>multi_socket := with_reliable_ordered_resend_interval d (multi_socket m)\<rparr>"

definition multi_with_max_reliable_unordered_retries :: "nat \<Rightarrow> multi \<Rightarrow> multi" where
  "multi_with_max_reliable_unordered_retries n m =
     m\<lparr>multi_socket := with_max_reliable_unordered_retries n (multi_socket m)\<rparr>"

definition multi_with_max_reliable_ordered_retries :: "nat \<Rightarrow> multi \<Rightarrow> multi" where
  "multi_with_max_reliable_ordered_retries n m =
     m\<lparr>multi_socket := with_max_reliable_ordered_retries n (multi_socket m)\<rparr>"

definition multi_with_fake_drop :: "f64 \<Rightarrow> multi \<Rightarrow> multi" where
  "multi_with_fake_drop p m = m\<lparr>multi_socket := with_fake_drop p (multi_socket m)\<rparr>"

definition multi_with_fake_corruption :: "f64 \<Rightarrow> multi \<Rightarrow> multi" where
  "multi_with_fake_corruption p m = m\<lparr>multi_socket := with_fake_corruption p (multi_socket m)\<rparr>"

definition multi_with_fake_delay :: "nat \<times> nat \<Rightarrow> multi \<Rightarrow> multi" where
  "multi_with_fake_delay r m = m\<lparr>multi_socket := with_fake_delay r (multi_socket m)\<rparr>"

definition multi_with_debug_logs :: "multi \<Rightarrow> multi" where
  "multi_with_debug_logs m = m\<lparr>multi_socket := with_debug_logs (multi_socket m)\<rparr>"

section \<open>Connections\<close>

text \<open>\<open>coms.entry(addr).or_default()\<close>: a new connection reads the clock.\<close>

definition or_default :: "socket_addr \<Rightarrow> multi \<Rightarrow> inner \<times> multi" where
  "or_default addr m =
     (case coms m addr of
        Some c \<Rightarrow> (c, m)
      | None \<Rightarrow>
          (case inner_default (multi_socket m) of (c, s) \<Rightarrow>
             (c, m\<lparr>multi_socket := s, coms := (coms m)(addr \<mapsto> c)\<rparr>)))"

text \<open>
  \<open>connect\<close>: \<open>resolved\<close> is what \<open>to_socket_addrs\<close> returns, \<open>None\<close> an I/O error; an empty
  list is an error as well.
\<close>

definition multi_connect :: "socket_addr list option \<Rightarrow> multi \<Rightarrow> (communicator_mut \<times> multi) option" where
  "multi_connect resolved m =
     (case resolved of
        Some (addr # _) \<Rightarrow>
          (case or_default addr m of (c, m') \<Rightarrow> Some (\<lparr>mut_addr = addr, mut_inner = c\<rparr>, m'))
      | _ \<Rightarrow> None)"

text \<open>A handle writes back to the map when it is given up.\<close>

definition put_com :: "communicator_mut \<Rightarrow> multi \<Rightarrow> multi" where
  "put_com com m = m\<lparr>coms := (coms m)(mut_addr com \<mapsto> mut_inner com)\<rparr>"

definition multi_get_mut :: "socket_addr \<Rightarrow> multi \<Rightarrow> communicator_mut option" where
  "multi_get_mut addr m = map_option (\<lambda>c. \<lparr>mut_addr = addr, mut_inner = c\<rparr>) (coms m addr)"

definition multi_remove :: "socket_addr \<Rightarrow> multi \<Rightarrow> bool \<times> multi" where
  "multi_remove addr m = (coms m addr \<noteq> None, m\<lparr>coms := (coms m)(addr := None)\<rparr>)"

text \<open>\<open>IterMut::next\<close>: the handles in the order of the map.\<close>

fun iter_mut_next :: "socket_addr list \<Rightarrow> multi \<Rightarrow> communicator_mut option \<times> socket_addr list" where
  "iter_mut_next [] m = (None, [])"
| "iter_mut_next (addr # order) m = (multi_get_mut addr m, order)"

section \<open>Iterating operations\<close>

text \<open>\<open>for_each\<close>; the closure may keep a state of its own.\<close>

fun multi_for_each ::
  "('f \<Rightarrow> communicator_mut \<Rightarrow> 'f \<times> communicator_mut) \<Rightarrow> socket_addr list \<Rightarrow> 'f \<Rightarrow> multi \<Rightarrow> 'f \<times> multi"
where
  "multi_for_each f [] x m = (x, m)"
| "multi_for_each f (addr # order) x m =
     (case multi_get_mut addr m of
        None \<Rightarrow> multi_for_each f order x m
      | Some com \<Rightarrow> (case f x com of (x', com') \<Rightarrow>
          multi_for_each f order x' (put_com (com'\<lparr>mut_addr := addr\<rparr>) m)))"

definition push_reliable :: "rval \<Rightarrow> socket_addr \<Rightarrow> multi \<Rightarrow> multi" where
  "push_reliable message addr m =
     m\<lparr>coms := (coms m)(addr := map_option
        (\<lambda>c. c\<lparr>reliable_send_queue := reliable_send_queue c @ [message]\<rparr>) (coms m addr))\<rparr>"

definition multi_broadcast :: "socket_addr list \<Rightarrow> rval \<Rightarrow> multi \<Rightarrow> multi" where
  "multi_broadcast order message m = fold (push_reliable message) order m"

definition multi_broadcast_except :: "socket_addr list \<Rightarrow> rval \<Rightarrow> socket_addr \<Rightarrow> multi \<Rightarrow> multi" where
  "multi_broadcast_except order message exc m =
     fold (push_reliable message) (filter (\<lambda>addr. addr \<noteq> exc) order) m"

text \<open>\<open>retain\<close>; the closure may change the connections it is shown.\<close>

fun multi_retain ::
  "('f \<Rightarrow> communicator_mut \<Rightarrow> bool \<times> 'f \<times> communicator_mut) \<Rightarrow> socket_addr list \<Rightarrow> 'f \<Rightarrow> multi \<Rightarrow> 'f \<times> multi"
where
  "multi_retain f [] x m = (x, m)"
| "multi_retain f (addr # order) x m =
     (case multi_get_mut addr m of
        None \<Rightarrow> multi_retain f order x m
      | Some com \<Rightarrow> (case f x com of (keep, x', com') \<Rightarrow>
          multi_retain f order x'
            (if keep then put_com (com'\<lparr>mut_addr := addr\<rparr>) m else snd (multi_remove addr m))))"

text \<open>\<open>send\<close>: an error of one connection is logged and the loop goes on.\<close>

fun multi_send :: "crate_env \<Rightarrow> udp_context \<Rightarrow> socket_addr list \<Rightarrow> multi \<Rightarrow> multi outcome" where
  "multi_send env ctx [] m = Returns m"
| "multi_send env ctx (addr # order) m =
     (case coms m addr of
        None \<Rightarrow> multi_send env ctx order m
      | Some c \<Rightarrow>
          outcome_bind (inner_send env ctx (Some addr) c (multi_socket m)) (\<lambda>(e, c', s).
            multi_send env ctx order (m\<lparr>multi_socket := s, coms := (coms m)(addr \<mapsto> c')\<rparr>)))"

section \<open>Receiving\<close>

text \<open>
  \<open>trait OnReceiveCallback\<close>: \<open>'f\<close> is the state of the closure, \<open>'st\<close> the associated type
  \<open>State\<close>. \<open>finish\<close> may iterate over the connections, in the given order.
\<close>

record ('f, 'st) callback =
  prepare :: "'f \<Rightarrow> 'st"
  on_recv :: "'f \<Rightarrow> communicator_mut \<Rightarrow> 'st \<Rightarrow> 'f \<times> communicator_mut \<times> 'st"
  finish :: "socket_addr list \<Rightarrow> 'f \<Rightarrow> multi \<Rightarrow> 'st \<Rightarrow> 'f \<times> multi"

definition unit_callback :: "(unit, unit) callback" where
  "unit_callback = \<lparr>prepare = (\<lambda>_. ()), on_recv = (\<lambda>f com st. (f, com, st)), finish = (\<lambda>_ f m _. (f, m))\<rparr>"

definition closure_callback ::
  "('f \<Rightarrow> communicator_mut \<Rightarrow> 'f \<times> communicator_mut) \<Rightarrow> ('f, unit) callback" where
  "closure_callback g =
     \<lparr>prepare = (\<lambda>_. ()),
      on_recv = (\<lambda>f com st. case g f com of (f', com') \<Rightarrow> (f', com', ())),
      finish = (\<lambda>_ f m _. (f, m))\<rparr>"

text \<open>\<open>DelayedBroadcast::broadcast\<close> and \<open>DelayedBroadcastExcept::broadcast_except\<close>, on the lists they hold.\<close>

definition delayed_broadcast :: "rval \<Rightarrow> rval list \<Rightarrow> rval list" where
  "delayed_broadcast message st = st @ [message]"

definition delayed_broadcast_except ::
  "rval \<Rightarrow> socket_addr \<Rightarrow> (socket_addr \<times> rval) list \<Rightarrow> (socket_addr \<times> rval) list" where
  "delayed_broadcast_except message exc st = st @ [(exc, message)]"

definition broadcast_callback ::
  "('f \<Rightarrow> communicator_mut \<Rightarrow> rval list \<Rightarrow> 'f \<times> communicator_mut \<times> rval list) \<Rightarrow> ('f, rval list) callback" where
  "broadcast_callback g =
     \<lparr>prepare = (\<lambda>_. []), on_recv = g,
      finish = (\<lambda>order f m st. (f, fold (multi_broadcast order) st m))\<rparr>"

definition broadcast_except_callback ::
  "('f \<Rightarrow> communicator_mut \<Rightarrow> (socket_addr \<times> rval) list \<Rightarrow> 'f \<times> communicator_mut \<times> (socket_addr \<times> rval) list)
     \<Rightarrow> ('f, (socket_addr \<times> rval) list) callback" where
  "broadcast_except_callback g =
     \<lparr>prepare = (\<lambda>_. []), on_recv = g,
      finish = (\<lambda>order f m st. (f, fold (\<lambda>(exc, message). multi_broadcast_except order message exc) st m))\<rparr>"

text \<open>\<open>DelayedForEach\<close>: boxed closures, run one after the other over all connections.\<close>

type_synonym delayed_for_each_f = "communicator_mut \<Rightarrow> communicator_mut"

definition delayed_for_each :: "delayed_for_each_f \<Rightarrow> delayed_for_each_f list \<Rightarrow> delayed_for_each_f list" where
  "delayed_for_each g st = st @ [g]"

definition for_each_callback ::
  "('f \<Rightarrow> communicator_mut \<Rightarrow> delayed_for_each_f list \<Rightarrow> 'f \<times> communicator_mut \<times> delayed_for_each_f list)
     \<Rightarrow> ('f, delayed_for_each_f list) callback" where
  "for_each_callback g =
     \<lparr>prepare = (\<lambda>_. []), on_recv = g,
      finish = (\<lambda>order f m st.
        (f, fold (\<lambda>h m. snd (multi_for_each (\<lambda>u com. (u, h com)) order () m)) st m))\<rparr>"

text \<open>One datagram: the connection is created if needed, reads the packet, and the callback runs.\<close>

definition multi_read ::
  "crate_env \<Rightarrow> udp_context \<Rightarrow> ('f, 'st) callback \<Rightarrow> nat \<Rightarrow> socket_addr \<Rightarrow> 'f \<times> 'st \<times> multi
     \<Rightarrow> ('f \<times> 'st \<times> multi) outcome"
where
  "multi_read env ctx cb n addr x =
     (case x of (f, st, m) \<Rightarrow>
      case or_default addr m of (c, m1) \<Rightarrow>
        outcome_bind (read_packet env ctx n c (multi_socket m1)) (\<lambda>(c', s).
          case on_recv cb f \<lparr>mut_addr = addr, mut_inner = c'\<rparr> st of (f', com, st') \<Rightarrow>
            Returns (f', st', m1\<lparr>multi_socket := s, coms := (coms m1)(addr \<mapsto> mut_inner com)\<rparr>)))"

lemma or_default_socket:
  "inbox (os_socket (multi_socket (snd (or_default addr m)))) = inbox (os_socket (multi_socket m))"
  "fake_delayed_buffer (multi_socket (snd (or_default addr m))) = fake_delayed_buffer (multi_socket m)"
  by (simp_all add: or_default_def inner_default_def now_def split: option.splits)

lemma multi_read_socket:
  assumes "multi_read env ctx cb n addr (f, st, m) = Returns (f', st', m')"
  shows "inbox (os_socket (multi_socket m')) = inbox (os_socket (multi_socket m))
    \<and> fake_delayed_buffer (multi_socket m') = fake_delayed_buffer (multi_socket m)"
proof -
  obtain c m1 where m1: "or_default addr m = (c, m1)" by (cases "or_default addr m")
  obtain c' s where r: "read_packet env ctx n c (multi_socket m1) = Returns (c', s)"
    using assms m1 by (auto simp: multi_read_def outcome_bind_Returns)
  then have "multi_socket m' = s"
    using assms m1 by (auto simp: multi_read_def split: prod.splits)
  with r show ?thesis using read_packet_os or_default_socket [of addr m] m1 by fastforce
qed

function multi_recv_loop ::
  "crate_env \<Rightarrow> udp_context \<Rightarrow> ('f, 'st) callback \<Rightarrow> 'f \<Rightarrow> 'st \<Rightarrow> multi \<Rightarrow> ('f \<times> 'st \<times> multi) outcome"
where
  "multi_recv_loop env ctx cb f st m =
     (case recv_from (multi_socket m) of
        (None, s1) \<Rightarrow> Returns (f, st, m\<lparr>multi_socket := s1\<rparr>)
      | (Some (n, addr), s1) \<Rightarrow>
          (case debug_delay env (Some addr) n s1 of
             (True, s2) \<Rightarrow> multi_recv_loop env ctx cb f st (m\<lparr>multi_socket := s2\<rparr>)
           | (False, s2) \<Rightarrow>
               outcome_bind (multi_read env ctx cb n addr (f, st, m\<lparr>multi_socket := s2\<rparr>)) (\<lambda>(f', st', m').
                 multi_recv_loop env ctx cb f' st' m')))"
  by pat_completeness auto
termination
proof (relation "measure (\<lambda>(env, ctx, cb, f, st, m). length (inbox (os_socket (multi_socket m))))", goal_cases)
  case (2 env ctx cb f st m x s1 p n a b s2)
  then show ?case using recv_round(1) [of "multi_socket m" p s1 env "Some a" n b s2] by simp
next
  case (3 env ctx cb f st m x s1 p n a b s2 y f' z st' m')
  then show ?case
    using recv_round(1) [of "multi_socket m" p s1 env "Some a" n b s2]
      multi_read_socket [of env ctx cb n a f st "m\<lparr>multi_socket := s2\<rparr>" f' st' m']
    by (cases y; cases z) auto
qed simp

text \<open>The loop over the delayed datagrams stops at one without an address.\<close>

function multi_delayed_loop ::
  "crate_env \<Rightarrow> udp_context \<Rightarrow> ('f, 'st) callback \<Rightarrow> 'f \<Rightarrow> 'st \<Rightarrow> multi \<Rightarrow> ('f \<times> 'st \<times> multi) outcome"
where
  "multi_delayed_loop env ctx cb f st m =
     (case read_delayed (multi_socket m) of
        (Some (n, Some addr), s1) \<Rightarrow>
          outcome_bind (multi_read env ctx cb n addr (f, st, m\<lparr>multi_socket := s1\<rparr>)) (\<lambda>(f', st', m').
            multi_delayed_loop env ctx cb f' st' m')
      | (_, s1) \<Rightarrow> Returns (f, st, m\<lparr>multi_socket := s1\<rparr>))"
  by pat_completeness auto
termination
proof (relation "measure (\<lambda>(env, ctx, cb, f, st, m). length (fake_delayed_buffer (multi_socket m)))", goal_cases)
  case (2 env ctx cb f st m x s1 p n q a y f' z st' m')
  then show ?case
    using read_delayed_shorter [of "multi_socket m" p s1]
      multi_read_socket [of env ctx cb n a f st "m\<lparr>multi_socket := s1\<rparr>" f' st' m']
    by (cases y; cases z) auto
qed simp

declare multi_recv_loop.simps [simp del] multi_delayed_loop.simps [simp del]

definition multi_recv ::
  "crate_env \<Rightarrow> udp_context \<Rightarrow> ('f, 'st) callback \<Rightarrow> socket_addr list \<Rightarrow> 'f \<Rightarrow> multi \<Rightarrow> ('f \<times> multi) outcome"
where
  "multi_recv env ctx cb order f m =
     outcome_bind (multi_recv_loop env ctx cb f (prepare cb f) m) (\<lambda>(f', st', m').
     outcome_bind
       (if feature_debug env then multi_delayed_loop env ctx cb f' st' m' else Returns (f', st', m'))
       (\<lambda>(f'', st'', m''). Returns (finish cb order f'' m'' st'')))"

definition multi_tick ::
  "crate_env \<Rightarrow> udp_context \<Rightarrow> ('f, 'st) callback \<Rightarrow> socket_addr list \<Rightarrow> socket_addr list \<Rightarrow> 'f \<Rightarrow> multi
     \<Rightarrow> ('f \<times> multi) outcome"
where
  "multi_tick env ctx cb order order' f m =
     outcome_bind (multi_recv env ctx cb order f m) (\<lambda>(f', m').
       outcome_bind (multi_send env ctx order' m') (\<lambda>m''. Returns (f', m'')))"

end
