(* ===== verification/ServiceSpec.thy ===== *)
theory ServiceSpec
  imports Multi ReceiveSpec
begin

text \<open>
  What the public types guarantee: \<open>UdpCommunicator\<close> (\<open>communicator/mod.rs\<close>) returns from
  \<open>tick\<close> and hands messages over in the order of its queues; \<open>MultiUdpCommunicator\<close>
  (\<open>communicator/multi.rs\<close>) keeps its connections apart, creates them on demand, and
  addresses each of them in \<open>send\<close> and in the broadcasts.
\<close>

section \<open>UdpCommunicator\<close>

lemma acknowledge_queue [simp]: "unreliable_send_queue (acknowledge a c) = unreliable_send_queue c"
  by (simp add: acknowledge_eq)

lemma deliver_loop_queue: "unreliable_send_queue (deliver_loop es c) = unreliable_send_queue c"
proof (induction es arbitrary: c)
  case (Cons e es)
  then show ?case by (cases e) (auto simp: deliver_loop_Cons deliver_one_def)
qed simp

lemma process_packet_queue: "unreliable_send_queue (process_packet p c) = unreliable_send_queue c"
  by (simp add: process_packet_def deliver_loop_queue Let_def)

lemma read_packet_queue:
  "read_packet env ctx n c s = Returns (c', s') \<Longrightarrow> unreliable_send_queue c' = unreliable_send_queue c"
  by (auto simp: read_packet_def read_checked_def outcome_bind_Returns process_packet_queue now_def
    Let_def case_prod_beta split: if_splits res.splits)

lemma receive_queue:
  "receive env ctx c s = Returns (c', s') \<Longrightarrow> unreliable_send_queue c' = unreliable_send_queue c"
  by (rule receive_inv [where P = "\<lambda>x. unreliable_send_queue x = unreliable_send_queue c"])
     (auto dest: read_packet_queue)

text \<open>
  C14. \<open>tick\<close> in a build without the simulated faults, for a message type whose reading panics on
  no bytes (\<open>total_repr\<close>, which derived types without strings and \<open>Cow\<close>s are; a string with a false
  length prefix panics) and with no unreliable message larger than a packet: whatever datagrams
  of at least four bytes have arrived, it returns \<open>Ok\<close>, and the communicator is in a state in which
  that holds again.
\<close>

theorem tick_total:
  assumes "\<not> feature_debug env" "lawful_repr (SEND ctx)" "total_repr (RECV ctx)"
    and "inner_ok (SEND ctx) (com_inner com)" "config_ok (com_socket com)"
    and "\<forall>m \<in> set (unreliable_send_queue (com_inner com)). byte_len (SEND ctx) m \<le> MAX_PACKET_DATA_LEN"
    and "\<forall>a f. Some (a, f) \<in> set (inbox (os_socket (com_socket com))) \<longrightarrow> 4 \<le> length f"
  shows "\<exists>com'. com_tick env ctx com = Returns (None, com') \<and> inner_ok (SEND ctx) (com_inner com')
    \<and> config_ok (com_socket com') \<and> unreliable_send_queue (com_inner com') = []"
proof -
  have "length (data_buffer (com_socket com)) = MAX_PACKET_LEN" using assms(5) by (simp add: config_ok_def)
  then obtain c s where r: "receive env ctx (com_inner com) (com_socket com) = Returns (c, s)"
      "same_config (com_socket com) s"
    using receive_loop_returns [OF assms(1,3) _ assms(7), of "com_inner com"] assms(1)
    by (auto simp: receive_def)
  have "inner_ok (SEND ctx) c" using r(1) assms(4) by (rule receive_ok)
  moreover have "unreliable_send_queue c = unreliable_send_queue (com_inner com)" using r(1) by (rule receive_queue)
  ultimately obtain c' s' where "inner_send env ctx None c s = Returns (None, c', s')"
      "inner_ok (SEND ctx) c'" "config_ok s'" "unreliable_send_queue c' = []"
    using inner_send_ok [OF assms(2) _ config_ok_same [OF r(2) assms(5)], of c env None] assms(6) by auto
  then show ?thesis using r(1) by (simp add: com_tick_def com_recv_def com_send_def)
qed

definition demo_com :: communicator where
  "demo_com = \<lparr>com_socket = demo_socket\<lparr>os_socket := demo_os\<lparr>inbox := [Some (1, [1, 2, 3, 4, 5]), None]\<rparr>\<rparr>,
     com_inner = demo_inner\<rparr>"

theorem tick_total_witness: "\<exists>com'. com_tick demo_env demo_ctx demo_com = Returns (None, com')"
proof -
  have "config_ok (com_socket demo_com)"
    using demo_simps(5) by (simp add: demo_com_def config_ok_def)
  then show ?thesis
    using tick_total [of demo_env demo_ctx demo_com] test_message_lawful test_message_total
    by (auto simp: demo_com_def)
qed

text \<open>
  Messages are queued in the order they are written and read in the order they were
  delivered; reading \<open>n\<close> messages removes exactly these.
\<close>

lemma write_read_order:
  "reliable_ordered_send_queue (com_inner (fold com_write_ordered ms com)) =
     reliable_ordered_send_queue (com_inner com) @ ms
   \<and> reliable_send_queue (com_inner (fold com_write_reliable ms com)) = reliable_send_queue (com_inner com) @ ms
   \<and> unreliable_send_queue (com_inner (fold com_write ms com)) = unreliable_send_queue (com_inner com) @ ms
   \<and> fst (read_times com_read_ordered n com) = take n (ordered_recv_queue (com_inner com))
   \<and> fst (read_times com_read n com) = take n (unordered_recv_queue (com_inner com))
   \<and> com_inner (snd (read_times com_read_ordered n com)) =
       (com_inner com)\<lparr>ordered_recv_queue := drop n (ordered_recv_queue (com_inner com))\<rparr>"
  using com.writes_queued [of ms com] com.read_times_ordered [of n com]
    com.read_times_unordered [of n com]
  by (metis (no_types, lifting) inner.select_convs(8-10) inner.surjective inner.update_convs(8-10) prod.collapse)

section \<open>MultiUdpCommunicator\<close>

lemma push_reliable_coms:
  "distinct order \<Longrightarrow> coms (fold (push_reliable message) order m) a =
    (if a \<in> set order
     then map_option (\<lambda>c. c\<lparr>reliable_send_queue := reliable_send_queue c @ [message]\<rparr>) (coms m a)
     else coms m a)"
  by (induction order arbitrary: m) (auto simp: push_reliable_def)

text \<open>
  A broadcast reaches every connection and a broadcast with an exception every other one,
  reliably, in whatever order the hash map is iterated.
\<close>

lemma broadcast_reaches_all:
  assumes "enumerates order m"
  shows "coms (multi_broadcast order message m) a =
      map_option (\<lambda>c. c\<lparr>reliable_send_queue := reliable_send_queue c @ [message]\<rparr>) (coms m a)
    \<and> coms (multi_broadcast_except order message exc m) a =
      (if a = exc then coms m a
       else map_option (\<lambda>c. c\<lparr>reliable_send_queue := reliable_send_queue c @ [message]\<rparr>) (coms m a))"
proof -
  have "distinct order" "a \<in> set order \<longleftrightarrow> coms m a \<noteq> None"
    using assms by (auto simp: enumerates_def dom_def)
  then show ?thesis
    by (auto simp: multi_broadcast_def multi_broadcast_except_def push_reliable_coms)
qed

definition demo_multi :: multi where
  "demo_multi = \<lparr>multi_socket = demo_socket, coms = [1 \<mapsto> demo_inner, 2 \<mapsto> demo_inner]\<rparr>"

lemma demo_multi_order: "enumerates [2, 1] demo_multi"
  by (auto simp: enumerates_def demo_multi_def)

text \<open>Datagrams of several peers.\<close>

lemma or_default_cases:
  assumes "or_default addr m = (c, m1)"
  shows "coms m addr = Some c \<and> m1 = m \<or>
    coms m addr = None \<and> c = fst (inner_default (multi_socket m))
    \<and> coms m1 = (coms m)(addr \<mapsto> c) \<and> multi_socket m1 = snd (inner_default (multi_socket m))"
  using assms by (auto simp: or_default_def split: option.splits prod.splits)

lemma inner_default_socket:
  "no_faults env (snd (inner_default s)) = no_faults env s"
  "data_buffer (snd (inner_default s)) = data_buffer s"
  "os_socket (snd (inner_default s)) = (os_socket s)\<lparr>readings := readings (os_socket s) + 2\<rparr>"
  "same_config s (snd (inner_default s))"
  by (simp_all add: inner_default_def now_def same_config_def numeral_2_eq_2)

definition connection_of :: "multi \<Rightarrow> socket_addr \<Rightarrow> inner \<Rightarrow> bool" where
  "connection_of m a c \<longleftrightarrow> coms m a = Some c \<or> coms m a = None \<and> (\<exists>s. c = fst (inner_default s))"

text \<open>The packets of one address, and what they make of its connection.\<close>

definition from_addr :: "socket_addr \<Rightarrow> (socket_addr \<times> packet) list \<Rightarrow> packet list" where
  "from_addr a aps = map snd (filter (\<lambda>(b, p). b = a) aps)"

definition separately :: "(socket_addr \<times> packet) list \<Rightarrow> multi \<Rightarrow> multi \<Rightarrow> bool" where
  "separately aps m m' \<longleftrightarrow> (\<forall>a. if from_addr a aps = [] then coms m' a = coms m a
     else \<exists>c t. connection_of m a c \<and> coms m' a = Some ((fold process_packet (from_addr a aps) c)\<lparr>last_seen := t\<rparr>))"

lemma fold_process_seen:
  "(fold process_packet ps (c\<lparr>last_seen := u\<rparr>))\<lparr>last_seen := t\<rparr> = (fold process_packet ps c)\<lparr>last_seen := t\<rparr>"
proof (induction ps arbitrary: c)
  case (Cons p ps)
  then show ?case using process_packet_seen [of p u c] by simp
qed simp

lemma separately_Cons:
  assumes "connection_of m a c" and m1: "coms m1 = (coms m)(a \<mapsto> (process_packet p c)\<lparr>last_seen := u\<rparr>)"
    and "separately aps m1 m'"
  shows "separately ((a, p) # aps) m m'"
  unfolding separately_def
proof
  fix b
  show "if from_addr b ((a, p) # aps) = [] then coms m' b = coms m b
     else \<exists>c t. connection_of m b c \<and>
       coms m' b = Some ((fold process_packet (from_addr b ((a, p) # aps)) c)\<lparr>last_seen := t\<rparr>)"
  proof (cases "b = a")
    case False
    then have "from_addr b ((a, p) # aps) = from_addr b aps" "coms m1 b = coms m b"
      by (simp_all add: from_addr_def m1)
    moreover have "connection_of m1 b c = connection_of m b c" for c
      using \<open>coms m1 b = coms m b\<close> by (simp add: connection_of_def)
    ultimately show ?thesis using spec [OF assms(3) [unfolded separately_def], of b] by (auto split: if_splits)
  next
    case True
    have b: "from_addr b ((a, p) # aps) = p # from_addr b aps" using True by (simp add: from_addr_def)
    let ?c = "(process_packet p c)\<lparr>last_seen := u\<rparr>"
    have "\<exists>t. coms m' b = Some ((fold process_packet (from_addr b aps) ?c)\<lparr>last_seen := t\<rparr>)"
    proof (cases "from_addr b aps = []")
      case True
      then show ?thesis using assms(3) m1 \<open>b = a\<close>
        by (intro exI [of _ u]) (simp add: separately_def)
    next
      case False
      then show ?thesis
        using spec [OF assms(3) [unfolded separately_def], of b] m1 \<open>b = a\<close>
        by (auto simp: connection_of_def)
    qed
    then show ?thesis using True b assms(1) fold_process_seen by auto
  qed
qed

lemma multi_recv_loop_frames:
  assumes "lawful_repr (SEND ctx)" "list_all (\<lambda>(a, p). packet_ok (SEND ctx) p) aps"
    and "no_faults env (multi_socket m)" "length (data_buffer (multi_socket m)) = MAX_PACKET_LEN"
    and "inbox (os_socket (multi_socket m)) = map (\<lambda>(a, p). Some (a, frame (SEND ctx) (CRC env ctx) p)) aps"
  shows "\<exists>m'. multi_recv_loop env (REVERSE ctx) unit_callback () () m = Returns ((), (), m')
    \<and> no_faults env (multi_socket m') \<and> separately aps m m'"
  using assms(2-5)
proof (induction aps arbitrary: m)
  case Nil
  then show ?case
    by (subst multi_recv_loop.simps) (simp add: recv_from_def separately_def from_addr_def)
next
  case (Cons ap aps)
  obtain a p where ap: "ap = (a, p)" by (cases ap)
  let ?s = "multi_socket m" and ?f = "frame (SEND ctx) (CRC env ctx) p"
  let ?rest = "map (\<lambda>(a, p). Some (a, frame (SEND ctx) (CRC env ctx) p)) aps"
  have p: "packet_ok (SEND ctx) p" using Cons.prems(1) ap by simp
  have len: "length ?f \<le> length (data_buffer ?s)"
    using length_frame_le [OF assms(1) p] Cons.prems(3) by simp
  let ?s1 = "?s\<lparr>os_socket := (os_socket ?s)\<lparr>inbox := ?rest\<rparr>,
      data_buffer := ?f @ drop (length ?f) (data_buffer ?s)\<rparr>"
  have recv: "recv_from ?s = (Some (length ?f, a), ?s1)"
    using Cons.prems(4) ap len by (intro recv_from_Cons) simp_all
  have nf: "no_faults env ?s1" using Cons.prems(2) by simp
  have delay: "debug_delay env (Some a) n ?s1 = (False, ?s1)" for n
    using nf by (auto simp: debug_delay_def delay_packet_def no_faults_def)
  let ?m = "m\<lparr>multi_socket := ?s1\<rparr>"
  obtain c m1 where m1: "or_default a ?m = (c, m1)" by (cases "or_default a ?m")
  note od = or_default_cases [OF m1]
  have sock: "no_faults env (multi_socket m1)" "data_buffer (multi_socket m1) = data_buffer ?s1"
      "inbox (os_socket (multi_socket m1)) = ?rest"
    using od nf inner_default_socket(1) [of env ?s1] inner_default_socket(2,3) [of ?s1] by auto
  have conn: "connection_of m a c" "(coms m1)(a \<mapsto> x) = (coms m)(a \<mapsto> x)" for x
    using od by (auto simp: connection_of_def)
  let ?t = "fst (now (multi_socket m1))" and ?s2 = "snd (now (multi_socket m1))"
  let ?c = "(process_packet p c)\<lparr>last_seen := ?t\<rparr>"
  let ?m2 = "m1\<lparr>multi_socket := ?s2, coms := (coms m1)(a \<mapsto> ?c)\<rparr>"
  have "read_packet env (REVERSE ctx) (length ?f) c (multi_socket m1) = Returns (?c, ?s2)"
    using read_packet_frame [OF assms(1) p sock(1), of _ c] sock(2) process_packet_seen [of p ?t c] by simp
  then have read: "multi_read env (REVERSE ctx) unit_callback (length ?f) a ((), (), ?m) = Returns ((), (), ?m2)"
    by (simp add: multi_read_def m1 unit_callback_def)
  have "\<exists>m'. multi_recv_loop env (REVERSE ctx) unit_callback () () ?m2 = Returns ((), (), m')
      \<and> no_faults env (multi_socket m') \<and> separately aps ?m2 m'"
    using Cons.prems len sock by (intro Cons.IH) (simp_all add: now_def)
  then obtain m' where m': "multi_recv_loop env (REVERSE ctx) unit_callback () () ?m2 = Returns ((), (), m')"
      "no_faults env (multi_socket m')" "separately aps ?m2 m'" by blast
  have "separately ((a, p) # aps) m m'"
    using conn(1) _ m'(3) by (rule separately_Cons) (simp add: conn(2))
  moreover have "multi_recv_loop env (REVERSE ctx) unit_callback () () m =
      multi_recv_loop env (REVERSE ctx) unit_callback () () ?m2"
    by (subst multi_recv_loop.simps) (simp add: recv delay read)
  ultimately show ?case using m' ap by auto
qed

text \<open>
  C11. \<open>recv\<close> on datagrams of several peers: each connection is what its own packets make of
  it, in their order, and no connection is touched by the packets of another address; an
  address without a connection gets a fresh one.
\<close>

theorem recv_separates:
  assumes "lawful_repr (SEND ctx)" "list_all (\<lambda>(a, p). packet_ok (SEND ctx) p) aps"
    and "no_faults env (multi_socket m)" "length (data_buffer (multi_socket m)) = MAX_PACKET_LEN"
    and "inbox (os_socket (multi_socket m)) = map (\<lambda>(a, p). Some (a, frame (SEND ctx) (CRC env ctx) p)) aps"
  shows "\<exists>m'. multi_recv env (REVERSE ctx) unit_callback order () m = Returns ((), m')
    \<and> (\<forall>a. if from_addr a aps = [] then coms m' a = coms m a
          else \<exists>c t. connection_of m a c
            \<and> coms m' a = Some ((fold process_packet (from_addr a aps) c)\<lparr>last_seen := t\<rparr>))"
proof -
  obtain m' where m': "multi_recv_loop env (REVERSE ctx) unit_callback () () m = Returns ((), (), m')"
      "no_faults env (multi_socket m')" "separately aps m m'"
    using multi_recv_loop_frames [OF assms] by blast
  have "feature_debug env \<Longrightarrow>
      multi_delayed_loop env (REVERSE ctx) unit_callback () () m' = Returns ((), (), m')"
    using m'(2) by (subst multi_delayed_loop.simps) (simp add: no_faults_def read_delayed_def)
  then show ?thesis
    using m' by (auto simp: multi_recv_def separately_def unit_callback_def [unfolded callback.defs])
qed

theorem recv_separates_witness:
  "\<exists>m' c t. multi_recv demo_env (REVERSE demo_ctx) unit_callback [1, 2] ()
      (demo_multi\<lparr>multi_socket := demo_inbox\<rparr>) = Returns ((), m')
    \<and> coms m' 2 = Some demo_inner
    \<and> coms m' 7 = Some ((fold process_packet (map (arrival_packet demo_peer) demo_run) c)\<lparr>last_seen := t\<rparr>)"
proof -
  let ?m = "demo_multi\<lparr>multi_socket := demo_inbox\<rparr>"
  let ?aps = "map (\<lambda>a. (7 :: socket_addr, arrival_packet demo_peer a)) demo_run"
  have from7: "from_addr 7 ?aps = map (arrival_packet demo_peer) demo_run" "from_addr 2 ?aps = []"
    by (simp_all add: from_addr_def filter_map comp_def)
  have "list_all (\<lambda>(a, p). packet_ok (SEND demo_ctx) p) ?aps"
    using demo_run_packets by (auto simp: list_all_iff)
  then obtain m' where m': "multi_recv demo_env (REVERSE demo_ctx) unit_callback [1, 2] () ?m = Returns ((), m')"
      "\<forall>a. if from_addr a ?aps = [] then coms m' a = coms ?m a
          else \<exists>c t. connection_of ?m a c
            \<and> coms m' a = Some ((fold process_packet (from_addr a ?aps) c)\<lparr>last_seen := t\<rparr>)"
    using recv_separates [of demo_ctx ?aps demo_env ?m "[1, 2]"] test_message_lawful demo_inbox_simps
    by (auto simp: datagrams_def comp_def)
  have "map (arrival_packet demo_peer) demo_run \<noteq> []" by (simp add: demo_run_def)
  then show ?thesis
    using m'(1) spec [OF m'(2), of 2] spec [OF m'(2), of 7] by (auto simp: from7 demo_multi_def)
qed

text \<open>
  C40. A datagram with a wrong checksum, from an address without a connection, is not a
  packet, yet \<open>recv\<close> creates a connection for the address and calls the callback.
\<close>

theorem noise_creates_connection:
  assumes "\<not> feature_debug env" "mismatched env ctx f" "length (data_buffer (multi_socket m)) = MAX_PACKET_LEN"
    and "inbox (os_socket (multi_socket m)) = [Some (a, f)]" "coms m a = None"
  shows "\<exists>m' c. multi_recv env ctx (closure_callback (\<lambda>n com. (n + 1, com))) order (0 :: nat) m = Returns (1, m')
    \<and> coms m' = (coms m)(a \<mapsto> c)"
proof -
  let ?s = "multi_socket m" and ?cb = "closure_callback (\<lambda>n com. (n + 1, com)) :: (nat, unit) callback"
  let ?s1 = "?s\<lparr>os_socket := (os_socket ?s)\<lparr>inbox := []\<rparr>, data_buffer := f @ drop (length f) (data_buffer ?s)\<rparr>"
  let ?m = "m\<lparr>multi_socket := ?s1\<rparr>"
  have recv: "recv_from ?s = (Some (length f, a), ?s1)"
    using assms(2-4) by (intro recv_from_Cons) (simp_all add: mismatched_def)
  have delay: "debug_delay env (Some a) n ?s1 = (False, ?s1)" for n using assms(1) by (simp add: debug_delay_def)
  obtain c m1 where m1: "or_default a ?m = (c, m1)" by (cases "or_default a ?m")
  then have m1': "coms m1 = (coms m)(a \<mapsto> c)" "data_buffer (multi_socket m1) = data_buffer ?s1"
      "inbox (os_socket (multi_socket m1)) = []"
    using or_default_cases [OF m1] assms(5) inner_default_socket(2,3) [of ?s1] by auto
  have "read_packet env ctx (length f) c (multi_socket m1) = Returns (c, multi_socket m1)"
    using assms(1,2) m1'(2) by (intro read_packet_mismatched) simp_all
  then have read: "multi_read env ctx ?cb (length f) a (0, (), ?m) = Returns (1, (), m1\<lparr>coms := (coms m1)(a \<mapsto> c)\<rparr>)"
    by (simp add: multi_read_def m1 closure_callback_def)
  have "multi_recv_loop env ctx ?cb 1 () (m1\<lparr>coms := (coms m1)(a \<mapsto> c)\<rparr>) =
      Returns (1, (), m1\<lparr>coms := (coms m1)(a \<mapsto> c)\<rparr>)"
    using m1'(3) by (subst multi_recv_loop.simps) (simp add: recv_from_def)
  then have "multi_recv_loop env ctx ?cb 0 () m = Returns (1, (), m1\<lparr>coms := (coms m1)(a \<mapsto> c)\<rparr>)"
    by (subst multi_recv_loop.simps)
       (simp only: recv delay read option.case prod.case bool.case outcome_bind.simps)
  then show ?thesis
    using assms(1) m1'(1) by (auto simp: multi_recv_def closure_callback_def)
qed

theorem noise_creates_connection_witness:
  "\<exists>m'. multi_recv demo_env demo_ctx (closure_callback (\<lambda>n com. (n + 1, com))) [] (0 :: nat)
      (demo_multi\<lparr>multi_socket := demo_socket\<lparr>os_socket := demo_os\<lparr>inbox := [Some (9, [0, 0, 0, 0, 7])]\<rparr>\<rparr>\<rparr>) =
    Returns (1, m') \<and> coms m' 9 \<noteq> None"
proof -
  have "mismatched demo_env demo_ctx [0, 0, 0, 0, 7]"
    by (simp add: mismatched_def CRC_def demo_env_def CRC_ALGORITHM_def MAX_PACKET_LEN_def PACKET_HEADER_LEN_def)
  then show ?thesis
    using noise_creates_connection [of demo_env demo_ctx "[0, 0, 0, 0, 7]" "demo_multi\<lparr>multi_socket :=
        demo_socket\<lparr>os_socket := demo_os\<lparr>inbox := [Some (9, [0, 0, 0, 0, 7])]\<rparr>\<rparr>\<rparr>" 9 "[]"]
    by (auto simp: demo_multi_def)
qed

definition connections_ok :: "rval byte_repr \<Rightarrow> multi \<Rightarrow> bool" where
  "connections_ok d m \<longleftrightarrow> config_ok (multi_socket m) \<and> (\<forall>a c. coms m a = Some c \<longrightarrow>
     inner_ok d c \<and> (\<forall>x \<in> set (unreliable_send_queue c). byte_len d x \<le> MAX_PACKET_DATA_LEN))"

lemma multi_send_ok:
  assumes "lawful_repr (SEND ctx)" "connections_ok (SEND ctx) m"
  shows "\<exists>m' fs. multi_send env ctx order m = Returns m' \<and> connections_ok (SEND ctx) m'
    \<and> dom (coms m') = dom (coms m)
    \<and> (\<forall>a c c'. coms m a = Some c \<longrightarrow> coms m' a = Some c' \<longrightarrow>
          a \<in> set order \<or> unreliable_send_queue c = [] \<longrightarrow> unreliable_send_queue c' = [])
    \<and> outbox (os_socket (multi_socket m')) = outbox (os_socket (multi_socket m)) @ fs
    \<and> (\<forall>(x, f) \<in> set fs. \<exists>a p. x = Some a \<and> a \<in> dom (coms m)
          \<and> packet_ok (SEND ctx) p \<and> f = frame (SEND ctx) (CRC env ctx) p)"
  using assms(2)
proof (induction order arbitrary: m)
  case Nil
  show ?case by (intro exI [of _ m] exI [of _ "[]"]) (use Nil in auto)
next
  case (Cons a order)
  show ?case
  proof (cases "coms m a")
    case None
    then have "multi_send env ctx (a # order) m = multi_send env ctx order m" by simp
    moreover have "a \<notin> dom (coms m)" using None by auto
    ultimately show ?thesis using Cons.IH [OF Cons.prems] by (auto simp: domIff)
  next
    case (Some c)
    have c: "inner_ok (SEND ctx) c" "config_ok (multi_socket m)"
        "\<forall>x \<in> set (unreliable_send_queue c). byte_len (SEND ctx) x \<le> MAX_PACKET_DATA_LEN"
      using Cons.prems Some by (simp_all add: connections_ok_def)
    obtain c' s' qs where s: "inner_send env ctx (Some a) c (multi_socket m) = Returns (None, c', s')"
        "inner_ok (SEND ctx) c'" "config_ok s'" "unreliable_send_queue c' = []"
        "outbox (os_socket s') = outbox (os_socket (multi_socket m))
          @ map (\<lambda>p. (Some a, frame (SEND ctx) (CRC env ctx) p)) qs" "\<forall>p \<in> set qs. packet_ok (SEND ctx) p"
      using inner_send_ok [OF assms(1) c, of env "Some a"] by blast
    let ?m = "m\<lparr>multi_socket := s', coms := (coms m)(a \<mapsto> c')\<rparr>"
    have dom: "dom (coms ?m) = dom (coms m)" "a \<in> dom (coms m)" using Some by auto
    have "connections_ok (SEND ctx) ?m" using Cons.prems s(2-4) by (simp add: connections_ok_def)
    from Cons.IH [OF this] obtain m' fs where m': "multi_send env ctx order ?m = Returns m'"
        "connections_ok (SEND ctx) m'" "dom (coms m') = dom (coms m)"
        and q: "\<forall>b x y. coms ?m b = Some x \<longrightarrow> coms m' b = Some y \<longrightarrow>
          b \<in> set order \<or> unreliable_send_queue x = [] \<longrightarrow> unreliable_send_queue y = []"
        and out: "outbox (os_socket (multi_socket m')) = outbox (os_socket (multi_socket ?m)) @ fs"
        and fs: "\<forall>(x, f) \<in> set fs. \<exists>b p. x = Some b \<and> b \<in> dom (coms m)
          \<and> packet_ok (SEND ctx) p \<and> f = frame (SEND ctx) (CRC env ctx) p"
      unfolding dom by blast
    have "unreliable_send_queue y = []"
      if "coms m b = Some x" "coms m' b = Some y" "b \<in> set (a # order) \<or> unreliable_send_queue x = []" for b x y
      using that spec [OF spec [OF spec [OF q, of b], of "if b = a then c' else x"], of y] s(4)
      by (auto split: if_splits)
    then show ?thesis
      using s(1,5,6) m' out fs dom(2) Some
      by (intro exI [of _ m'] exI [of _ "map (\<lambda>p. (Some a, frame (SEND ctx) (CRC env ctx) p)) qs @ fs"])
         (auto; blast)
  qed
qed

text \<open>
  C15. \<open>send\<close> of a \<open>MultiUdpCommunicator\<close> whose connections satisfy the invariant returns, in
  every order of the hash map: all connections still satisfy it, none is lost, the
  unreliable queues are empty, and every datagram is the packet of a connection, addressed
  to one of them.
\<close>

theorem multi_send_total:
  assumes "lawful_repr (SEND ctx)" "connections_ok (SEND ctx) m" "enumerates order m"
  shows "\<exists>m' fs. multi_send env ctx order m = Returns m' \<and> connections_ok (SEND ctx) m'
    \<and> dom (coms m') = dom (coms m) \<and> (\<forall>a c. coms m' a = Some c \<longrightarrow> unreliable_send_queue c = [])
    \<and> outbox (os_socket (multi_socket m')) = outbox (os_socket (multi_socket m)) @ fs
    \<and> (\<forall>(x, f) \<in> set fs. \<exists>a p. x = Some a \<and> a \<in> dom (coms m)
          \<and> packet_ok (SEND ctx) p \<and> f = frame (SEND ctx) (CRC env ctx) p)"
proof -
  have order: "set order = dom (coms m)" using assms(3) by (simp add: enumerates_def)
  obtain m' fs where m': "multi_send env ctx order m = Returns m'" "connections_ok (SEND ctx) m'"
      "dom (coms m') = dom (coms m)"
      and q: "\<forall>a x y. coms m a = Some x \<longrightarrow> coms m' a = Some y \<longrightarrow>
        a \<in> set order \<or> unreliable_send_queue x = [] \<longrightarrow> unreliable_send_queue y = []"
      and out: "outbox (os_socket (multi_socket m')) = outbox (os_socket (multi_socket m)) @ fs"
        "\<forall>(x, f) \<in> set fs. \<exists>a p. x = Some a \<and> a \<in> dom (coms m)
          \<and> packet_ok (SEND ctx) p \<and> f = frame (SEND ctx) (CRC env ctx) p"
    using multi_send_ok [OF assms(1,2), of env order] by blast
  have "unreliable_send_queue y = []" if "coms m' a = Some y" for a y
    using that q m'(3) order by blast
  then show ?thesis using m' out by blast
qed

theorem multi_send_total_witness:
  "\<exists>m'. multi_send demo_env demo_ctx [2, 1] demo_multi = Returns m' \<and> dom (coms m') = {1, 2}"
proof -
  have "connections_ok test_message demo_multi"
    by (auto simp: connections_ok_def demo_multi_def split: if_splits)
  then show ?thesis
    using multi_send_total [of demo_ctx demo_multi "[2, 1]" demo_env] demo_multi_order test_message_lawful
    by (auto simp: demo_multi_def insert_commute)
qed

lemma multi_retain_coms:
  assumes "distinct order"
  shows "coms (snd (multi_retain (\<lambda>x com. (P (mut_addr com) (mut_inner com), x, com)) order x m)) a =
    (case coms m a of
       Some c \<Rightarrow> if a \<in> set order \<and> \<not> P a c then None else Some c | None \<Rightarrow> None)"
  using assms
  by (induction order arbitrary: m)
     (auto simp: multi_get_mut_def multi_remove_def put_com_def split: option.splits)

text \<open>
  \<open>retain\<close> with a closure that decides by address and connection keeps exactly the
  connections it accepts; \<open>remove\<close> forgets exactly one and tells whether it existed.
\<close>

lemma retain_remove_spec:
  assumes "enumerates order m"
  shows "coms (snd (multi_retain (\<lambda>x com. (P (mut_addr com) (mut_inner com), x, com)) order x m)) a =
      (case coms m a of Some c \<Rightarrow> if P a c then Some c else None | None \<Rightarrow> None)
    \<and> fst (multi_remove b m) = (coms m b \<noteq> None)
    \<and> coms (snd (multi_remove b m)) a = (if a = b then None else coms m a)"
proof -
  have "distinct order" "coms m a \<noteq> None \<longleftrightarrow> a \<in> set order"
    using assms by (auto simp: enumerates_def)
  then show ?thesis
    by (auto simp: multi_retain_coms multi_remove_def split: option.splits)
qed

end
