(* ===== verification/Link.thy ===== *)
theory Link
  imports Intake
begin

text \<open>
  One direction of a connection, for one kind of reliable packets: the cache of sent packets
  at one end, the packets made so far, and the set of those received at the other end. The
  sliding window is the invariant \<open>link\<close>: a packet leaves the cache only after it was received.
  \<open>flush_messages\<close>, an acknowledgement, a round of sending in which no packet is given up,
  and an arrival at the other end keep it; and it gives the condition under which
  \<open>Delivery\<close> proves the receiving half correct.
\<close>

section \<open>The invariant\<close>

definition link :: "bool \<Rightarrow> pending ring \<Rightarrow> packet list \<Rightarrow> nat set \<Rightarrow> bool" where
  "link o_d r made got \<longleftrightarrow>
     rb_wf r \<and> num_items r = 32 \<and> newest r = seq (int (length made) - 1)
   \<and> (\<forall>n < length made. is_reliable o_d n (made ! n))
   \<and> (\<forall>i pp. rb_get r i = Some pp \<longrightarrow>
        (\<exists>n < length made. length made \<le> n + 32 \<and> i = seq (int n) \<and> pending_packet pp = made ! n))
   \<and> (\<forall>n < length made. n + 32 < length made \<or> rb_get r (seq (int n)) = None \<longrightarrow> n \<in> got)
   \<and> got \<subseteq> {..<length made}"

lemma linkD:
  assumes "link o_d r made got"
  shows "rb_wf r" "num_items r = 32" "newest r = seq (int (length made) - 1)"
    and "n < length made \<Longrightarrow> is_reliable o_d n (made ! n)"
    and "rb_get r i = Some pp \<Longrightarrow>
      \<exists>n < length made. length made \<le> n + 32 \<and> i = seq (int n) \<and> pending_packet pp = made ! n"
    and "n < length made \<Longrightarrow> n + 32 < length made \<or> rb_get r (seq (int n)) = None \<Longrightarrow> n \<in> got"
    and "got \<subseteq> {..<length made}" "finite got"
  using assms unfolding link_def by (blast intro: finite_subset [OF _ finite_lessThan])+

lemma link_fresh: "link o_d rb_default [] {}"
  by (simp add: link_def)

text \<open>What the window promises the receiver.\<close>

lemma link_may_arrive:
  assumes "link o_d r made got" "n < length made" "newest_of got \<le> int n + 95"
  shows "may_arrive got n"
  using linkD(6) [OF assms(1)] assms(2,3) by (auto simp: may_arrive_def)

lemma link_arrival: "link o_d r made got \<Longrightarrow> n < length made \<Longrightarrow> link o_d r made (insert n got)"
  by (auto simp: link_def)

section \<open>Flushing\<close>

text \<open>The packets \<open>flush_messages\<close> makes of the chunks.\<close>

definition new_packet :: "unit ring \<Rightarrow> packet ring \<Rightarrow> bool \<Rightarrow> nat \<Rightarrow> rval list \<Rightarrow> packet" where
  "new_packet rel ord o_d n msgs =
     \<lparr>ack = packet_ack_new (seq (int n)) rel ord, reliable = True, ordered = o_d, messages = msgs\<rparr>"

definition new_packets :: "unit ring \<Rightarrow> packet ring \<Rightarrow> bool \<Rightarrow> nat \<Rightarrow> rval list list \<Rightarrow> packet list" where
  "new_packets rel ord o_d n chunks = map2 (new_packet rel ord o_d) [n..<n + length chunks] chunks"

lemma new_packets_simps [simp]:
  "length (new_packets rel ord o_d n chunks) = length chunks"
  "k < length chunks \<Longrightarrow> new_packets rel ord o_d n chunks ! k = new_packet rel ord o_d (n + k) (chunks ! k)"
  "concat (map messages (new_packets rel ord o_d n chunks)) = concat chunks"
proof -
  show "concat (map messages (new_packets rel ord o_d n chunks)) = concat chunks"
    by (rule arg_cong [of _ _ concat], rule nth_equalityI) (simp_all add: new_packets_def new_packet_def)
qed (simp_all add: new_packets_def)

text \<open>Where a number of the old or of the new window lies.\<close>

lemma number_place:
  assumes "n < N" "N \<le> n + 32"
  shows "ahead (seq (int N - 1)) (seq (int n)) = N - 1 - n"
    and "\<not> (0 < ahead (seq (int n)) (seq (int N - 1)) \<and> ahead (seq (int n)) (seq (int N - 1)) \<le> 32)"
  using assms ahead_seq_diff [of "int n" "int N - 1"] ahead_seq_behind [of "int n" "int N - 1"]
    ahead_seq_diff [of "int N - 1" "int n"]
  by (cases "n = N - 1"; auto)+

lemma new_number_place: "k < 32 \<Longrightarrow> ahead (seq (int (N + k))) (seq (int N - 1)) = k + 1"
  using ahead_seq_diff [of "int N - 1" "int (N + k)"] by simp

lemma queued_old:
  assumes "link o_d r made got" "queued rel ord o_d s chunks r r'" "length chunks \<le> 32"
    and "n < length made" "length made \<le> n + 32"
  shows "rb_get r' (seq (int n)) = rb_get r (seq (int n))"
proof -
  have "\<not> (0 < ahead (seq (int n)) (newest r) \<and> ahead (seq (int n)) (newest r) \<le> length chunks)"
    using number_place(2) [OF assms(4,5)] linkD(3) [OF assms(1)] assms(3) by auto
  then show ?thesis using assms(2) unfolding queued_def by auto
qed

lemma queued_new:
  assumes "link o_d r made got" "queued rel ord o_d s chunks r r'" "length chunks \<le> 32"
    and "k < length chunks"
  shows "\<exists>pp. rb_get r' (seq (int (length made + k))) = Some pp
    \<and> pending_packet pp = new_packet rel ord o_d (length made + k) (chunks ! k)"
proof -
  have "ahead (seq (int (length made + k))) (newest r) = k + 1"
    using new_number_place [of k "length made"] linkD(3) [OF assms(1)] assms(3,4) by simp
  then show ?thesis
    using assms(2,4) unfolding queued_def by (simp add: new_pending_def new_packet_def)
qed

lemma seq_shift: "seq (int m - 1) + word_of_nat k = seq (int (m + k) - 1)"
proof -
  have "int (m + k) - 1 = (int m - 1) + int k" by simp
  then show ?thesis by (simp only: seq_add(1) seq_nat)
qed

text \<open>Nothing that was not received leaves the window.\<close>

lemma link_flush:
  assumes l: "link o_d r made got" and q: "queued rel ord o_d s chunks r r'"
    and wf: "rb_wf r'" and len: "length chunks \<le> 32"
  shows "link o_d r' (made @ new_packets rel ord o_d (length made) chunks) got"
proof -
  let ?N = "length made" and ?new = "new_packets rel ord o_d (length made) chunks"
  note L = linkD [OF l]
  have shape: "num_items r' = 32" "newest r' = seq (int (?N + length chunks) - 1)"
    using q L(2,3) seq_shift [of ?N "length chunks"] by (simp_all add: queued_def)
  have new: "(made @ ?new) ! (?N + k) = new_packet rel ord o_d (?N + k) (chunks ! k)" if "k < length chunks" for k
    using that by (simp add: nth_append)
  have rel: "is_reliable o_d n ((made @ ?new) ! n)" if n: "n < ?N + length chunks" for n
  proof (cases "n < ?N")
    case False
    then have "n = ?N + (n - ?N)" "n - ?N < length chunks" using n by simp_all
    then show ?thesis using new [of "n - ?N"]
      by (simp add: new_packet_def is_reliable_def packet_ack_new_def seq_nat)
  qed (use L(4) in \<open>simp add: nth_append\<close>)
  have held: "\<exists>n < ?N + length chunks. ?N + length chunks \<le> n + 32 \<and> i = seq (int n)
      \<and> pending_packet pp = (made @ ?new) ! n" if i: "rb_get r' i = Some pp" for i pp
  proof (cases "0 < ahead i (newest r) \<and> ahead i (newest r) \<le> length chunks")
    case True
    then obtain k where k: "ahead i (newest r) = Suc k" "k < length chunks" by (metis Suc_le_lessD gr0_conv_Suc)
    have "i = newest r + word_of_nat (Suc k)" unfolding k(1) [symmetric] by (simp add: ahead_def)
    also have "\<dots> = seq (int (?N + Suc k) - 1)" unfolding L(3) by (rule seq_shift)
    finally have i': "i = seq (int (?N + k))" by simp
    then show ?thesis
      using queued_new [OF l q len k(2)] i new [OF k(2)] k(2) len by (intro exI [of _ "?N + k"]) auto
  next
    case False
    then have "rb_get r i = Some pp" using i q unfolding queued_def by auto
    then obtain n where n: "n < ?N" "?N \<le> n + 32" "i = seq (int n)" "pending_packet pp = made ! n"
      using L(5) by blast
    have "ahead (newest r') i < 32"
      using i wf shape(1) ring.lookup_near [of r' i] by simp
    moreover have "ahead (newest r') i = ?N + length chunks - 1 - n"
      using n(1-3) len shape(2) ahead_seq_diff [of "int n" "int (?N + length chunks) - 1"] by simp
    ultimately show ?thesis using n by (intro exI [of _ n]) (auto simp: nth_append)
  qed
  have gone: "n \<in> got"
    if n: "n < ?N + length chunks" "n + 32 < ?N + length chunks \<or> rb_get r' (seq (int n)) = None" for n
  proof (rule ccontr)
    assume no: "n \<notin> got"
    show False
    proof (cases "n < ?N")
      case True
      then have old: "?N \<le> n + 32" "rb_get r (seq (int n)) \<noteq> None" using L(6) no not_le by blast+
      then have "rb_get r' (seq (int n)) \<noteq> None" using queued_old [OF l q len True] by simp
      then obtain pp where "rb_get r' (seq (int n)) = Some pp" by blast
      then obtain k where "k < ?N + length chunks" "?N + length chunks \<le> k + 32" "seq (int n) = seq (int k)"
        using held by blast
      then have "n = k" using seq_eq_near [of "int n" "int k"] True old(1) len by simp
      then show False using \<open>?N + length chunks \<le> k + 32\<close> \<open>rb_get r' (seq (int n)) \<noteq> None\<close> n(2) by simp
    next
      case False
      then obtain k where "n = ?N + k" "k < length chunks" using n(1) by (metis le_add_diff_inverse nat_add_left_cancel_less not_less)
      then show False using queued_new [OF l q len] n(2) len by fastforce
    qed
  qed
  show ?thesis
    unfolding link_def using wf shape rel held gone L(7) by (auto simp: subset_iff)
qed

section \<open>Acknowledgements\<close>

text \<open>
  \<open>truthful w bits m got\<close>: a bit field relative to packet \<open>m\<close> with number \<open>w\<close> names only
  packets that were received.
\<close>

definition truthful :: "u16 \<Rightarrow> u32 \<Rightarrow> int \<Rightarrow> nat set \<Rightarrow> bool" where
  "truthful w bits m got \<longleftrightarrow> w = seq m
     \<and> (\<forall>i < 32. bit bits i \<longrightarrow> int i \<le> m \<and> nat (m - int i) \<in> got)"

lemma truthful_mono: "truthful w bits m got \<Longrightarrow> got \<subseteq> got' \<Longrightarrow> truthful w bits m got'"
  by (auto simp: truthful_def)

lemma truthful_tracks:
  assumes t: "window.tracks r (newest_of got) a" and a: "\<And>k. a k \<noteq> None \<Longrightarrow> 0 \<le> k \<and> nat k \<in> got"
  shows "truthful (newest r) (ack_bits r) (newest_of got) got"
proof -
  have r: "rb_wf r" "num_items r = 32" "newest r = seq (newest_of got)"
    using t by (simp_all add: window.tracks_def)
  have "int i \<le> newest_of got \<and> nat (newest_of got - int i) \<in> got" if "i < 32" "bit (ack_bits r) i" for i
  proof -
    have "rb_get r (seq (newest_of got - int i)) \<noteq> None"
      using that(2) bit_ack_bits [OF r(1,2)] r(3) by (simp add: seq_add seq_nat)
    moreover have "rb_get r (seq (newest_of got - int i)) = a (newest_of got - int i)"
      using t that(1) by (simp add: window.tracks_def)
    ultimately show ?thesis using a [of "newest_of got - int i"] by simp
  qed
  then show ?thesis using r(3) by (simp add: truthful_def)
qed

text \<open>
  An acknowledgement that names only received packets, and is less than 65505 packets old,
  removes only received packets.
\<close>

lemma link_acknowledge:
  assumes l: "link o_d r made got" and t: "truthful w bits m got"
    and young: "int (length made) \<le> m + 65504"
  shows "link o_d (take_acked bits w r) made got"
proof -
  let ?N = "length made"
  note L = linkD [OF l]
  have "n \<in> got" if n: "n < ?N" "n + 32 < ?N \<or> rb_get (take_acked bits w r) (seq (int n)) = None" for n
  proof (cases "n + 32 < ?N \<or> rb_get r (seq (int n)) = None")
    case False
    then obtain i where i: "i < 32" "bit bits i" "w - word_of_nat i = seq (int n)"
      using n(2) by (auto simp: rb_get_take_acked [OF L(1)] split: if_splits)
    then have got: "int i \<le> m" "nat (m - int i) \<in> got" and w: "w = seq m" using t by (simp_all add: truthful_def)
    have "seq (m - int i) = seq (int n)" using i(3) w by (simp add: seq_add seq_nat)
    moreover have "nat (m - int i) < ?N" using got(2) L(7) by blast
    ultimately have "m - int i = int n"
      using i(1) young n(1) False got(1) by (intro seq_eq_near) auto
    then show ?thesis using got(2) by simp
  qed (use L(6) n(1) in blast)
  moreover have "\<exists>n < ?N. ?N \<le> n + 32 \<and> i = seq (int n) \<and> pending_packet pp = made ! n"
    if "rb_get (take_acked bits w r) i = Some pp" for i pp
    using that L(5) [of i pp] by (auto simp: rb_get_take_acked [OF L(1)] split: if_splits)
  ultimately show ?thesis unfolding link_def using L(1-4,7) by auto
qed

section \<open>A round of sending\<close>

definition same_packets :: "pending ring \<Rightarrow> pending ring \<Rightarrow> bool" where
  "same_packets r r' \<longleftrightarrow> same_shape r r'
     \<and> (\<forall>i. map_option pending_packet (rb_get r' i) = map_option pending_packet (rb_get r i))"

lemma link_same_packets:
  assumes "link o_d r made got" "same_packets r r'"
  shows "link o_d r' made got"
proof -
  note L = linkD [OF assms(1)]
  have get: "map_option pending_packet (rb_get r' i) = map_option pending_packet (rb_get r i)" for i
    using assms(2) by (simp add: same_packets_def)
  have none: "rb_get r' i = None \<longleftrightarrow> rb_get r i = None" for i
    using get [of i] by (metis option.map_disc_iff)
  have "\<exists>n < length made. length made \<le> n + 32 \<and> i = seq (int n) \<and> pending_packet pp = made ! n"
    if pp: "rb_get r' i = Some pp" for i pp
  proof -
    obtain pp' where "rb_get r i = Some pp'" "pending_packet pp' = pending_packet pp"
      using get [of i] pp by (auto simp: map_option_case split: option.splits)
    then show ?thesis using L(5) [of i pp'] by simp
  qed
  then show ?thesis
    using assms(2) L same_shape_wf [of r r'] unfolding link_def none same_packets_def same_shape_def by auto
qed

end
