(* ===== verification/Patience.thy ===== *)
theory Patience
  imports Link
begin

text \<open>
  \<open>send_packets\<close> and \<open>flush_messages\<close> of \<open>communicator/inner.rs\<close> as steps of the sliding
  window: what becomes of the caches, which packets are made and what acknowledgement they
  carry. A packet is given up when its last permitted send is used; a connection is patient
  when none is that close.
\<close>

section \<open>Resending without giving up\<close>

lemma retain_list_keeps:
  assumes "\<forall>(i, v) \<in> set es. Q i v" "S s"
    and "\<And>i v s. Q i v \<Longrightarrow> S s \<Longrightarrow> \<exists>v' s'. f i v s = Some (True, v', s') \<and> S s' \<and> g v' = g v"
  shows "\<exists>es' s'. retain_list f es s = Some (es', s') \<and> map (apsnd g) es' = map (apsnd g) es"
  using assms(1,2)
proof (induction es arbitrary: s)
  case (Cons e es)
  obtain i v where e: "e = (i, v)" by (cases e)
  obtain v' s' where "f i v s = Some (True, v', s')" "S s'" "g v' = g v"
    using assms(3) [of i v s] Cons.prems e by auto
  then show ?case using Cons.IH [of s'] Cons.prems e by fastforce
qed simp

lemma rb_get_entries:
  assumes "rb_wf r" "same_shape r r'" "map (apsnd g) (rb_entries r') = map (apsnd g) (rb_entries r)"
  shows "map_option g (rb_get r' i) = map_option g (rb_get r i)"
proof -
  have "map_option g (map_of es i) = map_of (map (apsnd g) es) i" for es :: "(u16 \<times> 'a) list"
    by (induction es) auto
  moreover have "rb_wf r'" using assms(1,2) same_shape_wf by blast
  ultimately show ?thesis
    using assms(3) map_of_rb_entries [OF assms(1), of i] map_of_rb_entries [of r' i] by metis
qed

text \<open>No packet in the cache is one send away from being given up.\<close>

definition patient :: "pending ring \<Rightarrow> bool" where
  "patient r \<longleftrightarrow> (\<forall>i pp. rb_get r i = Some pp \<longrightarrow> 2 \<le> remaining_retries pp)"

lemma resend_patient:
  assumes "lawful_repr d" "packet_ok d (pending_packet pp)" "2 \<le> remaining_retries pp"
    and "length (data_buffer s) = MAX_PACKET_LEN"
  shows "\<exists>pp' s' a'. resend_if_needed env d crc addr pp (s, a) = Some (True, pp', s', a')
    \<and> length (data_buffer s') = MAX_PACKET_LEN \<and> pending_packet pp' = pending_packet pp"
proof (cases "due pp s")
  case False
  then show ?thesis using assms(4) by (simp add: resend_not_due now_def)
next
  case True
  let ?s = "snd (now (snd (now s)))" and ?f = "frame d crc (pending_packet pp)"
  have "length ?f \<le> length (data_buffer ?s)"
    using length_frame_le [OF assms(1,2)] assms(4) by (simp add: now_def)
  then have "length (data_buffer (snd (transmitted addr ?f ?s))) = MAX_PACKET_LEN"
    using emits_buffer [OF emits_transmitted, of d crc "pending_packet pp" ?s addr] assms(4)
    by (simp add: now_def)
  then show ?thesis
    using resend_due [OF assms(1,2,4) True] assms(3) by (auto split: prod.splits)
qed

lemma retain_patient:
  assumes "lawful_repr d" "cache_ok d o_d r" "patient r" "length (data_buffer s) = MAX_PACKET_LEN"
    and ret: "rb_retain (\<lambda>_. resend_if_needed env d crc addr) r (s, a) = Some (r', st)"
  shows "same_packets r r'"
proof -
  let ?Q = "\<lambda>i pp. packet_ok d (pending_packet pp) \<and> 2 \<le> remaining_retries pp"
  have wf: "rb_wf r" using assms(2) by (simp add: cache_ok_def)
  have "\<forall>(i, v) \<in> set (rb_entries r). ?Q i v"
    using rb_entries_get [OF wf] assms(2,3) by (fastforce simp: cache_ok_def pending_ok_def patient_def)
  moreover have "\<exists>v' st'. resend_if_needed env d crc addr v st = Some (True, v', st')
      \<and> length (data_buffer (fst st')) = MAX_PACKET_LEN \<and> pending_packet v' = pending_packet v"
    if "?Q i v" "length (data_buffer (fst st)) = MAX_PACKET_LEN" for i v st
    using that resend_patient [OF assms(1), of v "fst st" env crc addr "snd st"] by auto
  ultimately have "\<exists>es' s'. retain_list (\<lambda>_. resend_if_needed env d crc addr) (rb_entries r) (s, a) = Some (es', s')
      \<and> map (apsnd pending_packet) es' = map (apsnd pending_packet) (rb_entries r)"
    using assms(4) by (intro retain_list_keeps [where Q = ?Q and S = "\<lambda>st. length (data_buffer (fst st)) = MAX_PACKET_LEN"]) auto
  then have "map (apsnd pending_packet) (rb_entries r') = map (apsnd pending_packet) (rb_entries r)"
    "same_shape r r'"
    using rb_retain_cases(2) [OF wf ret] by auto
  then show ?thesis
    using rb_get_entries [OF wf, of r' pending_packet] by (simp add: same_packets_def)
qed

text \<open>What a round of \<open>send_packets\<close> leaves behind.\<close>

definition same_recv :: "inner \<Rightarrow> inner \<Rightarrow> bool" where
  "same_recv c c' \<longleftrightarrow> reliable_received_packets c' = reliable_received_packets c
     \<and> reliable_ordered_received_packets c' = reliable_ordered_received_packets c
     \<and> ordered_read_packet_head c' = ordered_read_packet_head c
     \<and> unordered_recv_queue c' = unordered_recv_queue c \<and> ordered_recv_queue c' = ordered_recv_queue c"

definition sent_round :: "inner \<Rightarrow> inner \<Rightarrow> bool" where
  "sent_round c c' \<longleftrightarrow>
     same_packets (reliable_send_packets c) (reliable_send_packets c')
   \<and> same_packets (reliable_ordered_send_packets c) (reliable_ordered_send_packets c')
   \<and> reliable_send_queue c' = reliable_send_queue c
   \<and> reliable_ordered_send_queue c' = reliable_ordered_send_queue c
   \<and> same_recv c c'"

lemma send_packets_patient:
  assumes "lawful_repr (SEND ctx)" "inner_ok (SEND ctx) c" "length (data_buffer s) = MAX_PACKET_LEN"
    and "patient (reliable_send_packets c)" "patient (reliable_ordered_send_packets c)"
    and "send_packets env ctx addr c s = Returns (e, c', s')"
  shows "sent_round c c'"
proof -
  let ?f = "\<lambda>_. resend_if_needed env (SEND ctx) (CRC env ctx) addr"
  let ?u = "reliable_send_packets c" and ?o = "reliable_ordered_send_packets c"
  have ok: "cache_ok (SEND ctx) False ?u" "cache_ok (SEND ctx) True ?o"
    using assms(2) by (simp_all add: inner_ok_def)
  obtain r1 s1 a1 where r1: "rb_retain ?f ?u (s, False) = Some (r1, s1, a1)"
      "emits (SEND ctx) (CRC env ctx) addr (cached ?u) s s1"
    using retain_resend_ok [OF assms(1) ok(1) assms(3)] by blast
  have "length (data_buffer s1) = MAX_PACKET_LEN" using emits_buffer [OF r1(2)] assms(3) by simp
  moreover from this obtain r2 st2 where r2: "rb_retain ?f ?o (s1, a1) = Some (r2, st2)"
    using retain_resend_ok [OF assms(1) ok(2)] by blast
  ultimately have "same_packets ?u r1" "same_packets ?o r2"
    using retain_patient [OF assms(1) ok(1) assms(4,3) r1(1)] retain_patient [OF assms(1) ok(2) assms(5) _ r2]
    by simp_all
  moreover have "reliable_send_packets c' = r1 \<and> reliable_ordered_send_packets c' = r2
      \<and> reliable_send_queue c' = reliable_send_queue c
      \<and> reliable_ordered_send_queue c' = reliable_ordered_send_queue c \<and> same_recv c c'"
    using assms(6) r1(1) r2
    by (auto simp: send_packets_def same_recv_def Let_def outcome_bind_Returns or_panic_Returns now_def split: if_splits)
  ultimately show ?thesis by (simp add: sent_round_def)
qed

section \<open>Making packets\<close>

text \<open>
  What \<open>flush_messages\<close> leaves behind: the chunks of the three queues are packets now, and
  nothing else has changed.
\<close>

definition flushed_round :: "inner \<Rightarrow> rval list list \<Rightarrow> rval list list \<Rightarrow> rval list list \<Rightarrow> inner \<Rightarrow> bool" where
  "flushed_round c us os ns c' \<longleftrightarrow>
     reliable_send_queue c = concat us @ reliable_send_queue c'
   \<and> reliable_ordered_send_queue c = concat os @ reliable_ordered_send_queue c'
   \<and> unreliable_send_queue c = concat ns
   \<and> length us \<le> 32 \<and> length os \<le> 32
   \<and> unreliable_send_packets c' = unreliable_send_packets c @ map2 (unreliable_packet c) [0..<length ns] ns
   \<and> same_recv c c'"

definition queued_both :: "inner \<Rightarrow> udp_socket \<Rightarrow> rval list list \<Rightarrow> rval list list \<Rightarrow> inner \<Rightarrow> bool" where
  "queued_both c s us os c' \<longleftrightarrow>
     queued (reliable_received_packets c) (reliable_ordered_received_packets c) False s us
       (reliable_send_packets c) (reliable_send_packets c')
   \<and> (\<exists>s1. same_config s s1 \<and> queued (reliable_received_packets c) (reliable_ordered_received_packets c)
       True s1 os (reliable_ordered_send_packets c) (reliable_ordered_send_packets c'))"

lemma flush_messages_made:
  assumes "inner_ok (SEND ctx) c" "config_ok s"
    and "\<forall>m \<in> set (unreliable_send_queue c). byte_len (SEND ctx) m \<le> MAX_PACKET_DATA_LEN"
  shows "\<exists>c' s' us os ns. flush_messages ctx c s = Returns (c', s') \<and> queued_both c s us os c'
    \<and> flushed_round c us os ns c' \<and> same_config s s'"
proof -
  let ?d = "SEND ctx" and ?rel = "reliable_received_packets c"
  let ?ord = "reliable_ordered_received_packets c"
  note ok = assms(1) [unfolded inner_ok_def]
  obtain us r1 q1 s1 where f1: "flush_loop ?d ?rel ?ord False (reliable_send_packets c)
        (reliable_send_queue c) s = Some (r1, q1, s1)" "queued ?rel ?ord False s us (reliable_send_packets c) r1"
      "flushed ?d (reliable_send_queue c) us q1 r1" "length us + rb_len (reliable_send_packets c) \<le> 32"
      "same_config s s1"
    using flush_loop_cache [of ?d False "reliable_send_packets c" "reliable_send_queue c" s ?rel ?ord]
      ok assms(2) by auto
  obtain os r2 q2 s2 where f2: "flush_loop ?d ?rel ?ord True (reliable_ordered_send_packets c)
        (reliable_ordered_send_queue c) s1 = Some (r2, q2, s2)"
      "queued ?rel ?ord True s1 os (reliable_ordered_send_packets c) r2"
      "flushed ?d (reliable_ordered_send_queue c) os q2 r2"
      "length os + rb_len (reliable_ordered_send_packets c) \<le> 32" "same_config s1 s2"
    using flush_loop_cache [of ?d True "reliable_ordered_send_packets c" "reliable_ordered_send_queue c" s1 ?rel ?ord]
      ok assms(2) config_ok_same [OF f1(5)] by auto
  let ?c = "c\<lparr>reliable_send_packets := r1, reliable_send_queue := q1,
             reliable_ordered_send_packets := r2, reliable_ordered_send_queue := q2\<rparr>"
  obtain ns where f3: "flush_unreliable ?d ?c = Some (with_packets ?c ns)"
      "concat ns = unreliable_send_queue c"
    using flush_unreliable_ok [of ?c ?d] assms(3) by auto
  have "unreliable_packet ?c = unreliable_packet c" by (intro ext) (simp add: unreliable_packet_def)
  then have "flushed_round c us os ns (with_packets ?c ns)"
    using f1(3,4) f2(3,4) f3(2) by (simp add: flushed_round_def flushed_def with_packets_def same_recv_def)
  moreover have "queued_both c s us os (with_packets ?c ns)"
    using f1(2,5) f2(2) by (auto simp: queued_both_def with_packets_def)
  moreover have "flush_messages ctx c s = Returns (with_packets ?c ns, s2)"
    using f1(1) f2(1) f3(1) by (simp add: flush_messages_def)
  ultimately show ?thesis using same_config_trans [OF f1(5) f2(5)] by blast
qed

lemma patient_queued:
  assumes "patient r" "queued rel ord o_d s chunks r r'"
    and "2 \<le> max_reliable_ordered_retries s" "2 \<le> max_reliable_unordered_retries s"
  shows "patient r'"
  using assms unfolding patient_def queued_def by (auto simp: new_pending_def split: if_splits)

end
