(* ===== verification/System.thy ===== *)
theory System
  imports Patience Runs Communicator
begin

text \<open>
  Two peers and the network between them. Each peer is a \<open>UdpCommunicator\<close> on which its
  application calls the methods of \<open>communicator/mod.rs\<close>; the network loses, repeats, reorders
  and delays datagrams. Beside the state of the program an endpoint records what happened:
  the packets it made, those that arrived, the messages written and read. No operation looks
  at the record; the theorems about the system compare it with the state.
\<close>

section \<open>Endpoints\<close>

datatype kind = KUnreliable | KUnordered | KOrdered

text \<open>A packet, and the newest packets that had arrived when its acknowledgement was made.\<close>

record sent =
  sent_packet :: packet
  knew_unordered :: int
  knew_ordered :: int

record endpoint =
  device :: communicator
  made :: "kind \<Rightarrow> sent list"
  got :: "kind \<Rightarrow> nat set"
  written :: "kind \<Rightarrow> rval list"
  heard :: "rval list"
  unordered_log :: "rval list"
  ordered_log :: "rval list"

abbreviation conn :: "endpoint \<Rightarrow> inner" where
  "conn x \<equiv> com_inner (device x)"

abbreviation packets :: "endpoint \<Rightarrow> kind \<Rightarrow> packet list" where
  "packets x k \<equiv> map sent_packet (made x k)"

definition start :: "communicator \<Rightarrow> endpoint" where
  "start com = \<lparr>device = com, made = (\<lambda>_. []), got = (\<lambda>_. {}), written = (\<lambda>_. []), heard = [],
     unordered_log = [], ordered_log = []\<rparr>"

definition stamp :: "endpoint \<Rightarrow> packet \<Rightarrow> sent" where
  "stamp x p = \<lparr>sent_packet = p, knew_unordered = newest_of (got x KUnordered),
     knew_ordered = newest_of (got x KOrdered)\<rparr>"

section \<open>Sending\<close>

text \<open>The first lines of \<open>send\<close>: the heartbeat that answers a duplicate.\<close>

definition prepared :: "inner \<Rightarrow> inner" where
  "prepared c =
     (if received_packet_duplicate c \<and> reliable_send_queue c = []
        \<and> reliable_ordered_send_queue c = [] \<and> unreliable_send_queue c = []
      then inner_write_heartbeat c else c)\<lparr>received_packet_duplicate := False\<rparr>"

lemma inner_send_prepared:
  "inner_send env ctx addr c s =
   outcome_bind (flush_messages ctx (prepared c) s) (\<lambda>(c', s'). send_packets env ctx addr c' s')"
  by (simp add: inner_send_def prepared_def Let_def)

text \<open>The packets a call of \<open>send\<close> makes: those in the caches under the numbers after the newest.\<close>

definition fresh_packets :: "pending ring \<Rightarrow> pending ring \<Rightarrow> packet list" where
  "fresh_packets r r' =
     map (\<lambda>k. pending_packet (the (rb_get r' (newest r + 1 + word_of_nat k)))) [0..<ahead (newest r') (newest r)]"

fun fresh_of :: "inner \<Rightarrow> inner \<Rightarrow> kind \<Rightarrow> packet list" where
  "fresh_of c c' KUnreliable = drop (length (unreliable_send_packets c)) (unreliable_send_packets c')"
| "fresh_of c c' KUnordered = fresh_packets (reliable_send_packets c) (reliable_send_packets c')"
| "fresh_of c c' KOrdered = fresh_packets (reliable_ordered_send_packets c) (reliable_ordered_send_packets c')"

definition made_by_send :: "udp_context \<Rightarrow> communicator \<Rightarrow> kind \<Rightarrow> packet list" where
  "made_by_send ctx com k =
     (case flush_messages ctx (prepared (com_inner com)) (com_socket com) of
        Returns (c', _) \<Rightarrow> fresh_of (com_inner com) c' k
      | _ \<Rightarrow> [])"

text \<open>No packet is about to be given up.\<close>

definition patient_com :: "communicator \<Rightarrow> bool" where
  "patient_com com \<longleftrightarrow> patient (reliable_send_packets (com_inner com))
     \<and> patient (reliable_ordered_send_packets (com_inner com))
     \<and> 2 \<le> max_reliable_unordered_retries (com_socket com)
     \<and> 2 \<le> max_reliable_ordered_retries (com_socket com)"

section \<open>The network\<close>

text \<open>A datagram in transit is named by the packet it was made from.\<close>

type_synonym datagram = "kind \<times> nat"

definition packet_of :: "endpoint \<Rightarrow> datagram \<Rightarrow> packet" where
  "packet_of y d = packets y (fst d) ! snd d"

definition mark :: "endpoint \<Rightarrow> datagram \<Rightarrow> endpoint \<Rightarrow> endpoint" where
  "mark y d x = x\<lparr>got := (got x)(fst d := insert (snd d) (got x (fst d))),
     heard := heard x @ (if fst d = KUnreliable then messages (packet_of y d) else [])\<rparr>"

text \<open>
  What the network may deliver, of the packets the peer made: no reliable packet that is more
  than 95 behind the newest received, and no acknowledgement that is more than 65504 packets
  old. It may deliver any of them any number of times, in any order, or never.
\<close>

definition recent :: "endpoint \<Rightarrow> sent \<Rightarrow> bool" where
  "recent x p \<longleftrightarrow> int (length (made x KUnordered)) \<le> knew_unordered p + 65504
     \<and> int (length (made x KOrdered)) \<le> knew_ordered p + 65504"

definition deliverable_now :: "endpoint \<Rightarrow> datagram \<Rightarrow> endpoint \<Rightarrow> bool" where
  "deliverable_now y d x \<longleftrightarrow> snd d < length (made y (fst d))
     \<and> (fst d = KUnreliable \<or> newest_of (got x (fst d)) \<le> int (snd d) + 95)
     \<and> recent x (made y (fst d) ! snd d)"

fun timely :: "endpoint \<Rightarrow> datagram list \<Rightarrow> endpoint \<Rightarrow> bool" where
  "timely y [] x = True"
| "timely y (d # ds) x = (deliverable_now y d x \<and> timely y ds (mark y d x))"

text \<open>The operating system is in any state when a method is called.\<close>

definition on_os :: "os \<Rightarrow> communicator \<Rightarrow> communicator" where
  "on_os o_s com = com\<lparr>com_socket := (com_socket com)\<lparr>os_socket := o_s\<rparr>\<rparr>"

definition arrived :: "crate_env \<Rightarrow> udp_context \<Rightarrow> endpoint \<Rightarrow> datagram list \<Rightarrow> os \<Rightarrow> bool" where
  "arrived env ctx y ds o_s \<longleftrightarrow> (\<exists>addrs. length addrs = length ds \<and>
     inbox o_s = map (\<lambda>(a, d). Some (a, frame (RECV ctx) (CRC env ctx) (packet_of y d))) (zip addrs ds))"

section \<open>Steps\<close>

text \<open>What an application may write: messages that fit a packet, into a queue of less than \<open>2 ^ 32\<close>.\<close>

definition may_write :: "udp_context \<Rightarrow> rval \<Rightarrow> rval list \<Rightarrow> bool" where
  "may_write ctx m q \<longleftrightarrow> self_type (SEND ctx) m \<and> byte_len (SEND ctx) m \<le> MAX_PACKET_DATA_LEN
     \<and> Suc (length q) < 2 ^ 32"

fun as_list :: "'m option \<Rightarrow> 'm list" where
  "as_list None = []"
| "as_list (Some m) = [m]"

inductive act :: "crate_env \<Rightarrow> udp_context \<Rightarrow> endpoint \<Rightarrow> endpoint \<Rightarrow> endpoint \<Rightarrow> bool"
  for env ctx y
where
  call_write: "may_write ctx m (unreliable_send_queue (conn x)) \<Longrightarrow>
    act env ctx y x (x\<lparr>device := com_write m (device x),
      written := (written x)(KUnreliable := written x KUnreliable @ [m])\<rparr>)"
| call_write_reliable: "may_write ctx m (reliable_send_queue (conn x)) \<Longrightarrow>
    act env ctx y x (x\<lparr>device := com_write_reliable m (device x),
      written := (written x)(KUnordered := written x KUnordered @ [m])\<rparr>)"
| call_write_ordered: "may_write ctx m (reliable_ordered_send_queue (conn x)) \<Longrightarrow>
    act env ctx y x (x\<lparr>device := com_write_ordered m (device x),
      written := (written x)(KOrdered := written x KOrdered @ [m])\<rparr>)"
| call_write_heartbeat: "com = com_write_heartbeat (device x) \<Longrightarrow>
    act env ctx y x (x\<lparr>device := com, made := (made x)(KUnreliable := made x KUnreliable @
      [stamp x (last (unreliable_send_packets (com_inner com)))])\<rparr>)"
| call_read: "com_read (device x) = (m, com) \<Longrightarrow>
    act env ctx y x (x\<lparr>device := com, unordered_log := unordered_log x @ as_list m\<rparr>)"
| call_read_ordered: "com_read_ordered (device x) = (m, com) \<Longrightarrow>
    act env ctx y x (x\<lparr>device := com, ordered_log := ordered_log x @ as_list m\<rparr>)"
| call_send: "patient_com (device x) \<Longrightarrow> com_send env ctx (on_os o_s (device x)) = Returns (e, com) \<Longrightarrow>
    act env ctx y x (x\<lparr>device := com,
      made := (\<lambda>k. made x k @ map (stamp x) (made_by_send ctx (on_os o_s (device x)) k))\<rparr>)"
| call_recv: "timely y ds x \<Longrightarrow> arrived env ctx y ds o_s \<Longrightarrow>
    com_recv env ctx (on_os o_s (device x)) = Returns com \<Longrightarrow>
    act env ctx y x ((fold (mark y) ds x)\<lparr>device := com\<rparr>)"

text \<open>A communicator that was just bound and configured.\<close>

definition newly_bound :: "communicator \<Rightarrow> bool" where
  "newly_bound com \<longleftrightarrow> config_ok (com_socket com) \<and> (\<exists>s. com_inner com = fst (inner_default s))"

text \<open>The peers encode with the contexts \<open>ctx\<close> and \<open>REVERSE ctx\<close>.\<close>

inductive reachable :: "crate_env \<Rightarrow> udp_context \<Rightarrow> endpoint \<Rightarrow> endpoint \<Rightarrow> bool" for env ctx where
  init: "newly_bound a \<Longrightarrow> newly_bound b \<Longrightarrow> reachable env ctx (start a) (start b)"
| left: "reachable env ctx x y \<Longrightarrow> act env ctx y x x' \<Longrightarrow> reachable env ctx x' y"
| right: "reachable env ctx x y \<Longrightarrow> act env (REVERSE ctx) x y y' \<Longrightarrow> reachable env ctx x y'"

end
