(* ===== verification/SystemInv.thy ===== *)
theory SystemInv
  imports System
begin

text \<open>
  The invariant of two peers: each direction of each kind of reliable packets is a sliding
  window (\<open>Link\<close>), the receiving halves are in the states \<open>Delivery\<close> describes, every
  acknowledgement in transit is truthful, and the messages written are accounted for. The
  theory proves that every operation of either application keeps it.
\<close>

section \<open>The invariant\<close>

fun send_cache :: "kind \<Rightarrow> inner \<Rightarrow> pending ring" where
  "send_cache KOrdered c = reliable_ordered_send_packets c"
| "send_cache k c = reliable_send_packets c"

fun send_queue :: "kind \<Rightarrow> inner \<Rightarrow> rval list" where
  "send_queue KOrdered c = reliable_ordered_send_queue c"
| "send_queue k c = reliable_send_queue c"

definition sender_ok :: "kind \<Rightarrow> endpoint \<Rightarrow> nat set \<Rightarrow> bool" where
  "sender_ok k x g \<longleftrightarrow> link (k = KOrdered) (send_cache k (conn x)) (packets x k) g
     \<and> concat (map messages (packets x k)) @ send_queue k (conn x) = written x k"

definition delivered_once :: "packet list \<Rightarrow> nat set \<Rightarrow> rval multiset" where
  "delivered_once ps g = (\<Sum>n \<in> g. mset (messages (ps ! n)))"

definition receiver_ok :: "endpoint \<Rightarrow> (kind \<Rightarrow> packet list) \<Rightarrow> bool" where
  "receiver_ok y ps \<longleftrightarrow>
     unordered_state (got y KUnordered) (conn y)
   \<and> ordered_state (\<lambda>n. ps KOrdered ! n) (got y KOrdered) (conn y)
   \<and> ordered_log y @ ordered_recv_queue (conn y) =
       concat (map messages (take (first_missing (got y KOrdered)) (ps KOrdered)))
   \<and> mset (unordered_log y @ unordered_recv_queue (conn y)) =
       delivered_once (ps KUnordered) (got y KUnordered) + mset (heard y)
   \<and> set (heard y) \<subseteq> set (concat (map messages (ps KUnreliable)))"

definition honest :: "(kind \<Rightarrow> nat set) \<Rightarrow> sent \<Rightarrow> bool" where
  "honest g p \<longleftrightarrow> (let a = ack (sent_packet p) in
     truthful (reliable_newest_received a) (reliable_ack_bits a) (knew_unordered p) (g KUnordered)
   \<and> truthful (ordered_newest_received a) (ordered_ack_bits a) (knew_ordered p) (g KOrdered))"

definition endpoint_ok :: "udp_context \<Rightarrow> endpoint \<Rightarrow> bool" where
  "endpoint_ok ctx x \<longleftrightarrow> inner_ok (SEND ctx) (conn x) \<and> config_ok (com_socket (device x))
     \<and> (\<forall>m \<in> set (unreliable_send_queue (conn x)). byte_len (SEND ctx) m \<le> MAX_PACKET_DATA_LEN)
     \<and> (\<forall>k. \<forall>p \<in> set (made x k). honest (got x) p \<and> packet_ok (SEND ctx) (sent_packet p))
     \<and> (\<forall>p \<in> set (packets x KUnreliable). \<not> reliable p)
     \<and> set (unreliable_send_packets (conn x)) \<subseteq> set (packets x KUnreliable)
     \<and> concat (map messages (packets x KUnreliable)) @ unreliable_send_queue (conn x) = written x KUnreliable"

definition one_way :: "endpoint \<Rightarrow> endpoint \<Rightarrow> bool" where
  "one_way x y \<longleftrightarrow> sender_ok KUnordered x (got y KUnordered) \<and> sender_ok KOrdered x (got y KOrdered)
     \<and> receiver_ok y (packets x)"

definition system_ok :: "udp_context \<Rightarrow> endpoint \<Rightarrow> endpoint \<Rightarrow> bool" where
  "system_ok ctx x y \<longleftrightarrow> one_way x y \<and> one_way y x \<and> endpoint_ok ctx x \<and> endpoint_ok (REVERSE ctx) y"

lemma REVERSE_REVERSE [simp]: "REVERSE (REVERSE ctx) = ctx"
  by (simp add: REVERSE_def)

lemma system_ok_swap: "system_ok ctx x y \<longleftrightarrow> system_ok (REVERSE ctx) y x"
  by (auto simp: system_ok_def)

lemma system_ok_start:
  assumes "newly_bound a" "newly_bound b"
  shows "system_ok ctx (start a) (start b)"
proof -
  obtain s t where c: "com_inner a = fst (inner_default s)" "com_inner b = fst (inner_default t)"
    using assms by (auto simp: newly_bound_def)
  have way: "one_way (start a) (start b)" if "com_inner a = fst (inner_default s)" "com_inner b = fst (inner_default t)"
    for a b s t
    using that fresh_states(1) [of t] fresh_states(2) [where s = t] link_fresh
    by (simp add: one_way_def sender_ok_def receiver_ok_def start_def delivered_once_def inner_default_def now_def)
  have ok: "endpoint_ok ctx (start a)" if "com_inner a = fst (inner_default s)" "config_ok (com_socket a)" for ctx a s
    using that inner_ok_default [of "SEND ctx" s]
    by (simp add: endpoint_ok_def start_def) (simp add: inner_default_def now_def)
  show ?thesis using way c ok assms by (auto simp: system_ok_def newly_bound_def)
qed

section \<open>Writing and reading\<close>

text \<open>An operation that leaves the caches, the queues and the record alone.\<close>

definition appends :: "endpoint \<Rightarrow> kind \<Rightarrow> rval list \<Rightarrow> endpoint \<Rightarrow> bool" where
  "appends x k ms x' \<longleftrightarrow> send_cache k (conn x') = send_cache k (conn x)
     \<and> written x' k = written x k @ ms \<and> send_queue k (conn x') = send_queue k (conn x) @ ms"

definition same_receiver :: "endpoint \<Rightarrow> endpoint \<Rightarrow> bool" where
  "same_receiver x x' \<longleftrightarrow> got x' = got x \<and> heard x' = heard x
     \<and> reliable_received_packets (conn x') = reliable_received_packets (conn x)
     \<and> reliable_ordered_received_packets (conn x') = reliable_ordered_received_packets (conn x)
     \<and> ordered_read_packet_head (conn x') = ordered_read_packet_head (conn x)
     \<and> unordered_log x' @ unordered_recv_queue (conn x') = unordered_log x @ unordered_recv_queue (conn x)
     \<and> ordered_log x' @ ordered_recv_queue (conn x') = ordered_log x @ ordered_recv_queue (conn x)"

lemma same_receiver_ok: "same_receiver x x' \<Longrightarrow> receiver_ok x' ps = receiver_ok x ps"
  by (simp only: same_receiver_def receiver_ok_def unordered_state_def ordered_state_def)

lemma appends_ok: "appends x k ms x' \<Longrightarrow> made x' = made x \<Longrightarrow> sender_ok k x g \<Longrightarrow> sender_ok k x' g"
  by (auto simp: appends_def sender_ok_def)

lemma call_ok:
  assumes "system_ok ctx x y" "made x' = made x" "appends x KUnordered ms x'" "appends x KOrdered ms' x'"
    and "same_receiver x x'" "com_socket (device x') = com_socket (device x)"
    and "inner_ok (SEND ctx) (conn x) \<Longrightarrow> inner_ok (SEND ctx) (conn x')"
    and "unreliable_send_queue (conn x') = unreliable_send_queue (conn x) @ ns"
    and "written x' KUnreliable = written x KUnreliable @ ns" "\<forall>m \<in> set ns. byte_len (SEND ctx) m \<le> MAX_PACKET_DATA_LEN"
    and "unreliable_send_packets (conn x') = unreliable_send_packets (conn x)"
  shows "system_ok ctx x' y"
proof -
  have "got x' = got x" using assms(5) by (simp add: same_receiver_def)
  then have "endpoint_ok ctx x'" using assms(1,2,6-11) by (auto simp: system_ok_def endpoint_ok_def simp flip: append_assoc)
  moreover have "one_way x' y"
    using assms(1-4) appends_ok [of x _ _ x'] by (auto simp: system_ok_def one_way_def)
  moreover have "one_way y x'"
    using assms(1,5) \<open>got x' = got x\<close> same_receiver_ok [of x x'] by (simp add: system_ok_def one_way_def)
  ultimately show ?thesis using assms(1) by (simp add: system_ok_def)
qed

lemmas call_defs = appends_def same_receiver_def inner_ok_def recv_rings_ok_def may_write_def queue_ok_def

lemma write_ok:
  assumes "system_ok ctx x y" "may_write ctx m (unreliable_send_queue (conn x))"
  shows "system_ok ctx (x\<lparr>device := com_write m (device x), written := (written x)(KUnreliable := written x KUnreliable @ [m])\<rparr>) y"
  using assms(2) by (intro call_ok [OF assms(1), where ms = "[]" and ms' = "[]" and ns = "[m]"])
    (simp_all add: call_defs com_write_def)

lemma write_reliable_ok:
  assumes "system_ok ctx x y" "may_write ctx m (reliable_send_queue (conn x))"
  shows "system_ok ctx (x\<lparr>device := com_write_reliable m (device x), written := (written x)(KUnordered := written x KUnordered @ [m])\<rparr>) y"
  using assms(2) by (intro call_ok [OF assms(1), where ms = "[m]" and ms' = "[]" and ns = "[]"])
    (simp_all add: call_defs com_write_reliable_def)

lemma write_ordered_ok:
  assumes "system_ok ctx x y" "may_write ctx m (reliable_ordered_send_queue (conn x))"
  shows "system_ok ctx (x\<lparr>device := com_write_ordered m (device x), written := (written x)(KOrdered := written x KOrdered @ [m])\<rparr>) y"
  using assms(2) by (intro call_ok [OF assms(1), where ms = "[]" and ms' = "[m]" and ns = "[]"])
    (simp_all add: call_defs com_write_ordered_def)

lemma pop_front_as_list: "pop_front q = (r, q') \<Longrightarrow> as_list r @ q' = q"
  by (cases q) auto

lemma read_ok:
  assumes "system_ok ctx x y" "com_read (device x) = (r, com)"
  shows "system_ok ctx (x\<lparr>device := com, unordered_log := unordered_log x @ as_list r\<rparr>) y"
proof -
  obtain q where "pop_front (unordered_recv_queue (conn x)) = (r, q)"
      "com = (device x)\<lparr>com_inner := (conn x)\<lparr>unordered_recv_queue := q\<rparr>\<rparr>"
    using assms(2) by (auto simp: com_read_def split: prod.splits)
  then show ?thesis using pop_front_as_list
    by (intro call_ok [OF assms(1), where ms = "[]" and ms' = "[]" and ns = "[]"]) (simp_all add: call_defs)
qed

lemma read_ordered_ok:
  assumes "system_ok ctx x y" "com_read_ordered (device x) = (r, com)"
  shows "system_ok ctx (x\<lparr>device := com, ordered_log := ordered_log x @ as_list r\<rparr>) y"
proof -
  obtain q where "pop_front (ordered_recv_queue (conn x)) = (r, q)"
      "com = (device x)\<lparr>com_inner := (conn x)\<lparr>ordered_recv_queue := q\<rparr>\<rparr>"
    using assms(2) by (auto simp: com_read_ordered_def split: prod.splits)
  then show ?thesis using pop_front_as_list
    by (intro call_ok [OF assms(1), where ms = "[]" and ms' = "[]" and ns = "[]"]) (simp_all add: call_defs)
qed

section \<open>Making packets\<close>

lemma honest_new:
  assumes "receiver_ok x ps"
    and "ack p = packet_ack_new sid (reliable_received_packets (conn x)) (reliable_ordered_received_packets (conn x))"
  shows "honest (got x) (stamp x p)"
proof -
  have t: "window.tracks (reliable_received_packets (conn x)) (newest_of (got x KUnordered)) (unordered_map (got x KUnordered))"
    "window.tracks (reliable_ordered_received_packets (conn x)) (newest_of (got x KOrdered))
      (ordered_map (\<lambda>n. ps KOrdered ! n) (got x KOrdered) (first_missing (got x KOrdered)))"
    using assms(1) by (simp_all add: receiver_ok_def unordered_state_def ordered_state_def)
  have "unordered_map g k \<noteq> None \<Longrightarrow> 0 \<le> k \<and> nat k \<in> g" "ordered_map s g h k \<noteq> None \<Longrightarrow> 0 \<le> k \<and> nat k \<in> g"
    for g s h k by (simp_all add: unordered_map_def ordered_map_def split: if_splits)
  then show ?thesis
    using truthful_tracks [OF t(1)] truthful_tracks [OF t(2)] assms(2)
    by (simp add: honest_def stamp_def packet_ack_new_def rb_newest_index_def)
qed

lemma honest_mono: "honest g p \<Longrightarrow> (\<And>k. g k \<subseteq> g' k) \<Longrightarrow> honest g' p"
  unfolding honest_def Let_def using truthful_mono by blast

lemma ordered_state_sent:
  assumes "\<And>n. n \<in> g \<Longrightarrow> sent n = sent' n"
  shows "ordered_state sent g c = ordered_state sent' g c"
proof -
  have "ordered_map sent g h = ordered_map sent' g h" for h
    using assms by (intro ext) (simp add: ordered_map_def)
  then show ?thesis by (simp add: ordered_state_def)
qed

lemma receiver_ok_extend:
  assumes "receiver_ok y ps" "got y KUnordered \<subseteq> {..<length (ps KUnordered)}"
    and "got y KOrdered \<subseteq> {..<length (ps KOrdered)}" "\<And>k. \<exists>zs. ps' k = ps k @ zs"
  shows "receiver_ok y ps'"
proof -
  have nth: "ps' k ! n = ps k ! n" if "n < length (ps k)" for k n
    using assms(4) [of k] that by (auto simp: nth_append)
  have "first_missing (got y KOrdered) \<le> length (ps KOrdered)"
    using below_first_missing [of "length (ps KOrdered)" "got y KOrdered"] assms(3) by fastforce
  then have "take (first_missing (got y KOrdered)) (ps' KOrdered) = take (first_missing (got y KOrdered)) (ps KOrdered)"
    using assms(4) [of KOrdered] by auto
  moreover have "delivered_once (ps' KUnordered) (got y KUnordered) = delivered_once (ps KUnordered) (got y KUnordered)"
    using assms(2) nth unfolding delivered_once_def by (intro sum.cong) auto
  moreover have "set (concat (map messages (ps KUnreliable))) \<subseteq> set (concat (map messages (ps' KUnreliable)))"
    using assms(4) [of KUnreliable] by auto
  moreover have "ordered_state (\<lambda>n. ps' KOrdered ! n) (got y KOrdered) c = ordered_state (\<lambda>n. ps KOrdered ! n) (got y KOrdered) c" for c
    using assms(3) nth by (intro ordered_state_sent) auto
  ultimately show ?thesis using assms(1) unfolding receiver_ok_def by (metis (no_types, lifting) order_trans)
qed

text \<open>The packets \<open>send\<close> takes to be made are those that \<open>flush_messages\<close> put into the cache.\<close>

lemma fresh_packets_queued:
  assumes "link o_d r ps g" "queued rel ord o_d s chunks r r'" "length chunks \<le> 32"
  shows "fresh_packets r r' = new_packets rel ord o_d (length ps) chunks"
proof -
  have "ahead (newest r') (newest r) = length chunks"
    using assms(2,3) by (simp add: queued_def ahead_def unat_of_nat)
  moreover have "pending_packet (the (rb_get r' (newest r + 1 + word_of_nat k))) = new_packet rel ord o_d (length ps + k) (chunks ! k)"
    if "k < length chunks" for k
  proof -
    have "newest r + 1 + word_of_nat k = seq (int (length ps + k))"
      using linkD(3) [OF assms(1)] by (simp add: seq_add seq_nat)
    then show ?thesis using queued_new [OF assms that] by auto
  qed
  ultimately show ?thesis
    unfolding fresh_packets_def by (intro nth_equalityI) simp_all
qed

lemma sender_ok_flush:
  assumes "sender_ok k x g" "k \<noteq> KUnreliable"
    and "queued rel ord (k = KOrdered) s chunks (send_cache k (conn x)) r" "length chunks \<le> 32" "rb_wf r"
    and "send_queue k (conn x) = concat chunks @ send_queue k (conn x')" "same_packets r (send_cache k (conn x'))"
    and "packets x' k = packets x k @ fresh_packets (send_cache k (conn x)) r" "written x' k = written x k"
  shows "sender_ok k x' g"
proof -
  let ?new = "new_packets rel ord (k = KOrdered) (length (packets x k)) chunks"
  have l: "link (k = KOrdered) (send_cache k (conn x)) (packets x k) g"
    "concat (map messages (packets x k)) @ send_queue k (conn x) = written x k"
    using assms(1) by (simp_all add: sender_ok_def)
  have new: "packets x' k = packets x k @ ?new"
    using assms(8) fresh_packets_queued [OF l(1) assms(3,4)] by simp
  have "link (k = KOrdered) (send_cache k (conn x')) (packets x k @ ?new) g"
    using link_same_packets [OF link_flush [OF l(1) assms(3,5,4)] assms(7)] .
  moreover have "concat (map messages (packets x' k)) @ send_queue k (conn x') = written x' k"
    using l(2) assms(6,9) unfolding new by simp
  ultimately show ?thesis unfolding sender_ok_def new by simp
qed

text \<open>The connection before \<open>flush_messages\<close>: at most one heartbeat more.\<close>

lemma prepared_simps [simp]:
  "reliable_send_packets (prepared c) = reliable_send_packets c"
  "reliable_ordered_send_packets (prepared c) = reliable_ordered_send_packets c"
  "reliable_send_queue (prepared c) = reliable_send_queue c"
  "reliable_ordered_send_queue (prepared c) = reliable_ordered_send_queue c"
  "unreliable_send_queue (prepared c) = unreliable_send_queue c"
  "reliable_received_packets (prepared c) = reliable_received_packets c"
  "reliable_ordered_received_packets (prepared c) = reliable_ordered_received_packets c"
  by (simp_all add: prepared_def inner_write_heartbeat_def Let_def)

lemma prepared_recv: "same_recv c (prepared c)"
  by (simp add: same_recv_def prepared_def inner_write_heartbeat_def Let_def)

lemma prepared_ok: "inner_ok d c \<Longrightarrow> inner_ok d (prepared c)"
  using heartbeat_ok [of d c] by (simp add: prepared_def)

text \<open>An unreliable packet made now: unreliable, and its acknowledgement is that of the caches.\<close>

definition made_now :: "inner \<Rightarrow> packet \<Rightarrow> bool" where
  "made_now c p \<longleftrightarrow> (\<exists>sid. ack p = packet_ack_new sid (reliable_received_packets c) (reliable_ordered_received_packets c))"

lemma heartbeat_packets:
  "\<exists>p. unreliable_send_packets (inner_write_heartbeat c) = unreliable_send_packets c @ [p]
    \<and> made_now c p \<and> \<not> reliable p \<and> messages p = [] \<and> packet_ok d p"
  by (auto simp: inner_write_heartbeat_def Let_def made_now_def heartbeat_def packet_ok_iff queue_ok_def)

lemma prepared_packets:
  "\<exists>hs. unreliable_send_packets (prepared c) = unreliable_send_packets c @ hs
    \<and> (\<forall>p \<in> set hs. made_now c p \<and> \<not> reliable p \<and> messages p = [])"
  using heartbeat_packets [of c d] by (auto simp: prepared_def)

lemma flushed_packets:
  assumes "flushed_round (prepared c) us os ns c'"
  shows "\<exists>ps. unreliable_send_packets c' = unreliable_send_packets c @ ps
    \<and> (\<forall>p \<in> set ps. made_now c p \<and> \<not> reliable p) \<and> concat (map messages ps) = unreliable_send_queue c"
proof -
  obtain hs where hs: "unreliable_send_packets (prepared c) = unreliable_send_packets c @ hs"
      "\<forall>p \<in> set hs. made_now c p \<and> \<not> reliable p \<and> messages p = []"
    using prepared_packets [of c] by blast
  let ?ns = "map2 (unreliable_packet (prepared c)) [0..<length ns] ns"
  have "unreliable_send_packets c' = unreliable_send_packets (prepared c) @ ?ns"
    using assms by (simp add: flushed_round_def)
  moreover have "made_now c p \<and> \<not> reliable p" if "p \<in> set ?ns" for p
    using that by (auto simp: made_now_def unreliable_packet_def set_zip)
  moreover have "map messages ?ns = ns"
    by (intro nth_equalityI) (simp_all add: unreliable_packet_def)
  moreover have "concat (map messages hs) = []" using hs(2) by simp
  ultimately show ?thesis using hs assms by (intro exI [of _ "hs @ ?ns"]) (auto simp: flushed_round_def)
qed

lemma new_packets_now:
  assumes "p \<in> set (new_packets (reliable_received_packets c) (reliable_ordered_received_packets c) o_d n chunks)"
  shows "made_now c p"
  using assms by (auto simp: new_packets_def set_zip new_packet_def made_now_def)

section \<open>send\<close>

definition send_rounds ::
  "crate_env \<Rightarrow> udp_context \<Rightarrow> communicator \<Rightarrow> inner \<Rightarrow> rval list list \<Rightarrow> rval list list \<Rightarrow> rval list list
     \<Rightarrow> communicator \<Rightarrow> bool"
where
  "send_rounds env ctx com c us os ns com' \<longleftrightarrow>
     flushed_round (prepared (com_inner com)) us os ns c
   \<and> queued_both (prepared (com_inner com)) (com_socket com) us os c
   \<and> made_by_send ctx com = fresh_of (com_inner com) c
   \<and> sent_round c (com_inner com') \<and> inner_ok (SEND ctx) c \<and> inner_ok (SEND ctx) (com_inner com')
   \<and> unreliable_send_queue (com_inner com') = [] \<and> unreliable_send_packets (com_inner com') = []
   \<and> emits (SEND ctx) (CRC env ctx) None (held c) (com_socket com) (com_socket com')"

lemma com_send_rounds:
  assumes "lawful_repr (SEND ctx)" "inner_ok (SEND ctx) (com_inner com)" "config_ok (com_socket com)"
    and "\<forall>m \<in> set (unreliable_send_queue (com_inner com)). byte_len (SEND ctx) m \<le> MAX_PACKET_DATA_LEN"
    and "patient_com com"
  shows "\<exists>c us os ns com'. com_send env ctx com = Returns (None, com') \<and> send_rounds env ctx com c us os ns com'"
proof -
  let ?c = "prepared (com_inner com)" and ?s = "com_socket com"
  have "inner_ok (SEND ctx) ?c" using assms(2) by (rule prepared_ok)
  moreover have q: "unreliable_send_queue ?c = unreliable_send_queue (com_inner com)" by simp
  ultimately obtain c s us os ns where fl: "flush_messages ctx ?c ?s = Returns (c, s)" "queued_both ?c ?s us os c"
      "flushed_round ?c us os ns c" "same_config ?s s"
    using flush_messages_made [of ctx ?c ?s] assms(3,4) by auto
  then have c: "inner_ok (SEND ctx) c" "unreliable_send_queue c = []" "outbox (os_socket s) = outbox (os_socket ?s)"
    using flush_messages_ok [of ctx ?c ?s] \<open>inner_ok (SEND ctx) ?c\<close> q assms(3,4) by auto
  have s: "config_ok s" using config_ok_same [OF fl(4) assms(3)] .
  obtain c' s' where sp: "send_packets env ctx None c s = Returns (None, c', s')" "inner_ok (SEND ctx) c'"
      "unreliable_send_packets c' = []" "unreliable_send_queue c' = []"
      "emits (SEND ctx) (CRC env ctx) None (held c) s s'"
    using send_packets_ok [OF assms(1) c(1) s, of env None] c(2) by auto
  note pat = assms(5) [unfolded patient_com_def]
  obtain s1 where q: "same_config ?s s1"
      "queued (reliable_received_packets ?c) (reliable_ordered_received_packets ?c)
        True s1 os (reliable_ordered_send_packets ?c) (reliable_ordered_send_packets c)"
      "queued (reliable_received_packets ?c) (reliable_ordered_received_packets ?c)
        False ?s us (reliable_send_packets ?c) (reliable_send_packets c)"
    using fl(2) by (auto simp: queued_both_def)
  have "patient (reliable_send_packets c)" using patient_queued [OF _ q(3)] pat by simp
  moreover have "patient (reliable_ordered_send_packets c)"
    using patient_queued [OF _ q(2)] q(1) pat by (simp add: same_config_def)
  ultimately have "sent_round c c'"
    using send_packets_patient [OF assms(1) c(1) _ _ _ sp(1)] s by (simp add: config_ok_def)
  moreover have "emits (SEND ctx) (CRC env ctx) None (held c) ?s s'"
    using emits_trans [OF emits_refl sp(5), of ?s "{}"] fl(4) c(3) by simp
  moreover have "made_by_send ctx com = fresh_of (com_inner com) c"
    by (rule ext) (simp add: made_by_send_def fl(1))
  moreover have "com_send env ctx com = Returns (None, \<lparr>com_socket = s', com_inner = c'\<rparr>)"
    by (simp add: com_send_def inner_send_prepared fl(1) sp(1))
  ultimately show ?thesis using fl c sp unfolding send_rounds_def by fastforce
qed

lemma on_os_simps [simp]:
  "com_inner (on_os o_s com) = com_inner com"
  "os_socket (com_socket (on_os o_s com)) = o_s"
  "same_config (com_socket com) s \<Longrightarrow> same_config (com_socket (on_os o_s com)) s"
  by (simp_all add: on_os_def same_config_def)

lemma send_roundsD:
  assumes "send_rounds env ctx com c us os ns com'"
  shows "reliable_send_queue (com_inner com) = concat us @ reliable_send_queue (com_inner com')"
    and "reliable_ordered_send_queue (com_inner com) = concat os @ reliable_ordered_send_queue (com_inner com')"
    and "length us \<le> 32" "length os \<le> 32"
    and "same_packets (reliable_send_packets c) (reliable_send_packets (com_inner com'))"
    and "same_packets (reliable_ordered_send_packets c) (reliable_ordered_send_packets (com_inner com'))"
    and "same_recv (com_inner com) (com_inner com')"
    and "\<exists>t. queued (reliable_received_packets (com_inner com)) (reliable_ordered_received_packets (com_inner com))
        False t us (reliable_send_packets (com_inner com)) (reliable_send_packets c)"
    and "\<exists>t. queued (reliable_received_packets (com_inner com)) (reliable_ordered_received_packets (com_inner com))
        True t os (reliable_ordered_send_packets (com_inner com)) (reliable_ordered_send_packets c)"
    and "rb_wf (reliable_send_packets c)" "rb_wf (reliable_ordered_send_packets c)"
    and "flushed_round (prepared (com_inner com)) us os ns c" "inner_ok (SEND ctx) c"
    and "inner_ok (SEND ctx) (com_inner com')"
    and "unreliable_send_queue (com_inner com') = []" "unreliable_send_packets (com_inner com') = []"
    and "made_by_send ctx com = fresh_of (com_inner com) c"
    and "emits (SEND ctx) (CRC env ctx) None (held c) (com_socket com) (com_socket com')"
proof -
  note r = assms [unfolded send_rounds_def]
  show "reliable_send_queue (com_inner com) = concat us @ reliable_send_queue (com_inner com')"
    and "reliable_ordered_send_queue (com_inner com) = concat os @ reliable_ordered_send_queue (com_inner com')"
    and "length us \<le> 32" "length os \<le> 32"
    using r by (simp_all add: flushed_round_def sent_round_def)
  show "same_packets (reliable_send_packets c) (reliable_send_packets (com_inner com'))"
    and "same_packets (reliable_ordered_send_packets c) (reliable_ordered_send_packets (com_inner com'))"
    using r by (simp_all add: sent_round_def)
  show "same_recv (com_inner com) (com_inner com')"
    using r prepared_recv [of "com_inner com"] by (simp add: flushed_round_def sent_round_def same_recv_def)
  show "\<exists>t. queued (reliable_received_packets (com_inner com)) (reliable_ordered_received_packets (com_inner com))
        False t us (reliable_send_packets (com_inner com)) (reliable_send_packets c)"
    and "\<exists>t. queued (reliable_received_packets (com_inner com)) (reliable_ordered_received_packets (com_inner com))
        True t os (reliable_ordered_send_packets (com_inner com)) (reliable_ordered_send_packets c)"
    using r unfolding queued_both_def prepared_simps by blast+
  show "rb_wf (reliable_send_packets c)" "rb_wf (reliable_ordered_send_packets c)"
    using r by (simp_all add: inner_ok_def cache_ok_def)
qed (use assms in \<open>simp_all add: send_rounds_def\<close>)

text \<open>The packets of a call of \<open>send\<close>, of each kind: well formed, and with a current acknowledgement.\<close>

lemma fresh_packets_made:
  assumes "link o_d r ps g" "queued (reliable_received_packets c) (reliable_ordered_received_packets c) o_d s chunks r r'"
    and "length chunks \<le> 32" "p \<in> set (fresh_packets r r')"
  shows "made_now c p \<and> p \<in> cached r'"
proof -
  have p: "p \<in> set (new_packets (reliable_received_packets c) (reliable_ordered_received_packets c) o_d (length ps) chunks)"
    using assms(4) fresh_packets_queued [OF assms(1-3)] by simp
  then obtain k where "k < length chunks" "p = new_packet (reliable_received_packets c)
      (reliable_ordered_received_packets c) o_d (length ps + k) (chunks ! k)"
    by (auto simp: in_set_conv_nth)
  then obtain i pp where "rb_get r' i = Some pp" "pending_packet pp = p"
    using queued_new [OF assms(1-3)] by fastforce
  then have "p \<in> cached r'" by (auto simp: cached_def)
  then show ?thesis using new_packets_now [OF p] by blast
qed

lemma fresh_of_made:
  assumes "system_ok ctx x y" "send_rounds env ctx (on_os o_s (device x)) c us os ns com" "p \<in> set (fresh_of (conn x) c k)"
  shows "made_now (conn x) p \<and> p \<in> held c \<and> (k = KUnreliable \<longrightarrow> \<not> reliable p)"
proof -
  note s = assms(1) [unfolded system_ok_def one_way_def sender_ok_def]
  note r = send_roundsD [OF assms(2), unfolded on_os_simps]
  show ?thesis
  proof (cases k)
    case KUnreliable
    then show ?thesis using flushed_packets [OF r(12)] assms(3) by (auto simp: held_def)
  next
    case KUnordered
    have "link False (reliable_send_packets (conn x)) (packets x KUnordered) (got y KUnordered)"
      using s by simp
    then show ?thesis using fresh_packets_made [of False] r(3,8) assms(3) KUnordered by (fastforce simp: held_def)
  next
    case KOrdered
    have "link True (reliable_ordered_send_packets (conn x)) (packets x KOrdered) (got y KOrdered)"
      using s by simp
    then show ?thesis using fresh_packets_made [of True] r(4,9) assms(3) KOrdered by (fastforce simp: held_def)
  qed
qed

lemma stamp_packet [simp]: "sent_packet (stamp x p) = p"
  by (simp add: stamp_def)

lemma packets_made [simp]:
  "map sent_packet (made x k @ map (stamp x) ps) = packets x k @ ps"
  by (simp add: comp_def)

lemma send_ok:
  assumes ok: "system_ok ctx x y" and r: "send_rounds env ctx (on_os o_s (device x)) c us os ns com"
  defines "x' \<equiv> x\<lparr>device := com,
      made := (\<lambda>k. made x k @ map (stamp x) (made_by_send ctx (on_os o_s (device x)) k))\<rparr>"
  shows "system_ok ctx x' y"
proof -
  note s = ok [unfolded system_ok_def one_way_def]
  note R = send_roundsD [OF r, unfolded on_os_simps]
  have made: "packets x' k = packets x k @ fresh_of (conn x) c k" "got x' = got x" for k
    by (simp_all add: x'_def R(17) comp_def)
  have conn: "conn x' = com_inner com" "written x' = written x" by (simp_all add: x'_def)
  obtain t t' where q: "queued (reliable_received_packets (conn x)) (reliable_ordered_received_packets (conn x))
        False t us (reliable_send_packets (conn x)) (reliable_send_packets c)"
      "queued (reliable_received_packets (conn x)) (reliable_ordered_received_packets (conn x))
        True t' os (reliable_ordered_send_packets (conn x)) (reliable_ordered_send_packets c)"
    using R(8,9) by blast
  have S: "sender_ok KUnordered x (got y KUnordered)" "sender_ok KOrdered x (got y KOrdered)"
    using s by simp_all
  have "sender_ok KUnordered x' (got y KUnordered)"
    using S(1) by (rule sender_ok_flush [where chunks = us and r = "reliable_send_packets c" and s = t
      and rel = "reliable_received_packets (conn x)" and ord = "reliable_ordered_received_packets (conn x)"])
      (use q(1) R(1,3,5,10) made conn in simp_all)
  moreover have "sender_ok KOrdered x' (got y KOrdered)"
    using S(2) by (rule sender_ok_flush [where chunks = os and r = "reliable_ordered_send_packets c" and s = t'
      and rel = "reliable_received_packets (conn x)" and ord = "reliable_ordered_received_packets (conn x)"])
      (use q(2) R(2,4,6,11) made conn in simp_all)
  moreover have "receiver_ok y (packets x')"
  proof (rule receiver_ok_extend)
    show "receiver_ok y (packets x)" using s by simp
    show "got y KUnordered \<subseteq> {..<length (packets x KUnordered)}" "got y KOrdered \<subseteq> {..<length (packets x KOrdered)}"
      using S [unfolded sender_ok_def] linkD(7) by blast+
    show "\<exists>zs. packets x' k = packets x k @ zs" for k unfolding made by blast
  qed
  moreover have "one_way y x'"
  proof -
    have "same_receiver x x'" using R(7) by (simp add: same_receiver_def x'_def same_recv_def)
    then show ?thesis using s same_receiver_ok made(2) by (simp add: one_way_def)
  qed
  moreover have "endpoint_ok ctx x'"
  proof -
    have "honest (got x) (stamp x p) \<and> packet_ok (SEND ctx) p \<and> (k = KUnreliable \<longrightarrow> \<not> reliable p)"
      if "p \<in> set (fresh_of (conn x) c k)" for p k
      using fresh_of_made [OF ok r that] s honest_new [of x "packets y" p] held_ok [OF R(13), of p]
      by (auto simp: made_now_def)
    moreover have "config_ok (com_socket com)"
      using R(18) s by (auto simp: emits_def endpoint_ok_def config_ok_def same_config_def on_os_def)
    moreover have "endpoint_ok ctx x" using s by blast
    moreover have "concat (map messages (packets x' KUnreliable)) @ unreliable_send_queue (conn x') = written x' KUnreliable"
      using flushed_packets [OF R(12)] R(15) s by (auto simp: made conn endpoint_ok_def)
    ultimately show ?thesis using R(14-16)
      by (auto simp: endpoint_ok_def x'_def R(17) simp del: fresh_of.simps)
  qed
  ultimately show ?thesis using s by (simp add: system_ok_def one_way_def)
qed

lemma heartbeat_call_ok:
  assumes "system_ok ctx x y" "com = com_write_heartbeat (device x)"
  shows "system_ok ctx (x\<lparr>device := com, made := (made x)(KUnreliable := made x KUnreliable @
      [stamp x (last (unreliable_send_packets (com_inner com)))])\<rparr>) y" (is "system_ok ctx ?x y")
proof -
  note s = assms(1) [unfolded system_ok_def one_way_def]
  obtain p where p: "unreliable_send_packets (com_inner com) = unreliable_send_packets (conn x) @ [p]"
      "made_now (conn x) p" "\<not> reliable p" "messages p = []" "packet_ok (SEND ctx) p"
    using heartbeat_packets [of "conn x" "SEND ctx"] assms(2) by (auto simp: com_write_heartbeat_def)
  have com: "com_inner com = inner_write_heartbeat (conn x)" "com_socket com = com_socket (device x)"
    using assms(2) by (simp_all add: com_write_heartbeat_def)
  have queue: "unreliable_send_queue (com_inner com) = unreliable_send_queue (conn x)"
    by (simp add: com(1) inner_write_heartbeat_def Let_def)
  have "honest (got x) (stamp x p)" using honest_new [of x "packets y" p] p(2) s by (auto simp: made_now_def)
  then have "endpoint_ok ctx ?x"
    using s p heartbeat_ok [of "SEND ctx" "conn x"] com queue by (auto simp: endpoint_ok_def)
  moreover have "sender_ok k ?x g" if "sender_ok k x g" "k \<noteq> KUnreliable" for k g
    using that by (cases k) (simp_all add: sender_ok_def com(1) inner_write_heartbeat_def Let_def)
  moreover have "receiver_ok ?x (packets y)"
    using s same_receiver_ok [of x ?x] by (simp add: same_receiver_def com(1) inner_write_heartbeat_def Let_def)
  moreover have "receiver_ok y (packets ?x)" using s by (auto simp: receiver_ok_def)
  ultimately show ?thesis using s by (simp add: system_ok_def one_way_def)
qed

section \<open>One arrival\<close>

text \<open>What a packet does to the sending half of the connection that receives it.\<close>

definition same_send :: "inner \<Rightarrow> inner \<Rightarrow> bool" where
  "same_send c c' \<longleftrightarrow> reliable_send_packets c' = reliable_send_packets c
     \<and> reliable_ordered_send_packets c' = reliable_ordered_send_packets c
     \<and> reliable_send_queue c' = reliable_send_queue c
     \<and> reliable_ordered_send_queue c' = reliable_ordered_send_queue c
     \<and> unreliable_send_queue c' = unreliable_send_queue c
     \<and> unreliable_send_packets c' = unreliable_send_packets c"

lemma deliver_loop_send: "same_send c (deliver_loop es c)"
proof -
  have "same_send c d \<Longrightarrow> same_send c (deliver_loop es d)" for d
  proof (induction es arbitrary: d)
    case (Cons e es)
    have "same_send c (deliver_one i p d)" for i p
      using Cons.prems by (simp add: deliver_one_def same_send_def)
    then show ?case using Cons by (cases e) (simp add: deliver_loop_Cons)
  qed simp
  then show ?thesis by (simp add: same_send_def)
qed

lemma process_packet_send: "same_send c (process_packet p c) \<or> same_send (acknowledge (ack p) c) (process_packet p c)"
proof -
  let ?a = "acknowledge (ack p) c"
  define P where "P = (\<lambda>z. same_send c z \<or> same_send ?a z)"
  have "same_send ?a (deliver_loop es (?a\<lparr>reliable_ordered_received_packets := r\<rparr>))" for es r
    using deliver_loop_send [of "?a\<lparr>reliable_ordered_received_packets := r\<rparr>" es]
    by (simp add: same_send_def)
  then have "P (deliver_loop es (?a\<lparr>reliable_ordered_received_packets := r\<rparr>))"
    "P (c\<lparr>received_packet_duplicate := b\<rparr>)" "P ?a" "P (acknowledge (ack p) (c\<lparr>unordered_recv_queue := q\<rparr>))"
    "P (?a\<lparr>reliable_received_packets := u, unordered_recv_queue := q\<rparr>)" for es r b q u
    by (simp_all add: P_def same_send_def acknowledge_eq)
  then have "P (process_packet p c)" unfolding process_packet_def Let_def by simp
  then show ?thesis by (simp add: P_def)
qed

definition take_in :: "endpoint \<Rightarrow> datagram \<Rightarrow> endpoint \<Rightarrow> endpoint" where
  "take_in y d x = (mark y d x)
     \<lparr>device := (device x)\<lparr>com_inner := process_packet (packet_of y d) (conn x)\<rparr>\<rparr>"

lemma take_in_simps [simp]:
  "conn (take_in y d x) = process_packet (packet_of y d) (conn x)"
  "com_socket (device (take_in y d x)) = com_socket (device x)"
  "made (take_in y d x) = made x" "written (take_in y d x) = written x"
  "unordered_log (take_in y d x) = unordered_log x" "ordered_log (take_in y d x) = ordered_log x"
  "got (take_in y d x) = (got x)(fst d := insert (snd d) (got x (fst d)))"
  "heard (take_in y d x) = heard x @ (if fst d = KUnreliable then messages (packet_of y d) else [])"
  by (simp_all add: take_in_def mark_def)

text \<open>The acknowledgement in a packet removes only packets the peer has received.\<close>

lemma sender_ok_arrival:
  assumes "sender_ok k x (got y k)" "k \<noteq> KUnreliable" "honest (got y) p" "recent x p"
    and "same_send (conn x) c \<or> same_send (acknowledge (ack (sent_packet p)) (conn x)) c"
    and "conn x' = c" "made x' = made x" "written x' = written x"
  shows "sender_ok k x' (got y k)"
proof -
  let ?a = "ack (sent_packet p)"
  have l: "link (k = KOrdered) (send_cache k (conn x)) (packets x k) (got y k)"
    using assms(1) by (simp add: sender_ok_def)
  have "link (k = KOrdered) (send_cache k (acknowledge ?a (conn x))) (packets x k) (got y k)"
    using assms(2-4) link_acknowledge [OF l, of "reliable_newest_received ?a" "reliable_ack_bits ?a" "knew_unordered p"]
      link_acknowledge [OF l, of "ordered_newest_received ?a" "ordered_ack_bits ?a" "knew_ordered p"]
    by (cases k) (simp_all add: honest_def Let_def recent_def acknowledge_eq)
  moreover have "send_queue k (acknowledge ?a (conn x)) = send_queue k (conn x)"
    by (cases k) (simp_all add: acknowledge_eq)
  moreover have "send_cache k d = send_cache k b \<and> send_queue k d = send_queue k b" if "same_send b d" for b d
    using that by (cases k) (simp_all add: same_send_def)
  ultimately show ?thesis using assms(1,5-8) l by (auto simp: sender_ok_def)
qed

lemma take_nths: "a \<le> b \<Longrightarrow> b \<le> length xs \<Longrightarrow> take b xs = take a xs @ map ((!) xs) [a..<b]"
  by (intro nth_equalityI) (auto simp: nth_append)

lemma receiver_ok_ordered:
  assumes r: "receiver_ok x ps" and n: "may_arrive (got x KOrdered) n" "is_reliable True n (ps KOrdered ! n)"
    and in_range: "insert n (got x KOrdered) \<subseteq> {..<length (ps KOrdered)}"
    and x': "conn x' = process_packet (ps KOrdered ! n) (conn x)"
      "got x' = (got x)(KOrdered := insert n (got x KOrdered))" "heard x' = heard x"
      "unordered_log x' = unordered_log x" "ordered_log x' = ordered_log x"
  shows "receiver_ok x' ps"
proof -
  let ?sent = "\<lambda>n. ps KOrdered ! n" and ?g = "got x KOrdered"
  have st: "ordered_state ?sent ?g (conn x)" using r by (simp add: receiver_ok_def)
  have fin: "finite ?g" using st by (simp add: ordered_state_def)
  note step = ordered_step(2,3) [OF st n] and frame = ordered_frame [OF st n]
  have "first_missing (insert n ?g) \<le> length (ps KOrdered)"
    using below_first_missing [of "length (ps KOrdered)" "insert n ?g"] in_range by fastforce
  moreover have "first_missing ?g \<le> first_missing (insert n ?g)"
    using fin by (intro first_missing_mono) auto
  ultimately have "take (first_missing (insert n ?g)) (ps KOrdered) =
      take (first_missing ?g) (ps KOrdered) @ map ?sent [first_missing ?g..<first_missing (insert n ?g)]"
    by (intro take_nths)
  then have "ordered_log x' @ ordered_recv_queue (conn x') =
      concat (map messages (take (first_missing (insert n ?g)) (ps KOrdered)))"
    using r step(2) x' by (simp add: receiver_ok_def comp_def)
  then show ?thesis
    using r x' step(1) frame unordered_state_cong [OF frame(1)] by (simp add: receiver_ok_def)
qed

lemma receiver_ok_unordered:
  assumes r: "receiver_ok x ps" and n: "may_arrive (got x KUnordered) n" "is_reliable False n (ps KUnordered ! n)"
    and x': "conn x' = process_packet (ps KUnordered ! n) (conn x)"
      "got x' = (got x)(KUnordered := insert n (got x KUnordered))" "heard x' = heard x"
      "unordered_log x' = unordered_log x" "ordered_log x' = ordered_log x"
  shows "receiver_ok x' ps"
proof -
  let ?g = "got x KUnordered" and ?p = "ps KUnordered ! n"
  have st: "unordered_state ?g (conn x)" using r by (simp add: receiver_ok_def)
  have fin: "finite ?g" using st by (simp add: unordered_state_def)
  note step = unordered_step(2,3) [OF st n] and frame = unordered_frame [OF st n]
  have "delivered_once (ps KUnordered) (insert n ?g) =
      delivered_once (ps KUnordered) ?g + mset (if n \<in> ?g then [] else messages ?p)"
    using fin by (auto simp: delivered_once_def insert_absorb)
  then have "mset (unordered_log x' @ unordered_recv_queue (conn x')) =
      delivered_once (ps KUnordered) (insert n ?g) + mset (heard x')"
    using r step(2) x' by (simp add: receiver_ok_def)
  then show ?thesis
    using r x' step(1) frame ordered_state_cong [OF frame(1,2)] by (simp add: receiver_ok_def)
qed

lemma receiver_ok_unreliable:
  assumes r: "receiver_ok x ps" and p: "\<not> reliable p" "p \<in> set (ps KUnreliable)"
    and x': "conn x' = process_packet p (conn x)" "got x' = (got x)(KUnreliable := g)"
      "heard x' = heard x @ messages p" "unordered_log x' = unordered_log x" "ordered_log x' = ordered_log x"
  shows "receiver_ok x' ps"
  using r x' p(2)
  by (auto simp: receiver_ok_def process_unreliable [OF p(1)] unordered_state_def ordered_state_def)

lemma arrival_ok:
  assumes ok: "system_ok ctx x y" and d: "deliverable_now y d x"
  shows "system_ok ctx (take_in y d x) y"
proof -
  note s = ok [unfolded system_ok_def one_way_def]
  obtain k n where kn: "d = (k, n)" by (cases d)
  let ?p = "made y k ! n"
  have n: "n < length (made y k)" "?p \<in> set (made y k)" and near: "k = KUnreliable \<or> newest_of (got x k) \<le> int n + 95"
    and young: "recent x ?p" and pkt: "packet_of y d = sent_packet ?p" "packets y k ! n = sent_packet ?p"
    using d by (simp_all add: deliverable_now_def kn packet_of_def)
  have honest: "honest (got y) ?p" using s n(2) by (simp add: endpoint_ok_def)
  note send = process_packet_send [of "conn x" "sent_packet ?p"]
  have R: "receiver_ok x (packets y)" using s by simp
  have "sender_ok KUnordered (take_in y d x) (got y KUnordered)" "sender_ok KOrdered (take_in y d x) (got y KOrdered)"
    using s by (simp_all add: sender_ok_arrival [OF _ _ honest young send] pkt(1))
  moreover have "receiver_ok y (packets (take_in y d x))" using s by simp
  moreover have "sender_ok j y (got (take_in y d x) j)" if "j \<noteq> KUnreliable" for j
  proof -
    have "sender_ok j y (got x j)" using that s by (cases j) simp_all
    then show ?thesis using n(1) link_arrival by (auto simp: sender_ok_def kn)
  qed
  moreover have "receiver_ok (take_in y d x) (packets y)"
  proof (cases k)
    case KUnreliable
    then have "\<not> reliable (packet_of y d)" "packet_of y d \<in> set (packets y KUnreliable)"
      using s n(2) pkt by (simp_all add: endpoint_ok_def)
    with R show ?thesis
      by (rule receiver_ok_unreliable [where g = "insert n (got x KUnreliable)"]) (simp_all add: kn KUnreliable)
  next
    case KUnordered
    have l: "link False (reliable_send_packets (conn y)) (packets y k) (got x k)"
      using s by (simp add: KUnordered sender_ok_def)
    have "may_arrive (got x k) n" "is_reliable False n (packets y k ! n)"
      using link_may_arrive [OF l] linkD(4) [OF l] n(1) near KUnordered by simp_all
    with R show ?thesis unfolding KUnordered
      by (rule receiver_ok_unordered) (use pkt in \<open>simp_all add: kn KUnordered\<close>)
  next
    case KOrdered
    have l: "link True (reliable_ordered_send_packets (conn y)) (packets y k) (got x k)"
      using s by (simp add: KOrdered sender_ok_def)
    have "may_arrive (got x k) n" "is_reliable True n (packets y k ! n)"
      "insert n (got x k) \<subseteq> {..<length (packets y k)}"
      using link_may_arrive [OF l] linkD(4,7) [OF l] n(1) near KOrdered by simp_all
    with R show ?thesis unfolding KOrdered
      by (rule receiver_ok_ordered) (use pkt in \<open>simp_all add: kn KOrdered\<close>)
  qed
  moreover have "endpoint_ok ctx (take_in y d x)"
  proof -
    have "honest (got (take_in y d x)) q" if "honest (got x) q" for q
      using honest_mono [OF that] by (simp add: kn subset_insertI)
    moreover have "inner_ok (SEND ctx) (process_packet (packet_of y d) (conn x))"
      using s process_packet_ok by (simp add: endpoint_ok_def)
    moreover have "unreliable_send_queue (process_packet p c) = unreliable_send_queue c"
      "unreliable_send_packets (process_packet p c) = unreliable_send_packets c" for p c
      using process_packet_send [of c p] by (auto simp: same_send_def acknowledge_eq)
    ultimately show ?thesis using s by (simp add: endpoint_ok_def)
  qed
  ultimately show ?thesis using s by (simp add: system_ok_def one_way_def)
qed

section \<open>recv\<close>

lemma mark_device [simp]:
  "mark y d (x\<lparr>device := c\<rparr>) = (mark y d x)\<lparr>device := c\<rparr>"
  "deliverable_now y d (x\<lparr>device := c\<rparr>) = deliverable_now y d x" "device (mark y d x) = device x"
  by (simp_all add: mark_def deliverable_now_def recent_def)

lemma fold_mark_device [simp]:
  "fold (mark y) ds (x\<lparr>device := c\<rparr>) = (fold (mark y) ds x)\<lparr>device := c\<rparr>"
  by (induction ds arbitrary: x) simp_all

lemma timely_device [simp]: "timely y ds (x\<lparr>device := c\<rparr>) = timely y ds x"
  by (induction ds arbitrary: x) simp_all

lemma arrivals_ok:
  assumes "system_ok ctx x y" "timely y ds x"
  shows "system_ok ctx ((fold (mark y) ds x)
    \<lparr>device := (device x)\<lparr>com_inner := fold (\<lambda>d. process_packet (packet_of y d)) ds (conn x)\<rparr>\<rparr>) y"
  using assms
proof (induction ds arbitrary: x)
  case (Cons d ds)
  let ?x = "take_in y d x"
  have "timely y ds ?x" using Cons.prems(2) by (simp add: take_in_def)
  moreover have "system_ok ctx ?x y" using Cons.prems by (intro arrival_ok) simp_all
  ultimately have "system_ok ctx ((fold (mark y) ds ?x)
    \<lparr>device := (device ?x)\<lparr>com_inner := fold (\<lambda>d. process_packet (packet_of y d)) ds (conn ?x)\<rparr>\<rparr>) y"
    by (intro Cons.IH)
  then show ?case by (simp add: take_in_def)
qed simp

lemma timely_packets_ok:
  assumes "endpoint_ok (REVERSE ctx) y" "timely y ds x" "d \<in> set ds"
  shows "packet_ok (RECV ctx) (packet_of y d)"
  using assms(2,3)
proof (induction ds arbitrary: x)
  case (Cons e es)
  have "packet_ok (RECV ctx) (sent_packet (made y (fst e) ! snd e))" if "snd e < length (made y (fst e))"
    using assms(1) nth_mem [OF that] by (simp add: endpoint_ok_def)
  then show ?case using Cons by (auto simp: deliverable_now_def packet_of_def)
qed simp

text \<open>\<open>recv\<close> on any datagrams the network may deliver returns, and processes them in turn.\<close>

lemma com_recv_frames:
  assumes "\<not> feature_debug env" "lawful_repr (RECV ctx)" "config_ok (com_socket com)"
    and "\<forall>d \<in> set ds. packet_ok (RECV ctx) (packet_of y d)" "arrived env ctx y ds o_s"
  shows "\<exists>t s. com_recv env ctx (on_os o_s com) = Returns \<lparr>com_socket = s, com_inner =
      (fold (\<lambda>d. process_packet (packet_of y d)) ds (com_inner com))\<lparr>last_seen := t\<rparr>\<rparr>
    \<and> config_ok s \<and> same_config (com_socket com) s"
proof -
  let ?s = "com_socket (on_os o_s com)"
  obtain addrs where addrs: "length addrs = length ds"
      "inbox o_s = map (\<lambda>(a, d). Some (a, frame (RECV ctx) (CRC env ctx) (packet_of y d))) (zip addrs ds)"
    using assms(5) by (auto simp: arrived_def)
  let ?aps = "zip addrs (map (packet_of y) ds)"
  have fold: "fold (\<lambda>(a, p). process_packet p) ?aps c = fold (\<lambda>d. process_packet (packet_of y d)) ds c" for c
    using addrs(1) by (induction addrs ds arbitrary: c rule: list_induct2) simp_all
  have i1: "inbox (os_socket ?s) = map (\<lambda>(a, p). Some (a, frame (SEND (REVERSE ctx)) (CRC env (REVERSE ctx)) p)) ?aps"
    using addrs(2) by (simp add: zip_map2 case_prod_beta)
  have i2: "list_all (\<lambda>(a, p). packet_ok (SEND (REVERSE ctx)) p) ?aps"
    using assms(4) by (auto simp: list_all_iff set_zip)
  have i3: "no_faults env ?s" "length (data_buffer ?s) = MAX_PACKET_LEN"
    using assms(1,3) by (simp_all add: config_ok_def on_os_def no_faults_def)
  have i4: "lawful_repr (SEND (REVERSE ctx))" using assms(2) by simp
  obtain t s where r: "receive env ctx (com_inner com) ?s =
      Returns ((fold (\<lambda>d. process_packet (packet_of y d)) ds (com_inner com))\<lparr>last_seen := t\<rparr>, s)"
      and same: "same_config ?s s"
    using receive_frames [OF i4 i2 i3 i1, of "com_inner com"] unfolding fold REVERSE_REVERSE by blast
  have same': "same_config (com_socket com) s" using same by (simp add: on_os_def same_config_def)
  have "com_recv env ctx (on_os o_s com) = Returns \<lparr>com_socket = s, com_inner =
      (fold (\<lambda>d. process_packet (packet_of y d)) ds (com_inner com))\<lparr>last_seen := t\<rparr>\<rparr>"
    by (simp add: com_recv_def r)
  then show ?thesis using same' config_ok_same [OF same' assms(3)] by blast
qed

lemma recv_ok:
  assumes ok: "system_ok ctx x y" and env: "\<not> feature_debug env" "lawful_repr (RECV ctx)"
    and ds: "timely y ds x" "arrived env ctx y ds o_s"
  shows "\<exists>com. com_recv env ctx (on_os o_s (device x)) = Returns com
    \<and> system_ok ctx ((fold (mark y) ds x)\<lparr>device := com\<rparr>) y"
proof -
  have e: "endpoint_ok ctx x" "endpoint_ok (REVERSE ctx) y" using ok by (simp_all add: system_ok_def)
  let ?c = "fold (\<lambda>d. process_packet (packet_of y d)) ds (conn x)"
  obtain t s where r: "com_recv env ctx (on_os o_s (device x)) = Returns \<lparr>com_socket = s, com_inner = ?c\<lparr>last_seen := t\<rparr>\<rparr>"
      "config_ok s"
    using com_recv_frames [OF env, of "device x" ds y o_s] timely_packets_ok [OF e(2) ds(1)] e(1) ds(2)
    by (auto simp: endpoint_ok_def)
  let ?x = "(fold (mark y) ds x)\<lparr>device := (device x)\<lparr>com_inner := ?c\<rparr>\<rparr>"
  let ?z = "(fold (mark y) ds x)\<lparr>device := \<lparr>com_socket = s, com_inner = ?c\<lparr>last_seen := t\<rparr>\<rparr>\<rparr>"
  have "system_ok ctx ?x y" by (rule arrivals_ok [OF ok ds(1)])
  moreover have "send_cache k (c\<lparr>last_seen := t\<rparr>) = send_cache k c" "send_queue k (c\<lparr>last_seen := t\<rparr>) = send_queue k c"
    for k c by (cases k; simp)+
  ultimately have "system_ok ctx ?z y"
    using r(2) by (simp add: system_ok_def one_way_def sender_ok_def receiver_ok_def endpoint_ok_def
      unordered_state_def ordered_state_def)
  then show ?thesis using r(1) by blast
qed

section \<open>Every step\<close>

lemma send_call_rounds:
  assumes "system_ok ctx x y" "lawful_repr (SEND ctx)" "patient_com (device x)"
  shows "\<exists>c us os ns com. com_send env ctx (on_os o_s (device x)) = Returns (None, com)
    \<and> send_rounds env ctx (on_os o_s (device x)) c us os ns com"
proof -
  have "endpoint_ok ctx x" using assms(1) by (simp add: system_ok_def)
  moreover have "patient_com (on_os o_s (device x))" using assms(3) by (simp add: patient_com_def on_os_def)
  moreover have "config_ok (com_socket (on_os o_s com)) = config_ok (com_socket com)" for com
    by (simp add: on_os_def config_ok_def)
  ultimately show ?thesis
    using com_send_rounds [OF assms(2), of "on_os o_s (device x)" env] by (simp add: endpoint_ok_def)
qed

lemma act_ok:
  assumes "act env ctx y x x'" "system_ok ctx x y" "\<not> feature_debug env" "lawful_repr (SEND ctx)" "lawful_repr (RECV ctx)"
  shows "system_ok ctx x' y"
  using assms(1,2)
proof (cases rule: act.cases)
  case (call_send o_s e com)
  obtain c us os ns com' where "com_send env ctx (on_os o_s (device x)) = Returns (None, com')"
      "send_rounds env ctx (on_os o_s (device x)) c us os ns com'"
    using send_call_rounds [OF assms(2,4) call_send(2)] by blast
  then show ?thesis using send_ok [OF assms(2)] call_send by auto
next
  case (call_recv ds o_s com)
  then show ?thesis using recv_ok [OF assms(2,3,5), of ds o_s] by auto
next
  case (call_write m)
  then show ?thesis using write_ok [OF assms(2)] by simp
next
  case (call_write_reliable m)
  then show ?thesis using write_reliable_ok [OF assms(2)] by simp
next
  case (call_write_ordered m)
  then show ?thesis using write_ordered_ok [OF assms(2)] by simp
next
  case (call_write_heartbeat com)
  then show ?thesis using heartbeat_call_ok [OF assms(2)] by simp
next
  case (call_read m com)
  then show ?thesis using read_ok [OF assms(2)] by simp
next
  case (call_read_ordered m com)
  then show ?thesis using read_ordered_ok [OF assms(2)] by simp
qed

lemma reachable_ok:
  assumes "reachable env ctx x y" "\<not> feature_debug env" "lawful_repr (SEND ctx)" "lawful_repr (RECV ctx)"
  shows "system_ok ctx x y"
  using assms(1)
proof induction
  case (init a b)
  then show ?case by (rule system_ok_start)
next
  case (left x y x')
  then show ?case using act_ok assms(2-4) by blast
next
  case (right x y y')
  then show ?case using act_ok [of env "REVERSE ctx" x y y'] assms(2-4) system_ok_swap [of ctx x] by simp
qed

end
