(* ===== verification/SystemSpec.thy ===== *)
theory SystemSpec
  imports SystemInv ReceiveSpec
begin

text \<open>
  What two peers and the network guarantee together (\<open>System\<close>), in every state that can be
  reached: order and integrity of what the applications read, that no packet is forgotten,
  that no call fails, and that the pair refines two first-in first-out channels. The conditions
  are those of the network in \<open>System\<close>, lawful message types, and a build without the
  simulated faults.
\<close>

section \<open>What is read was written\<close>

definition good_build :: "crate_env \<Rightarrow> udp_context \<Rightarrow> bool" where
  "good_build env ctx \<longleftrightarrow> \<not> feature_debug env \<and> lawful_repr (SEND ctx) \<and> lawful_repr (RECV ctx)"

lemma good_build_ok: "good_build env ctx \<Longrightarrow> reachable env ctx x y \<Longrightarrow> system_ok ctx x y"
  using reachable_ok by (simp add: good_build_def)

text \<open>One direction, from the invariant.\<close>

lemma ordered_prefix:
  assumes "one_way x y"
  shows "\<exists>rest. ordered_log y @ ordered_recv_queue (conn y) @ rest = written x KOrdered"
proof -
  let ?ps = "packets x KOrdered" and ?h = "first_missing (got y KOrdered)"
  have "concat (map messages ?ps) = concat (map messages (take ?h ?ps)) @ concat (map messages (drop ?h ?ps))"
    by (simp flip: concat_append map_append)
  moreover have "concat (map messages ?ps) @ reliable_ordered_send_queue (conn x) = written x KOrdered"
    "ordered_log y @ ordered_recv_queue (conn y) = concat (map messages (take ?h ?ps))"
    using assms by (simp_all add: one_way_def sender_ok_def receiver_ok_def)
  ultimately show ?thesis by (metis append_assoc)
qed

text \<open>The messages of distinct packets are part of the messages of all packets.\<close>

lemma delivered_once_subset:
  assumes "g \<subseteq> {..<length ps}"
  shows "delivered_once ps g \<subseteq># mset (concat (map messages ps))"
proof -
  have "delivered_once ps g \<subseteq># (\<Sum>n \<in> {..<length ps}. mset (messages (ps ! n)))"
    unfolding delivered_once_def using assms
    by (simp add: sum.subset_diff [OF assms finite_lessThan])
  also have "\<dots> = sum_list (map (\<lambda>p. mset (messages p)) ps)"
    by (simp add: sum_list_sum_nth atLeast0LessThan)
  also have "\<dots> = mset (concat (map messages ps))" by (simp add: mset_concat comp_def)
  finally show ?thesis .
qed

lemma unordered_bound:
  assumes "one_way x y"
  shows "mset (unordered_log y @ unordered_recv_queue (conn y)) \<subseteq># mset (written x KUnordered) + mset (heard y)"
proof -
  have "link False (reliable_send_packets (conn x)) (packets x KUnordered) (got y KUnordered)"
      "concat (map messages (packets x KUnordered)) @ reliable_send_queue (conn x) = written x KUnordered"
    using assms by (simp_all add: one_way_def sender_ok_def)
  note l = linkD(7) [OF this(1)] this(2)
  have "delivered_once (packets x KUnordered) (got y KUnordered) \<subseteq># mset (written x KUnordered)"
    using delivered_once_subset [OF l(1)] unfolding l(2) [symmetric] mset_append by (rule subset_mset.order_trans) simp
  then show ?thesis using assms by (simp add: one_way_def receiver_ok_def)
qed

lemma heard_written:
  assumes "one_way x y" "endpoint_ok ctx x"
  shows "set (heard y) \<subseteq> set (written x KUnreliable)"
proof -
  have "concat (map messages (packets x KUnreliable)) @ unreliable_send_queue (conn x) = written x KUnreliable"
    using assms(2) by (simp add: endpoint_ok_def)
  then have "set (concat (map messages (packets x KUnreliable))) \<subseteq> set (written x KUnreliable)"
    by (metis set_append sup_ge1)
  then show ?thesis using assms(1) unfolding one_way_def receiver_ok_def by blast
qed

lemma system_okD:
  assumes "system_ok ctx x y"
  shows "one_way x y" "one_way y x" "endpoint_ok ctx x" "endpoint_ok (REVERSE ctx) y"
  using assms by (simp_all add: system_ok_def)

text \<open>
  C1. End to end, in both directions: what an application has read with \<open>read_ordered\<close>, and what
  is ready to be read, is the beginning of what the other application wrote with
  \<open>write_ordered\<close>: in order, without gaps, without repetitions, whatever the network lost,
  repeated or reordered, and however often packet numbers have wrapped around.
\<close>

theorem end_to_end_ordered:
  assumes "good_build env ctx" "reachable env ctx x y"
  shows "(\<exists>rest. ordered_log y @ ordered_recv_queue (conn y) @ rest = written x KOrdered)
    \<and> (\<exists>rest. ordered_log x @ ordered_recv_queue (conn x) @ rest = written y KOrdered)"
  using good_build_ok [OF assms] by (simp add: system_okD ordered_prefix)

text \<open>
  C6. End to end, in both directions: what \<open>read\<close> has returned, and what is ready to be read,
  are messages written reliably, each at most as often as it was written, and messages of
  unreliable packets, which were written unreliably.
\<close>

theorem end_to_end_unordered:
  assumes "good_build env ctx" "reachable env ctx x y"
  shows "mset (unordered_log y @ unordered_recv_queue (conn y)) \<subseteq># mset (written x KUnordered) + mset (heard y)
    \<and> set (heard y) \<subseteq> set (written x KUnreliable)
    \<and> mset (unordered_log x @ unordered_recv_queue (conn x)) \<subseteq># mset (written y KUnordered) + mset (heard x)
    \<and> set (heard x) \<subseteq> set (written y KUnreliable)"
proof -
  note ok = system_okD [OF good_build_ok [OF assms]]
  show ?thesis
    using unordered_bound [OF ok(1)] unordered_bound [OF ok(2)] heard_written [OF ok(1,3)] heard_written [OF ok(2,4)]
    by blast
qed

text \<open>Both directions are alike.\<close>

lemma reachable_swap: "reachable env ctx x y \<Longrightarrow> reachable env (REVERSE ctx) y x"
proof (induction rule: reachable.induct)
  case (left x y x')
  then show ?case using reachable.right [of env "REVERSE ctx" y x x'] by simp
qed (auto intro: reachable.intros)

section \<open>Nothing is forgotten\<close>

lemma missing_cached:
  assumes "one_way x y" "k \<noteq> KUnreliable" "n < length (made x k)" "n \<notin> got y k"
  shows "length (made x k) \<le> n + 32 \<and> (\<exists>pp. rb_get (send_cache k (conn x)) (word_of_nat n) = Some pp
    \<and> pending_packet pp = packets x k ! n)"
proof -
  have l: "link (k = KOrdered) (send_cache k (conn x)) (packets x k) (got y k)"
    using assms(1,2) by (cases k) (simp_all add: one_way_def sender_ok_def)
  have "\<not> (n + 32 < length (packets x k) \<or> rb_get (send_cache k (conn x)) (seq (int n)) = None)"
    using linkD(6) [OF l, of n] assms(3,4) by (auto simp only: length_map)
  then have n: "length (made x k) \<le> n + 32" "rb_get (send_cache k (conn x)) (seq (int n)) \<noteq> None"
    by simp_all
  then obtain pp where pp: "rb_get (send_cache k (conn x)) (seq (int n)) = Some pp" by blast
  then obtain i where i: "i < length (made x k)" "length (made x k) \<le> i + 32" "seq (int n) = seq (int i)"
      "pending_packet pp = packets x k ! i"
    using linkD(5) [OF l] by fastforce
  then have "n = i" using seq_eq_near [of "int n" "int i"] n(1) assms(3) by simp
  then show ?thesis using n(1) pp i(4) by (simp add: seq_nat)
qed

text \<open>
  C5. A reliable packet that has not arrived is among the last 32 made, and it is in the cache
  under its number, so that it is sent again: no acknowledgement, however it was lost,
  repeated or delayed, removes it early.
\<close>

theorem nothing_forgotten:
  assumes "good_build env ctx" "reachable env ctx x y" "k \<noteq> KUnreliable"
    and "n < length (made x k)" "n \<notin> got y k"
  shows "length (made x k) \<le> n + 32 \<and> (\<exists>pp. rb_get (send_cache k (conn x)) (word_of_nat n) = Some pp
    \<and> pending_packet pp = packets x k ! n)"
  using missing_cached [OF _ assms(3-5)] system_okD(1) [OF good_build_ok [OF assms(1,2)]] by blast

text \<open>
  C4. No call fails: in every reachable state \<open>send\<close> returns \<open>Ok\<close> unless a packet is about to be
  given up, and \<open>recv\<close> returns on whatever the network may deliver; no panic, no endless loop,
  no encoding error.
\<close>

theorem no_call_fails:
  assumes "good_build env ctx" "reachable env ctx x y"
  shows "(patient_com (device x) \<longrightarrow> (\<exists>com. com_send env ctx (on_os o_s (device x)) = Returns (None, com)))
    \<and> (timely y ds x \<and> arrived env ctx y ds o_s \<longrightarrow> (\<exists>com. com_recv env ctx (on_os o_s (device x)) = Returns com))"
proof -
  have ok: "system_ok ctx x y" by (rule good_build_ok [OF assms])
  have b: "\<not> feature_debug env" "lawful_repr (SEND ctx)" "lawful_repr (RECV ctx)"
    using assms(1) by (simp_all add: good_build_def)
  show ?thesis using send_call_rounds [OF ok b(2)] recv_ok [OF ok b(1,3)] by metis
qed

section \<open>What goes out is what may come in\<close>

lemma same_packets_cached: "same_packets r r' \<Longrightarrow> cached r' = cached r"
proof -
  assume "same_packets r r'"
  then have "map_option pending_packet (rb_get r' i) = map_option pending_packet (rb_get r i)" for i
    by (simp add: same_packets_def)
  moreover have "cached r = {p. \<exists>i. map_option pending_packet (rb_get r i) = Some p}" for r
    by (auto simp: cached_def)
  ultimately show ?thesis by (simp only:)
qed

lemma link_cached: "link o_d r ps g \<Longrightarrow> cached r \<subseteq> set ps"
  using linkD(5) by (fastforce simp: cached_def)

text \<open>
  C7. Every datagram a call of \<open>send\<close> puts on the socket is that of a packet made so far, by
  \<open>flush_messages\<close> or as a heartbeat, that is, one that the network of the model may deliver; its
  bytes are the frame the peer reads. It holds of calls in which no packet is about to be given
  up.
\<close>

theorem sent_was_made:
  assumes "good_build env ctx" "reachable env ctx x y" "patient_com (device x)"
    and "com_send env ctx (on_os o_s (device x)) = Returns (e, com)"
  shows "\<exists>ps. outbox (os_socket (com_socket com)) =
      outbox o_s @ map (\<lambda>p. (None, frame (SEND ctx) (CRC env ctx) p)) ps
    \<and> (\<forall>p \<in> set ps. \<exists>k. p \<in> set (packets x k @ made_by_send ctx (on_os o_s (device x)) k))"
proof -
  have ok: "system_ok ctx x y" by (rule good_build_ok [OF assms(1,2)])
  obtain c us os ns where r: "send_rounds env ctx (on_os o_s (device x)) c us os ns com"
    using send_call_rounds [OF ok _ assms(3), of env o_s] assms(1,4) by (auto simp: good_build_def)
  note R = send_roundsD [OF r, unfolded on_os_simps]
  let ?x = "x\<lparr>device := com, made := (\<lambda>k. made x k @ map (stamp x) (made_by_send ctx (on_os o_s (device x)) k))\<rparr>"
  have ok': "one_way ?x y" "endpoint_ok ctx x" using send_ok [OF ok r] ok by (simp_all add: system_ok_def)
  have "link False (reliable_send_packets (com_inner com)) (packets ?x KUnordered) (got y KUnordered)"
    "link True (reliable_ordered_send_packets (com_inner com)) (packets ?x KOrdered) (got y KOrdered)"
    using ok'(1) by (simp_all add: one_way_def sender_ok_def)
  then have "cached (reliable_send_packets c) \<subseteq> set (packets ?x KUnordered)"
    "cached (reliable_ordered_send_packets c) \<subseteq> set (packets ?x KOrdered)"
    using link_cached same_packets_cached [OF R(5)] same_packets_cached [OF R(6)] by blast+
  moreover have "set (unreliable_send_packets c) \<subseteq> set (packets ?x KUnreliable)"
    using flushed_packets [OF R(12)] ok'(2) R(17) by (auto simp: endpoint_ok_def)
  ultimately have "\<exists>k. p \<in> set (packets ?x k)" if "p \<in> held c" for p
    using that unfolding held_def by blast
  then show ?thesis using R(18) by (fastforce simp: emits_def comp_def)
qed

section \<open>One good round\<close>

lemma fold_mark_fields [simp]:
  "ordered_log (fold (mark y) ds x) = ordered_log x" "unordered_log (fold (mark y) ds x) = unordered_log x"
  "written (fold (mark y) ds x) = written x" "made (fold (mark y) ds x) = made x"
  by (induction ds arbitrary: x) (simp_all add: mark_def)

lemma got_fold_mark: "got (fold (mark y) ds x) k = got x k \<union> {n. (k, n) \<in> set ds}"
proof (induction ds arbitrary: x)
  case (Cons d ds)
  then show ?case by (cases d) (auto simp: mark_def)
qed simp

lemma newest_of_less:
  assumes "g \<subseteq> {..<N}"
  shows "newest_of g < int N"
proof (cases "g = {}")
  case False
  then have "Max g \<in> g" using assms finite_subset by (intro Max_in) auto
  then show ?thesis using False assms by (auto simp: newest_of_def)
qed (simp add: newest_of_def)

lemma timely_window:
  assumes "\<forall>n \<in> set ns. n < length (made y k) \<and> length (made y k) \<le> n + 32 \<and> recent x (made y k ! n)"
    and "got x k \<subseteq> {..<length (made y k)}"
  shows "timely y (map (Pair k) ns) x"
  using assms
proof (induction ns arbitrary: x)
  case (Cons n ns)
  have "newest_of (got x k) \<le> int n + 95" using newest_of_less [OF Cons.prems(2)] Cons.prems(1) by simp
  moreover have "timely y (map (Pair k) ns) (mark y (k, n) x)"
    using Cons.prems by (intro Cons.IH) (auto simp: mark_def recent_def)
  ultimately show ?case using Cons.prems(1) by (simp add: deliverable_now_def)
qed simp

text \<open>The numbers of the ordered packets in the cache.\<close>

definition cached_numbers :: "endpoint \<Rightarrow> nat list" where
  "cached_numbers x = (let n = length (made x KOrdered) in
     filter (\<lambda>k. rb_get (reliable_ordered_send_packets (conn x)) (word_of_nat k) \<noteq> None) [n - 32..<n])"

lemma good_round:
  assumes "good_build env ctx" "reachable env ctx x y"
    and "\<forall>n \<in> set (cached_numbers x). recent y (made x KOrdered ! n)"
    and "arrived env (REVERSE ctx) x (map (Pair KOrdered) (cached_numbers x)) o_s"
  shows "timely x (map (Pair KOrdered) (cached_numbers x)) y
    \<and> (\<exists>com. com_recv env (REVERSE ctx) (on_os o_s (device y)) = Returns com
    \<and> ordered_log y @ ordered_recv_queue (com_inner com) = concat (map messages (packets x KOrdered)))"
proof -
  let ?N = "length (made x KOrdered)" and ?ns = "cached_numbers x"
  let ?ds = "map (Pair KOrdered) ?ns"
  have ok: "system_ok (REVERSE ctx) y x" using good_build_ok [OF assms(1,2)] system_ok_swap by blast
  then have l: "link True (reliable_ordered_send_packets (conn x)) (packets x KOrdered) (got y KOrdered)"
    by (simp add: system_ok_def one_way_def sender_ok_def)
  have t: "timely x ?ds y"
    using assms(3) linkD(7) [OF l] by (intro timely_window) (auto simp: cached_numbers_def Let_def)
  obtain com where com: "com_recv env (REVERSE ctx) (on_os o_s (device y)) = Returns com"
      "system_ok (REVERSE ctx) ((fold (mark x) ?ds y)\<lparr>device := com\<rparr>) x" (is "system_ok _ ?y x")
    using recv_ok [OF ok _ _ t, of env o_s] assms(1,4) by (auto simp: good_build_def)
  have r: "receiver_ok ?y (packets x)" using com(2) by (simp add: system_ok_def one_way_def)
  have "n \<in> got ?y KOrdered" if "n < ?N" for n
  proof (cases "n \<in> got y KOrdered")
    case False
    then have "n \<in> set ?ns"
      using missing_cached [of x y KOrdered n] that ok by (auto simp: cached_numbers_def Let_def system_ok_def)
    then show ?thesis by (auto simp: got_fold_mark)
  qed (simp add: got_fold_mark)
  moreover have "got ?y KOrdered \<subseteq> {..<?N}"
    using linkD(7) [OF l] by (auto simp: got_fold_mark cached_numbers_def Let_def)
  ultimately have "first_missing (got ?y KOrdered) = ?N" by (intro first_missing_eqI) auto
  then show ?thesis using t com(1) r by (simp add: receiver_ok_def)
qed

text \<open>
  C2. One good round is enough: if the ordered packets in the cache of one side reach the other
  once, oldest first and with acknowledgements that are not too old, then everything that
  was packed so far has been read or is ready to be read, whatever happened before.
\<close>

theorem one_good_round:
  assumes "good_build env ctx" "reachable env ctx x y"
    and "\<forall>n \<in> set (cached_numbers x). recent y (made x KOrdered ! n)"
    and "arrived env (REVERSE ctx) x (map (Pair KOrdered) (cached_numbers x)) o_s"
  shows "\<exists>com. com_recv env (REVERSE ctx) (on_os o_s (device y)) = Returns com
    \<and> ordered_log y @ ordered_recv_queue (com_inner com) = concat (map messages (packets x KOrdered))"
  using good_round [OF assms] by blast

section \<open>Refinement of a channel\<close>

text \<open>
  A first-in first-out channel: the messages put into it, those of them that have passed
  through it, and those taken out.
\<close>

type_synonym 'm channel = "'m list \<times> 'm list \<times> 'm list"

inductive channel_step :: "'m channel \<Rightarrow> 'm channel \<Rightarrow> bool" where
  put: "channel_step (w, d, r) (w @ [m], d, r)"
| pass: "length d \<le> k \<Longrightarrow> k \<le> length w \<Longrightarrow> channel_step (w, d, r) (w, take k w, r)"
| get: "length r < length d \<Longrightarrow> channel_step (w, d, r) (w, d, r @ [d ! length r])"
| idle: "channel_step c c"

text \<open>The channel from \<open>x\<close> to \<open>y\<close> that the two peers implement.\<close>

definition channel_of :: "endpoint \<Rightarrow> endpoint \<Rightarrow> rval channel" where
  "channel_of x y = (written x KOrdered, ordered_log y @ ordered_recv_queue (conn y), ordered_log y)"

lemma act_channel_send:
  assumes "system_ok ctx x y" "lawful_repr (SEND ctx)" "act env ctx y x x'"
  shows "channel_step (channel_of x y) (channel_of x' y)"
  using assms(3)
proof (cases rule: act.cases)
  case (call_write_ordered m)
  then show ?thesis using channel_step.put by (simp add: channel_of_def)
qed (simp_all add: channel_of_def channel_step.idle)

lemma ordered_prefix_take: "one_way y x \<Longrightarrow>
    ordered_log x @ ordered_recv_queue (conn x) =
      take (length (ordered_log x @ ordered_recv_queue (conn x))) (written y KOrdered)"
  using ordered_prefix [of y x] by (metis append_assoc append_eq_conv_conj)

lemma act_channel_recv:
  assumes ok: "system_ok ctx x y" and b: "good_build env ctx" and act: "act env ctx y x x'"
  shows "channel_step (channel_of y x) (channel_of y x')"
  using act
proof (cases rule: act.cases)
  case (call_read_ordered m com)
  then show ?thesis
    using channel_step.get [of "ordered_log x" "ordered_log x @ ordered_recv_queue (conn x)" "written y KOrdered"]
      channel_step.idle
    by (cases "ordered_recv_queue (conn x)") (auto simp: com_read_ordered_def channel_of_def nth_append)
next
  case (call_send o_s e com)
  obtain c us os ns com' where "com_send env ctx (on_os o_s (device x)) = Returns (None, com')"
      "send_rounds env ctx (on_os o_s (device x)) c us os ns com'"
    using send_call_rounds [OF ok _ call_send(2), of env o_s] b unfolding good_build_def by blast
  then have "ordered_recv_queue (com_inner com) = ordered_recv_queue (conn x)"
    using send_roundsD(7) [of env ctx "on_os o_s (device x)"] call_send(3) by (auto simp: same_recv_def)
  then show ?thesis using call_send(1) by (simp add: channel_of_def channel_step.idle)
next
  case (call_recv ds o_s com)
  have ok': "system_ok ctx x' y" using act_ok [OF act ok] b by (simp add: good_build_def)
  let ?h = "first_missing (got x KOrdered)" and ?h' = "first_missing (got x' KOrdered)"
  let ?d = "ordered_log x @ ordered_recv_queue (conn x)" and ?d' = "ordered_log x' @ ordered_recv_queue (conn x')"
  have r: "receiver_ok x (packets y)" "receiver_ok x' (packets y)" "one_way y x'"
    using ok ok' by (simp_all add: system_ok_def one_way_def)
  have "?h \<le> ?h'"
    using r by (intro first_missing_mono) (auto simp: receiver_ok_def ordered_state_def call_recv(1) got_fold_mark)
  then have "take ?h' (packets y KOrdered) = take ?h (packets y KOrdered) @ drop ?h (take ?h' (packets y KOrdered))"
    by (metis append_take_drop_id min.absorb1 take_take)
  then have "length ?d \<le> length ?d'" using r(1,2) by (simp add: receiver_ok_def) (metis concat_append le_add1 length_append map_append)
  moreover have eq: "?d' = take (length ?d') (written y KOrdered)" using r(3) by (rule ordered_prefix_take)
  moreover have "length ?d' \<le> length (written y KOrdered)" using arg_cong [OF eq, of length] by simp
  moreover have "ordered_log x' = ordered_log x" by (simp add: call_recv(1))
  ultimately show ?thesis unfolding channel_of_def by (metis channel_step.pass)
next
  case (call_write m)
  then show ?thesis by (simp add: channel_of_def com_write_def channel_step.idle)
next
  case (call_write_reliable m)
  then show ?thesis by (simp add: channel_of_def com_write_reliable_def channel_step.idle)
next
  case (call_write_ordered m)
  then show ?thesis by (simp add: channel_of_def com_write_ordered_def channel_step.idle)
next
  case (call_write_heartbeat com)
  then show ?thesis
    by (simp add: channel_of_def com_write_heartbeat_def inner_write_heartbeat_def Let_def channel_step.idle)
next
  case (call_read m com)
  then show ?thesis
    by (cases "unordered_recv_queue (conn x)") (auto simp: channel_of_def com_read_def channel_step.idle)
qed

text \<open>
  C3. Refinement: every call on one of the two peers is, for the channel from it and for the
  channel to it, a step of a first-in first-out channel, or none.
\<close>

theorem refines_channel:
  assumes "good_build env ctx" "reachable env ctx x y" "act env ctx y x x'"
  shows "channel_step (channel_of x y) (channel_of x' y) \<and> channel_step (channel_of y x) (channel_of y x')"
  using act_channel_send act_channel_recv good_build_ok [OF assms(1,2)] assms(1,3) by (auto simp: good_build_def)

section \<open>A run\<close>

text \<open>
  Two fresh peers; the first writes one ordered message and sends, the second receives. The
  witnesses below apply the theorems to the states of this run.
\<close>

definition demo_endpoint :: endpoint where
  "demo_endpoint = start \<lparr>com_socket = demo_socket, com_inner = demo_inner\<rparr>"

definition demo_writer :: endpoint where
  "demo_writer = demo_endpoint\<lparr>device := com_write_ordered (REnum 0 []) (device demo_endpoint),
     written := (written demo_endpoint)(KOrdered := [REnum 0 []])\<rparr>"

lemma demo_good: "good_build demo_env demo_ctx"
  using test_message_lawful by (simp add: good_build_def)

lemma demo_start: "reachable demo_env demo_ctx demo_endpoint demo_endpoint"
  unfolding demo_endpoint_def by (rule reachable.init) (auto simp: newly_bound_def demo_inner_def)

lemma demo_write: "act demo_env demo_ctx demo_endpoint demo_endpoint demo_writer"
proof -
  have "may_write demo_ctx (REnum 0 []) (reliable_ordered_send_queue (conn demo_endpoint))"
    by (simp add: may_write_def demo_endpoint_def start_def MAX_PACKET_DATA_LEN_def)
  from call_write_ordered [OF this, of demo_env demo_endpoint] show ?thesis
    by (simp add: demo_writer_def demo_endpoint_def start_def)
qed

lemma demo_written: "reachable demo_env demo_ctx demo_writer demo_endpoint"
  using demo_start demo_write by (rule reachable.left)

lemma demo_patient: "patient_com (device demo_writer)"
  by (simp add: patient_com_def patient_def demo_writer_def demo_endpoint_def start_def com_write_ordered_def
    demo_socket_def)

lemma flush_loop_Nil: "flush_loop d rel ord o_d r [] s = Some (r, [], s)"
  by (subst flush_loop.simps) simp

lemma flush_loop_single:
  assumes "\<not> rb_push_will_override r" "byte_len d m \<le> MAX_PACKET_DATA_LEN"
  shows "flush_loop d rel ord o_d r [m] s =
    Some (snd (rb_push r (new_pending rel ord o_d s 0 (newest r + 1) [m])), [], snd (now s))"
  using assms by (subst flush_loop.simps) (simp add: flush_step_eq Let_def flush_loop_Nil)

lemma demo_made: "map messages (made_by_send demo_ctx (on_os o_s (device demo_writer)) KOrdered) = [[REnum 0 []]]"
proof -
  let ?c = "demo_inner\<lparr>reliable_ordered_send_queue := [REnum 0 []]\<rparr>" and ?s = "demo_socket\<lparr>os_socket := o_s\<rparr>"
  let ?new = "new_pending rb_default rb_default True ?s 0 (u16_MAX + 1) [REnum 0 []]"
  let ?r = "snd (rb_push rb_default ?new)"
  have c: "conn demo_writer = ?c" "com_socket (on_os o_s (device demo_writer)) = ?s"
    by (simp_all add: on_os_def demo_writer_def demo_endpoint_def start_def com_write_ordered_def)
  have "prepared ?c = ?c" by (simp add: prepared_def demo_inner_def inner_default_def now_def)
  moreover have free: "\<not> rb_push_will_override (rb_default :: pending ring)"
    using rb_push_will_override_iff [of "rb_default :: pending ring"] by simp
  moreover have "flush_unreliable d c = Some c" if "unreliable_send_queue c = []" for d c
    using that by (subst flush_unreliable.simps) simp
  ultimately have "\<exists>c s. flush_messages demo_ctx (prepared ?c) ?s = Returns (c, s)
      \<and> reliable_ordered_send_packets c = ?r"
    using flush_loop_single [OF free, of test_message "REnum 0 []" rb_default rb_default True ?s]
    by (simp add: flush_messages_def flush_loop_Nil MAX_PACKET_DATA_LEN_def)
  moreover have "fresh_packets rb_default ?r = [pending_packet ?new]"
    using rb_get_push_free [OF rb_default_simps(1) free, of ?new "u16_MAX + 1"] by (simp add: fresh_packets_def ahead_def)
  ultimately show ?thesis by (auto simp: made_by_send_def c new_pending_def)
qed

lemma demo_send:
  "\<exists>com. com_send demo_env demo_ctx (on_os demo_os (device demo_writer)) = Returns (None, com)"
  using send_call_rounds [OF good_build_ok [OF demo_good demo_written] _ demo_patient] demo_good
  by (fastforce simp: good_build_def)

definition one_sent :: "endpoint \<Rightarrow> bool" where
  "one_sent x \<longleftrightarrow> map messages (packets x KOrdered) = [[REnum 0 []]] \<and> written x KOrdered = [REnum 0 []]
    \<and> recent demo_endpoint (made x KOrdered ! 0)"

lemma demo_sent: "\<exists>x. reachable demo_env demo_ctx x demo_endpoint \<and> one_sent x"
proof -
  obtain com where com: "com_send demo_env demo_ctx (on_os demo_os (device demo_writer)) = Returns (None, com)"
    using demo_send by blast
  let ?x = "demo_writer\<lparr>device := com, made := (\<lambda>k. made demo_writer k @
    map (stamp demo_writer) (made_by_send demo_ctx (on_os demo_os (device demo_writer)) k))\<rparr>"
  let ?p = "made_by_send demo_ctx (on_os demo_os (device demo_writer)) KOrdered"
  have empty: "made demo_writer k = []" "got demo_writer k = {}" for k
    by (simp_all add: demo_writer_def demo_endpoint_def start_def)
  obtain p where p: "?p = [p]" "messages p = [REnum 0 []]" using demo_made [of demo_os] by auto
  have "reachable demo_env demo_ctx ?x demo_endpoint"
    using demo_written call_send [OF demo_patient com] by (rule reachable.left)
  moreover have "one_sent ?x"
    using p by (simp add: one_sent_def empty recent_def stamp_def newest_of_def demo_writer_def demo_endpoint_def start_def)
  ultimately show ?thesis by blast
qed

lemma demo_arrived: "arrived env ctx y ds (demo_os\<lparr>inbox :=
    map (\<lambda>d. Some (7, frame (RECV ctx) (CRC env ctx) (packet_of y d))) ds\<rparr>)"
  unfolding arrived_def
  by (rule exI [of _ "replicate (length ds) 7"], simp, rule nth_equalityI) simp_all

text \<open>What one good round gives for the packet that was sent.\<close>

lemma demo_round:
  assumes "map messages (packets x KOrdered) = [[REnum 0 []]]" "recent y (made x KOrdered ! 0)"
  shows "\<forall>n \<in> set (cached_numbers x). recent y (made x KOrdered ! n)"
    and "concat (map messages (packets x KOrdered)) = [REnum 0 []]"
proof -
  have "length (made x KOrdered) = 1" using arg_cong [OF assms(1), of length] by simp
  then show "\<forall>n \<in> set (cached_numbers x). recent y (made x KOrdered ! n)"
    using assms(2) by (simp add: cached_numbers_def)
  show "concat (map messages (packets x KOrdered)) = [REnum 0 []]" unfolding assms(1) by simp
qed

lemma demo_delivered:
  "\<exists>x y. reachable demo_env demo_ctx x y \<and> written x KOrdered = [REnum 0 []]
    \<and> ordered_log y @ ordered_recv_queue (conn y) = [REnum 0 []]"
proof -
  obtain x where sent: "reachable demo_env demo_ctx x demo_endpoint" "one_sent x" using demo_sent by blast
  note x = sent(1) sent(2) [unfolded one_sent_def, THEN conjunct1]
    sent(2) [unfolded one_sent_def, THEN conjunct2, THEN conjunct1]
    sent(2) [unfolded one_sent_def, THEN conjunct2, THEN conjunct2]
  let ?ds = "map (Pair KOrdered) (cached_numbers x)"
  let ?o = "demo_os\<lparr>inbox := map (\<lambda>d. Some (7, frame (RECV (REVERSE demo_ctx)) (CRC demo_env (REVERSE demo_ctx))
    (packet_of x d))) ?ds\<rparr>"
  have a: "arrived demo_env (REVERSE demo_ctx) x ?ds ?o" by (rule demo_arrived)
  note round = demo_round [OF x(2,4)]
  obtain com where com: "timely x ?ds demo_endpoint"
      "com_recv demo_env (REVERSE demo_ctx) (on_os ?o (device demo_endpoint)) = Returns com"
      "ordered_log demo_endpoint @ ordered_recv_queue (com_inner com) = [REnum 0 []]"
    using good_round [OF demo_good x(1) round(1) a] unfolding round(2) by blast
  have "reachable demo_env demo_ctx x ((fold (mark x) ?ds demo_endpoint)\<lparr>device := com\<rparr>)"
    using x(1) call_recv [OF com(1) a com(2)] by (rule reachable.right)
  then show ?thesis using x(3) com(3) by fastforce
qed

text \<open>
  A second run: the first peer writes one unordered message and sends, and the network delivers
  the packet twice.
\<close>

definition demo_reliable :: endpoint where
  "demo_reliable = demo_endpoint\<lparr>device := com_write_reliable (REnum 0 []) (device demo_endpoint),
     written := (written demo_endpoint)(KUnordered := [REnum 0 []])\<rparr>"

lemma demo_reliable_written: "reachable demo_env demo_ctx demo_reliable demo_endpoint"
proof -
  have "may_write demo_ctx (REnum 0 []) (reliable_send_queue (conn demo_endpoint))"
    by (simp add: may_write_def demo_endpoint_def start_def MAX_PACKET_DATA_LEN_def)
  from call_write_reliable [OF this, of demo_env demo_endpoint]
  have "act demo_env demo_ctx demo_endpoint demo_endpoint demo_reliable"
    by (simp add: demo_reliable_def demo_endpoint_def start_def)
  then show ?thesis using demo_start by (rule reachable.left [rotated])
qed

lemma demo_reliable_patient: "patient_com (device demo_reliable)"
  by (simp add: patient_com_def patient_def demo_reliable_def demo_endpoint_def start_def com_write_reliable_def
    demo_socket_def)

lemma demo_reliable_made:
  "map messages (made_by_send demo_ctx (on_os o_s (device demo_reliable)) KUnordered) = [[REnum 0 []]]"
proof -
  let ?c = "demo_inner\<lparr>reliable_send_queue := [REnum 0 []]\<rparr>" and ?s = "demo_socket\<lparr>os_socket := o_s\<rparr>"
  let ?new = "new_pending rb_default rb_default False ?s 0 (u16_MAX + 1) [REnum 0 []]"
  let ?r = "snd (rb_push rb_default ?new)"
  have c: "conn demo_reliable = ?c" "com_socket (on_os o_s (device demo_reliable)) = ?s"
    by (simp_all add: on_os_def demo_reliable_def demo_endpoint_def start_def com_write_reliable_def)
  have "prepared ?c = ?c" by (simp add: prepared_def demo_inner_def inner_default_def now_def)
  moreover have free: "\<not> rb_push_will_override (rb_default :: pending ring)"
    using rb_push_will_override_iff [of "rb_default :: pending ring"] by simp
  moreover have "flush_unreliable d c = Some c" if "unreliable_send_queue c = []" for d c
    using that by (subst flush_unreliable.simps) simp
  ultimately have "\<exists>c s. flush_messages demo_ctx (prepared ?c) ?s = Returns (c, s) \<and> reliable_send_packets c = ?r"
    using flush_loop_single [OF free, of test_message "REnum 0 []" rb_default rb_default False ?s]
    by (simp add: flush_messages_def flush_loop_Nil MAX_PACKET_DATA_LEN_def)
  moreover have "fresh_packets rb_default ?r = [pending_packet ?new]"
    using rb_get_push_free [OF rb_default_simps(1) free, of ?new "u16_MAX + 1"] by (simp add: fresh_packets_def ahead_def)
  ultimately show ?thesis by (auto simp: made_by_send_def c new_pending_def)
qed

lemma demo_twice:
  "\<exists>x y. reachable demo_env demo_ctx x y \<and> written x KUnordered = [REnum 0 []] \<and> heard y = []
    \<and> mset (unordered_log y @ unordered_recv_queue (conn y)) = {#REnum 0 []#}"
proof -
  note good = demo_good [unfolded good_build_def]
  obtain com where com: "com_send demo_env demo_ctx (on_os demo_os (device demo_reliable)) = Returns (None, com)"
    using send_call_rounds [OF good_build_ok [OF demo_good demo_reliable_written] _ demo_reliable_patient] good
    by fastforce
  let ?x = "demo_reliable\<lparr>device := com, made := (\<lambda>k. made demo_reliable k @
    map (stamp demo_reliable) (made_by_send demo_ctx (on_os demo_os (device demo_reliable)) k))\<rparr>"
  have x: "reachable demo_env demo_ctx ?x demo_endpoint" "written ?x KUnordered = [REnum 0 []]"
    using reachable.left [OF demo_reliable_written call_send [OF demo_reliable_patient com]]
    by (simp_all add: demo_reliable_def)
  obtain p where p: "packets ?x KUnordered = [p]" "messages p = [REnum 0 []]"
      "made ?x KUnordered = [stamp demo_reliable p]"
    using demo_reliable_made [of demo_os] by (auto simp: demo_reliable_def demo_endpoint_def start_def stamp_def)
  let ?ds = "[(KUnordered, 0), (KUnordered, 0)]"
  have fresh: "made demo_endpoint k = []" "got demo_endpoint k = {}" "heard demo_endpoint = []"
    "knew_unordered (stamp demo_reliable p) = - 1" "knew_ordered (stamp demo_reliable p) = - 1" for k
    by (simp_all add: demo_endpoint_def start_def stamp_def demo_reliable_def newest_of_def)
  have ds: "timely ?x ?ds demo_endpoint"
    using p(3) by (simp add: deliverable_now_def recent_def mark_def fresh newest_of_def)
  have ok: "system_ok (REVERSE demo_ctx) demo_endpoint ?x"
    using good_build_ok [OF demo_good x(1)] by (rule iffD1 [OF system_ok_swap])
  have "\<not> feature_debug demo_env" "lawful_repr (RECV (REVERSE demo_ctx))" using good by simp_all
  then obtain o_s com' where com': "arrived demo_env (REVERSE demo_ctx) ?x ?ds o_s"
      "com_recv demo_env (REVERSE demo_ctx) (on_os o_s (device demo_endpoint)) = Returns com'"
    using recv_ok [OF ok _ _ ds demo_arrived] demo_arrived by blast
  let ?y = "(fold (mark ?x) ?ds demo_endpoint)\<lparr>device := com'\<rparr>"
  have y: "reachable demo_env demo_ctx ?x ?y"
    using x(1) call_recv [OF ds com'] by (rule reachable.right)
  have "got ?y KUnordered = {0}" "heard ?y = []" by (simp_all add: mark_def fresh)
  moreover have "receiver_ok ?y (packets ?x)"
    using good_build_ok [OF demo_good y] by (simp add: system_ok_def one_way_def)
  ultimately have "mset (unordered_log ?y @ unordered_recv_queue (conn ?y)) = {#REnum 0 []#}"
    unfolding receiver_ok_def delivered_once_def p(1) by (simp add: p(2))
  then show ?thesis using y x(2) \<open>heard ?y = []\<close> by blast
qed

section \<open>Witnesses\<close>

theorem end_to_end_ordered_witness:
  "\<exists>(x :: endpoint) y rest. ordered_log y @ ordered_recv_queue (conn y) = [REnum 0 []]
    \<and> ordered_log y @ ordered_recv_queue (conn y) @ rest = [REnum 0 []] \<and> written x KOrdered = [REnum 0 []]"
proof -
  obtain x y where d: "reachable demo_env demo_ctx x y" "written x KOrdered = [REnum 0 []]"
      "ordered_log y @ ordered_recv_queue (conn y) = [REnum 0 []]"
    using demo_delivered by blast
  then show ?thesis using end_to_end_ordered [OF demo_good d(1)] by metis
qed

theorem end_to_end_unordered_witness:
  "\<exists>(x :: endpoint) y. written x KUnordered = [REnum 0 []]
    \<and> mset (unordered_log y @ unordered_recv_queue (conn y)) = {#REnum 0 []#}
    \<and> mset (unordered_log y @ unordered_recv_queue (conn y)) \<subseteq># mset (written x KUnordered)"
proof -
  obtain x y where d: "reachable demo_env demo_ctx x y" "written x KUnordered = [REnum 0 []]" "heard y = []"
      "mset (unordered_log y @ unordered_recv_queue (conn y)) = {#REnum 0 []#}"
    using demo_twice by blast
  then show ?thesis using end_to_end_unordered [OF demo_good d(1)] by (intro exI [of _ x] exI [of _ y]) simp
qed

theorem nothing_forgotten_witness:
  "\<exists>(x :: endpoint) pp. rb_get (reliable_ordered_send_packets (conn x)) 0 = Some pp \<and> messages (pending_packet pp) = [REnum 0 []]"
proof -
  obtain x where sent: "reachable demo_env demo_ctx x demo_endpoint" "one_sent x" using demo_sent by blast
  note x = sent(1) sent(2) [unfolded one_sent_def, THEN conjunct1]
  then have "length (made x KOrdered) = 1" "messages (packets x KOrdered ! 0) = [REnum 0 []]"
    by (auto simp: map_eq_Cons_conv)
  moreover have "0 \<notin> got demo_endpoint KOrdered" by (simp add: demo_endpoint_def start_def)
  ultimately obtain pp where "rb_get (send_cache KOrdered (conn x)) (word_of_nat 0) = Some pp"
      "messages (pending_packet pp) = [REnum 0 []]"
    using nothing_forgotten [OF demo_good x(1), of KOrdered 0] by auto
  then show ?thesis by (intro exI [of _ x] exI [of _ pp]) simp
qed

theorem no_call_fails_witness:
  "\<exists>com. com_send demo_env demo_ctx (on_os demo_os (device demo_writer)) = Returns (None, com)"
  using no_call_fails [OF demo_good demo_written] demo_patient by blast

theorem sent_was_made_witness:
  "\<exists>com ps. com_send demo_env demo_ctx (on_os demo_os (device demo_writer)) = Returns (None, com)
    \<and> outbox (os_socket (com_socket com)) =
        map (\<lambda>p. (None, frame test_message (CRC demo_env demo_ctx) p)) ps"
proof -
  obtain com where com: "com_send demo_env demo_ctx (on_os demo_os (device demo_writer)) = Returns (None, com)"
    using demo_send by blast
  have "outbox demo_os = []" by (simp add: demo_os_def)
  then show ?thesis using sent_was_made [OF demo_good demo_written demo_patient com] com by auto
qed

theorem one_good_round_witness:
  "\<exists>(x :: endpoint) o_s com. com_recv demo_env (REVERSE demo_ctx) (on_os o_s (device demo_endpoint)) = Returns com
    \<and> written x KOrdered = [REnum 0 []] \<and> ordered_recv_queue (com_inner com) = [REnum 0 []]"
proof -
  obtain x where sent: "reachable demo_env demo_ctx x demo_endpoint" "one_sent x" using demo_sent by blast
  note x = sent(1) sent(2) [unfolded one_sent_def, THEN conjunct1]
    sent(2) [unfolded one_sent_def, THEN conjunct2, THEN conjunct1]
    sent(2) [unfolded one_sent_def, THEN conjunct2, THEN conjunct2]
  obtain o_s com where "com_recv demo_env (REVERSE demo_ctx) (on_os o_s (device demo_endpoint)) = Returns com"
      "ordered_log demo_endpoint @ ordered_recv_queue (com_inner com) = [REnum 0 []]"
    using one_good_round [OF demo_good x(1) demo_round(1) [OF x(2,4)] demo_arrived]
    unfolding demo_round(2) [OF x(2,4)] by metis
  moreover have "ordered_log demo_endpoint = []" by (simp add: demo_endpoint_def start_def)
  ultimately show ?thesis using x(3) by (metis append_Nil)
qed

theorem refines_channel_witness:
  "channel_step ([], [], []) ([REnum 0 []], [], [])"
  using refines_channel [OF demo_good demo_start demo_write]
  by (simp add: channel_of_def demo_writer_def demo_endpoint_def start_def)

end
