(* ===== verification/DeriveTypes.thy ===== *)
theory DeriveTypes
  imports DeriveGroup
begin

text \<open>
  How the macro reads a type: \<open>Value::from_type\<close> of \<open>derive/src/data.rs\<close> on the syntax trees of
  the crate \<open>syn\<close>, and the type a \<open>Value\<close> prints itself as (\<open>Value::name\<close>, which \<open>ToTokens\<close>
  uses). The macro sees tokens only: which type a name stands for is the compiler's to find.
\<close>

section \<open>Syntax trees\<close>

text \<open>
  The operators of integer expressions (\<open>syn::BinOp\<close>, less the comparisons, the boolean operators
  and the assignments) and how tightly they bind.
\<close>

datatype binop = Add | Sub | Mul | Div | Rem | Shl | Shr | BitAnd | BitXor | BitOr

fun precedence :: "binop \<Rightarrow> nat" where
  "precedence Mul = 5" | "precedence Div = 5" | "precedence Rem = 5"
| "precedence Add = 4" | "precedence Sub = 4"
| "precedence Shl = 3" | "precedence Shr = 3"
| "precedence BitAnd = 2" | "precedence BitXor = 1" | "precedence BitOr = 0"

text \<open>
  The tokens of an integer expression; \<open>'a\<close> are the operands that are not literals. In an
  expression of the user, the length of an array, these are the expressions that bind tighter
  than every binary operator, by their text: a path to a constant, a call, a block, a cast.
\<close>

datatype 'a token = Lit nat | Op binop | Parens "'a token list" | Atom 'a

abbreviation Plus :: "'a token" where "Plus \<equiv> Op Add"
abbreviation Times :: "'a token" where "Times \<equiv> Op Mul"

type_synonym const_expr = "string token list"

text \<open>
  \<open>syn::Type\<close> as far as the macro distinguishes it: a path with its qualified self type, its
  leading colon and its segments, a tuple, an array, and every other type.
\<close>

datatype syn_type =
    TypePath "syn_type option" bool "(string \<times> path_arguments) list"
  | TypeTuple "syn_type list"
  | TypeArray syn_type const_expr
  | TypeOther string
and path_arguments =
    NoArguments
  | AngleBracketed "generic_argument list"
  | Parenthesized string
and generic_argument =
    ArgType syn_type
  | ArgOther string

text \<open>
  \<open>Path::get_ident\<close> of the crate \<open>syn\<close>, as its documentation has it: a path is one name if it has no
  leading colon and one segment, without arguments.
\<close>

fun get_ident :: "bool \<Rightarrow> (string \<times> path_arguments) list \<Rightarrow> string option" where
  "get_ident False [(ident, NoArguments)] = Some ident"
| "get_ident _ _ = None"

text \<open>The last generic argument, if it is a type, of a last segment in angle brackets.\<close>

fun last_argument :: "generic_argument list \<Rightarrow> syn_type option" where
  "last_argument [] = None"
| "last_argument [ArgType t] = Some t"
| "last_argument [ArgOther s] = None"
| "last_argument (_ # args) = last_argument args"

fun last_generic :: "(string \<times> path_arguments) list \<Rightarrow> (string \<times> syn_type) option" where
  "last_generic [] = None"
| "last_generic [(ident, AngleBracketed args)] = map_option (Pair ident) (last_argument args)"
| "last_generic [_] = None"
| "last_generic (_ # segments) = last_generic segments"

lemma last_argument_size: "last_argument args = Some t \<Longrightarrow> size t < Suc (size_list size args)"
  by (induction args rule: last_argument.induct) auto

lemma last_generic_size:
  "last_generic segments = Some (i, t) \<Longrightarrow> size t < Suc (size_list (size_prod (\<lambda>_. 0) size) segments)"
  by (induction segments rule: last_generic.induct) (auto dest!: last_argument_size)

section \<open>From types to values\<close>

text \<open>The names \<open>from_type\<close> knows.\<close>

definition known_idents :: "(string \<times> (syn_type, const_expr) shape) list" where
  "known_idents =
     [(''bool'', VBool), (''u8'', VU8), (''i8'', VI8), (''u16'', VU16), (''i16'', VI16),
      (''u32'', VU32), (''i32'', VI32), (''f32'', VF32), (''u64'', VU64), (''i64'', VI64),
      (''f64'', VF64), (''usize'', VUSize), (''isize'', VISize), (''u128'', VU128),
      (''i128'', VI128), (''String'', VString 1020 False), (''str'', VString 1020 True)]"

function from_type :: "syn_type \<Rightarrow> (syn_type, const_expr) shape" where
  "from_type (TypePath qself leading_colon segments) =
     (let ty = TypePath qself leading_colon segments
      in case get_ident leading_colon segments of
           Some ident \<Rightarrow>
             (case map_of known_idents ident of Some v \<Rightarrow> v | None \<Rightarrow> VDelegated ty)
         | None \<Rightarrow>
             (case last_generic segments of
                Some (ident, t) \<Rightarrow>
                  if ident = ''Vec'' then VVec (from_type t) 1000
                  else if ident = ''Cow'' then VCow (from_type t)
                  else if ident = ''Option'' then VOption (from_type t)
                  else VDelegated ty
              | None \<Rightarrow> VDelegated ty))"
| "from_type (TypeTuple elems) = (if elems = [] then VEmptyTuple else VDelegated (TypeTuple elems))"
| "from_type (TypeArray elem len) = VArray (from_type elem) len"
| "from_type (TypeOther s) = VDelegated (TypeOther s)"
  by pat_completeness auto
termination by (relation "measure size") (auto dest: last_generic_size)

section \<open>From values to types\<close>

abbreviation named_type :: "string \<Rightarrow> syn_type" where
  "named_type ident \<equiv> TypePath None False [(ident, NoArguments)]"

abbreviation generic_type :: "string \<Rightarrow> syn_type \<Rightarrow> syn_type" where
  "generic_type ident t \<equiv> TypePath None False [(ident, AngleBracketed [ArgType t])]"

text \<open>\<open>Value::name\<close>.\<close>

fun name :: "(syn_type, const_expr) shape \<Rightarrow> syn_type" where
  "name VEmptyTuple = TypeTuple []"
| "name VBool = named_type ''bool''" | "name VU8 = named_type ''u8''" | "name VI8 = named_type ''i8''"
| "name VU16 = named_type ''u16''" | "name VI16 = named_type ''i16''"
| "name VU32 = named_type ''u32''" | "name VI32 = named_type ''i32''" | "name VF32 = named_type ''f32''"
| "name VU64 = named_type ''u64''" | "name VI64 = named_type ''i64''" | "name VF64 = named_type ''f64''"
| "name VUSize = named_type ''usize''" | "name VISize = named_type ''isize''"
| "name VU128 = named_type ''u128''" | "name VI128 = named_type ''i128''"
| "name (VString max_length is_str) = named_type (if is_str then ''str'' else ''String'')"
| "name (VCow v) = generic_type ''Cow'' (name v)"
| "name (VOption v) = generic_type ''Option'' (name v)"
| "name (VArray v len) = TypeArray (name v) len"
| "name (VVec v max_length) = generic_type ''Vec'' (name v)"
| "name (VDelegated ty) = ty"

section \<open>Printing and reading back\<close>

text \<open>The values \<open>from_type\<close> returns print a type that is read as the same value.\<close>

definition canonical :: "(syn_type, const_expr) shape \<Rightarrow> bool" where
  "canonical v \<longleftrightarrow> from_type (name v) = v"

lemma known_ident_canonical:
  assumes "map_of known_idents i = Some v"
  shows "canonical v"
proof -
  have "(i, v) \<in> set known_idents" using assms by (rule map_of_SomeD)
  then show ?thesis by (auto simp: canonical_def known_idents_def)
qed

lemma from_type_canonical: "canonical (from_type ty)"
proof (induction ty rule: from_type.induct)
  case (1 qself leading_colon segments)
  let ?ty = "TypePath qself leading_colon segments"
  show ?case
  proof (cases "get_ident leading_colon segments")
    case None
    have "canonical (from_type t)" if "last_generic segments = Some (i, t)" "i = ''Vec'' \<or> i = ''Cow'' \<or> i = ''Option''" for i t
      using 1 None that by (auto simp: canonical_def)
    with None show ?thesis
      by (cases "last_generic segments") (auto simp: canonical_def)
  next
    case (Some i)
    then show ?thesis
      using known_ident_canonical [of i] by (cases "map_of known_idents i") (auto simp: canonical_def)
  qed
qed (auto simp: canonical_def)

lemma canonicalE:
  "canonical (VCow v) \<Longrightarrow> canonical v"
  "canonical (VOption v) \<Longrightarrow> canonical v"
  "canonical (VVec v m) \<Longrightarrow> canonical v \<and> m = 1000"
  "canonical (VArray v e) \<Longrightarrow> canonical v"
  "canonical (VDelegated ty) \<Longrightarrow> from_type ty = VDelegated ty"
  by (simp_all add: canonical_def)

end
