(* ===== verification/DeriveNames.thy ===== *)
theory DeriveNames
  imports DeriveGroup
begin

text \<open>
  The identifiers the macro makes up for fields (\<open>FieldIdentifier\<close> of \<open>derive/src/data.rs\<close>) and
  the code it emits to read a group of fields, with the names it binds: \<open>let\<close> after \<open>let\<close> into
  one scope, where a later binding hides an earlier one of the same name.
\<close>

section \<open>Identifiers\<close>

datatype field_ident = Named string | Unnamed nat | Access string | NoIdent

text \<open>The decimal numeral of an index.\<close>

fun decimal :: "nat \<Rightarrow> string" where
  "decimal n = (if n < 10 then [char_of (48 + n)] else decimal (n div 10) @ [char_of (48 + n mod 10)])"

declare decimal.simps [simp del]

text \<open>\<open>FieldIdentifier::as_tokens\<close>, with the flag \<open>is_binding\<close>, and \<open>Field::fixed_ident\<close>.\<close>

fun as_tokens :: "field_ident \<Rightarrow> bool \<Rightarrow> string" where
  "as_tokens (Named ident) is_binding = ''named_'' @ ident"
| "as_tokens (Unnamed index) is_binding = ''unnamed_'' @ decimal index"
| "as_tokens (Access access) is_binding = access"
| "as_tokens NoIdent is_binding = (if is_binding then ''this'' else ''self'')"

definition fixed_ident :: "field_ident \<Rightarrow> string" where
  "fixed_ident ident = as_tokens ident True @ ''_fixed''"

text \<open>
  What \<open>#field\<close> stands for when a length is computed: a variable, or a field of \<open>self\<close>;
  \<open>None\<close> is the \<open>unreachable!()\<close> of \<open>Field::length\<close>.
\<close>

datatype place = Variable string | SelfField field_ident

fun length_place :: "bool \<Rightarrow> field_ident \<Rightarrow> place option" where
  "length_place True ident = Some (Variable (as_tokens ident False))"
| "length_place False (Access access) = None"
| "length_place False ident = Some (SelfField ident)"

section \<open>Reading by names\<close>

type_synonym scope = "string \<rightharpoonup> fixed_read"

type_synonym named_field = "field_ident \<times> byte_offset \<times> field_value"

text \<open>What the statement of \<open>read_fixed_part\<close> binds: the field, or its tag or length.\<close>

fun bind_fixed :: "field_ident \<Rightarrow> fixed_read \<Rightarrow> scope \<Rightarrow> scope" where
  "bind_fixed ident FNothing sc = sc"
| "bind_fixed ident (FValue x) sc = sc(as_tokens ident True \<mapsto> FValue x)"
| "bind_fixed ident fx sc = sc(fixed_ident ident \<mapsto> fx)"

fun read_fixed_named :: "named_field list \<Rightarrow> u8 list \<Rightarrow> scope \<Rightarrow> scope res" where
  "read_fixed_named [] bytes sc = Ok sc"
| "read_fixed_named ((ident, off, v) # fs) bytes sc =
     res_bind (read_fixed_part v off (bytes, 0)) (\<lambda>(fx, _).
       read_fixed_named fs bytes (bind_fixed ident fx sc))"

text \<open>
  The variable part of a field: whether it emits anything, whether that uses the name of the
  fixed part, and what the name is worth. A \<open>usize\<close> or \<open>bool\<close> of that name serves as well as the
  length or the tag; where the types differ, or the name is unbound, the code does not compile
  (\<open>None\<close>, below \<open>Panic\<close>).
\<close>

definition emits_variable :: "('d, 'l) shape \<Rightarrow> bool" where
  "emits_variable v \<longleftrightarrow> \<not> is_static v \<or> is_cow v \<or> is_option v"

fun as_prefix :: "fixed_read \<Rightarrow> fixed_read option" where
  "as_prefix (FLen n) = Some (FLen n)"
| "as_prefix (FValue (RBits n)) = Some (FLen n)"
| "as_prefix _ = None"

fun as_tag :: "fixed_read \<Rightarrow> fixed_read option" where
  "as_tag (FTag b) = Some (FTag b)"
| "as_tag (FValue (RBool b)) = Some (FTag b)"
| "as_tag _ = None"

definition fixed_binding :: "field_value \<Rightarrow> fixed_read option \<Rightarrow> fixed_read option" where
  "fixed_binding v b =
     (case v of
        VString m s \<Rightarrow> Option.bind b as_prefix
      | VVec w m \<Rightarrow> Option.bind b as_prefix
      | VOption w \<Rightarrow> Option.bind b as_tag
      | _ \<Rightarrow> Some FNothing)"

fun read_variable_named ::
  "(field_value \<Rightarrow> rval byte_repr) \<Rightarrow> named_field list \<Rightarrow> scope \<Rightarrow> cursor \<Rightarrow> scope res"
where
  "read_variable_named impl [] sc c = Ok sc"
| "read_variable_named impl ((ident, off, v) # fs) sc c =
     (if emits_variable v then
        (case fixed_binding v (sc (fixed_ident ident)) of
           None \<Rightarrow> Panic
         | Some fx \<Rightarrow> res_bind (read_variable_part impl v off fx c) (\<lambda>(x, p).
             read_variable_named impl fs (sc(as_tokens ident True \<mapsto> FValue x)) (fst c, p)))
      else read_variable_named impl fs sc c)"

text \<open>\<open>Fields::bind_fields\<close>: the value that is built takes each field from its name.\<close>

fun bound_value :: "fixed_read option \<Rightarrow> rval option" where
  "bound_value (Some (FValue x)) = Some x"
| "bound_value (Some (FLen n)) = Some (RBits n)"
| "bound_value (Some (FTag b)) = Some (RBool b)"
| "bound_value _ = None"

definition bind_fields :: "field_ident list \<Rightarrow> scope \<Rightarrow> rval list option" where
  "bind_fields idents sc = those (map (\<lambda>ident. bound_value (sc (as_tokens ident True))) idents)"

definition named_fields :: "nat \<Rightarrow> field_ident list \<Rightarrow> field_value list \<Rightarrow> named_field list" where
  "named_fields offset idents vs = zip idents (make_fields offset vs)"

definition group_read_named ::
  "(field_value \<Rightarrow> rval byte_repr) \<Rightarrow> nat \<Rightarrow> field_ident list \<Rightarrow> field_value list \<Rightarrow> u8 list \<Rightarrow> rval list res"
where
  "group_read_named impl offset idents vs bytes =
     (let fs = named_fields offset idents vs
      in res_bind (read_fixed_named fs bytes Map.empty) (\<lambda>sc.
         res_bind (read_variable_named impl fs sc (bytes, group_fixed_bytes offset vs)) (\<lambda>sc'.
           case bind_fields idents sc' of None \<Rightarrow> Panic | Some xs \<Rightarrow> Ok xs)))"

section \<open>Names that do not collide\<close>

text \<open>No two fields bind the same name, neither for themselves nor for their fixed parts.\<close>

definition names_apart :: "field_ident list \<Rightarrow> bool" where
  "names_apart idents \<longleftrightarrow> distinct (map (\<lambda>i. as_tokens i True) idents)
     \<and> (\<forall>i \<in> set idents. \<forall>j \<in> set idents. as_tokens i True \<noteq> fixed_ident j)"

text \<open>A scope holds what the fixed parts have bound.\<close>

definition holds :: "scope \<Rightarrow> field_ident \<Rightarrow> field_value \<Rightarrow> fixed_read \<Rightarrow> bool" where
  "holds sc ident v fx \<longleftrightarrow>
     (if emits_variable v then fixed_binding v (sc (fixed_ident ident)) = Some fx
      else sc (as_tokens ident True) = Some fx \<and> fx = FValue (fvalue fx))"

lemma read_fixed_binds:
  assumes "read_fixed_part v off c = Ok (fx, p)"
  shows "holds (bind_fixed ident fx sc) ident v fx"
  using assms
  by (cases v) (auto simp: holds_def read_fixed_part_def emits_variable_def fixed_binding_def res_bind_Ok_iff
      split: prod.splits if_splits)

text \<open>\<open>j\<close> binds none of the names of \<open>i\<close>.\<close>

definition apart :: "field_ident \<Rightarrow> field_ident \<Rightarrow> bool" where
  "apart j i \<longleftrightarrow> as_tokens j True \<noteq> as_tokens i True \<and> as_tokens j True \<noteq> fixed_ident i
     \<and> fixed_ident j \<noteq> as_tokens i True \<and> fixed_ident j \<noteq> fixed_ident i"

lemma fixed_ident_eq: "fixed_ident i = fixed_ident j \<longleftrightarrow> as_tokens i True = as_tokens j True"
  by (simp add: fixed_ident_def)

lemma names_apart_ConsD:
  assumes "names_apart (i # is)"
  shows "names_apart is" "as_tokens i True \<noteq> fixed_ident i" "j \<in> set is \<Longrightarrow> apart j i" "j \<in> set is \<Longrightarrow> apart i j"
  using assms by (auto simp: names_apart_def apart_def fixed_ident_eq) (metis image_eqI)+

lemma holds_bind_fixed: "apart j i \<Longrightarrow> holds (bind_fixed j fy sc) i v fx = holds sc i v fx"
  by (cases fy) (auto simp: holds_def apart_def)

lemma holds_update: "apart j i \<Longrightarrow> holds (sc(as_tokens j True \<mapsto> fy)) i v fx = holds sc i v fx"
  by (auto simp: holds_def apart_def)

text \<open>The scope after the fixed parts of all fields.\<close>

definition bind_all :: "field_ident list \<Rightarrow> fixed_read list \<Rightarrow> scope \<Rightarrow> scope" where
  "bind_all idents fxs sc = fold (\<lambda>(i, fx). bind_fixed i fx) (zip idents fxs) sc"

lemma bind_all_simps [simp]:
  "bind_all [] fxs sc = sc"
  "bind_all (i # is) (fx # fxs) sc = bind_all is fxs (bind_fixed i fx sc)"
  by (simp_all add: bind_all_def)

lemma holds_bind_all:
  "\<forall>j \<in> set is. apart j i \<Longrightarrow> holds (bind_all is fxs sc) i v fx = holds sc i v fx"
proof (induction "is" arbitrary: fxs sc)
  case (Cons j js)
  then show ?case
    by (cases fxs) (simp_all add: holds_bind_fixed bind_all_def [of "j # js" "[]"])
qed simp

lemma read_fixed_named_eq:
  "read_fixed_named fs bytes sc =
   res_bind (read_fixed_all (map snd fs) bytes) (\<lambda>fxs. Ok (bind_all (map fst fs) fxs sc))"
proof (induction fs arbitrary: sc)
  case (Cons f fs)
  obtain i off v where f: "f = (i, off, v)" by (cases f) auto
  show ?case
  proof (cases "read_fixed_part v off (bytes, 0)")
    case (Ok r)
    then show ?thesis
      using Cons.IH by (cases r; cases "read_fixed_all (map snd fs) bytes") (simp_all add: f)
  qed (simp_all add: f)
qed simp

lemma read_fixed_all_holds:
  assumes "read_fixed_all (map snd fs) bytes = Ok fxs" "names_apart (map fst fs)"
  shows "list_all2 (\<lambda>(i, off, v) fx. holds (bind_all (map fst fs) fxs sc) i v fx) fs fxs"
  using assms
proof (induction fs arbitrary: sc fxs)
  case (Cons f fs)
  obtain i off v where f: "f = (i, off, v)" by (cases f) auto
  obtain fx fxs' p where fx: "fxs = fx # fxs'" "read_fixed_part v off (bytes, 0) = Ok (fx, p)"
      "read_fixed_all (map snd fs) bytes = Ok fxs'"
    using Cons.prems(1) by (auto simp: f res_bind_Ok_iff)
  note D = names_apart_ConsD [OF Cons.prems(2) [unfolded f, simplified]]
  have "holds (bind_all (map fst fs) fxs' (bind_fixed i fx sc)) i v fx"
    using read_fixed_binds [OF fx(2)] D(3) by (simp add: holds_bind_all)
  then show ?case using Cons.IH [OF fx(3) D(1)] by (simp add: f fx(1))
qed simp

text \<open>The variable parts bind every field to the value that is read for it.\<close>

definition bind_values :: "field_ident list \<Rightarrow> rval list \<Rightarrow> scope \<Rightarrow> scope" where
  "bind_values idents xs sc = fold (\<lambda>(i, x) sc. sc(as_tokens i True \<mapsto> FValue x)) (zip idents xs) sc"

lemma bind_values_simps [simp]:
  "bind_values [] xs sc = sc"
  "bind_values (i # is) (x # xs) sc = bind_values is xs (sc(as_tokens i True \<mapsto> FValue x))"
  by (simp_all add: bind_values_def)

lemma bind_values_other:
  "n \<notin> set (map (\<lambda>i. as_tokens i True) is) \<Longrightarrow> bind_values is xs sc n = sc n"
proof (induction "is" arbitrary: xs sc)
  case (Cons j js)
  then show ?case by (cases xs) (simp_all add: bind_values_def [of "j # js" "[]"])
qed simp

lemma static_variable_part:
  "\<not> emits_variable v \<Longrightarrow> read_variable_part impl v off fx c = Ok (fvalue fx, snd c)"
  by (cases v) (auto simp: emits_variable_def)

lemma read_variable_named_eq:
  assumes "list_all2 (\<lambda>(i, off, v) fx. holds sc i v fx) fs fxs" "names_apart (map fst fs)"
  shows "read_variable_named impl fs sc c =
    res_bind (read_variable_all impl (map snd fs) fxs c) (\<lambda>xs. Ok (bind_values (map fst fs) xs sc))"
  using assms
proof (induction fs arbitrary: sc fxs c)
  case (Cons f fs)
  obtain i off v where f: "f = (i, off, v)" by (cases f) auto
  obtain fx fxs' where fx: "fxs = fx # fxs'" "holds sc i v fx"
      "list_all2 (\<lambda>(i, off, v) fx. holds sc i v fx) fs fxs'"
    using Cons.prems(1) by (auto simp: f list_all2_Cons1)
  note D = names_apart_ConsD [OF Cons.prems(2) [unfolded f, simplified]]
  have rest: "list_all2 (\<lambda>(i, off, v) fx. holds (sc(as_tokens i' True \<mapsto> fy)) i v fx) fs fxs'"
    if "i' = i" for i' fy
    by (rule list.rel_mono_strong [OF fx(3)]) (auto simp: that holds_update [OF D(4)] rev_image_eqI)
  show ?case
  proof (cases "emits_variable v")
    case True
    then have b: "fixed_binding v (sc (fixed_ident i)) = Some fx" using fx(2) by (simp add: holds_def)
    show ?thesis
    proof (cases "read_variable_part impl v off fx c")
      case (Ok r)
      obtain x p where r: "r = (x, p)" by (cases r)
      note IH = Cons.IH [OF rest [OF refl] D(1), of "FValue x" "(fst c, p)"]
      show ?thesis
        by (cases "read_variable_all impl (map snd fs) fxs' (fst c, p)")
          (simp_all add: f fx(1) True b Ok r IH [unfolded fun_upd_def] fun_upd_def)
    qed (simp_all add: f fx(1) True b)
  next
    case False
    then have "sc(as_tokens i True \<mapsto> FValue (fvalue fx)) = sc"
      using fx(2) by (auto simp: holds_def)
    then show ?thesis
      using False Cons.IH [OF fx(3) D(1), of c]
      by (cases "read_variable_all impl (map snd fs) fxs' c") (auto simp: f fx(1) static_variable_part)
  qed
qed simp

section \<open>Reading by names is reading by position\<close>

lemma length_make_fields [simp]: "length (make_fields offset vs) = length vs"
  by (induction vs arbitrary: offset) simp_all

lemma read_fixed_all_length: "read_fixed_all fs bytes = Ok fxs \<Longrightarrow> length fxs = length fs"
  by (induction fs arbitrary: fxs) (auto simp: res_bind_Ok_iff)

lemma read_variable_all_length:
  "read_variable_all impl fs fxs c = Ok xs \<Longrightarrow> length fxs = length fs \<Longrightarrow> length xs = length fs"
  by (induction impl fs fxs c arbitrary: xs rule: read_variable_all.induct) (auto simp: res_bind_Ok_iff)

lemma bind_fields_bind_values:
  assumes "distinct (map (\<lambda>i. as_tokens i True) idents)" "length xs = length idents"
  shows "bind_fields idents (bind_values idents xs sc) = Some xs"
  using assms
proof (induction idents arbitrary: xs sc)
  case (Cons i "is")
  obtain x xs' where xs: "xs = x # xs'" using Cons.prems(2) by (cases xs) auto
  have "bind_values is xs' (sc(as_tokens i True \<mapsto> FValue x)) (as_tokens i True) = Some (FValue x)"
    using Cons.prems(1) by (subst bind_values_other) auto
  then show ?case
    using Cons.IH [of xs' "sc(as_tokens i True \<mapsto> FValue x)"] Cons.prems
    by (simp add: xs bind_fields_def fun_upd_def)
qed (simp add: bind_fields_def)

lemma group_read_named_eq:
  assumes "names_apart idents" "length idents = length vs"
  shows "group_read_named impl offset idents vs bytes = group_read impl offset vs bytes"
proof -
  let ?fs = "named_fields offset idents vs"
  have fs: "map fst ?fs = idents" "map snd ?fs = make_fields offset vs"
    using assms(2) by (simp_all add: named_fields_def)
  show ?thesis
  proof (cases "read_fixed_all (make_fields offset vs) bytes")
    case (Ok fxs)
    have holds: "list_all2 (\<lambda>(i, off, v) fx. holds (bind_all idents fxs Map.empty) i v fx) ?fs fxs"
      using read_fixed_all_holds [of ?fs bytes fxs Map.empty] Ok assms(1) by (simp add: fs)
    let ?c = "(bytes, group_fixed_bytes offset vs)"
    note var = read_variable_named_eq [OF holds, of impl ?c, unfolded fs, OF assms(1)]
    show ?thesis
    proof (cases "read_variable_all impl (make_fields offset vs) fxs ?c")
      case (Ok xs)
      then have "length xs = length idents"
        using read_variable_all_length read_fixed_all_length \<open>read_fixed_all _ _ = _\<close> assms(2) by fastforce
      then have "bind_fields idents (bind_values idents xs (bind_all idents fxs Map.empty)) = Some xs"
        using assms(1) by (intro bind_fields_bind_values) (simp_all add: names_apart_def)
      then show ?thesis
        by (simp add: group_read_named_def group_read_def Let_def read_fixed_named_eq fs var Ok
            \<open>read_fixed_all _ _ = _\<close>)
    qed (simp_all add: group_read_named_def group_read_def Let_def read_fixed_named_eq fs var Ok)
  qed (simp_all add: group_read_named_def group_read_def Let_def read_fixed_named_eq fs)
qed

section \<open>Which names collide\<close>

lemma decimal_less: "n < 10 \<Longrightarrow> decimal n = [char_of (48 + n)]"
  by (subst decimal.simps) simp

lemma decimal_Suc: "\<not> n < 10 \<Longrightarrow> decimal n = decimal (n div 10) @ [char_of (48 + n mod 10)]"
  by (subst decimal.simps) simp

lemma decimal_nonempty: "decimal n \<noteq> []"
  by (subst decimal.simps) simp

lemma char_of_digit: "m < 10 \<Longrightarrow> n < 10 \<Longrightarrow> (char_of (48 + m :: nat) = char_of (48 + n)) = (m = n)"
  by (simp add: char_of_eq_iff take_bit_nat_eq_self)

lemma decimal_inject: "decimal m = decimal n \<longleftrightarrow> m = n"
proof (induction m arbitrary: n rule: decimal.induct)
  case (1 m)
  consider "m < 10" "n < 10" | "m < 10" "\<not> n < 10" | "\<not> m < 10" "n < 10" | "\<not> m < 10" "\<not> n < 10" by blast
  then show ?case
  proof cases
    case 4
    have "m div 10 = n div 10 \<and> m mod 10 = n mod 10 \<longleftrightarrow> m = n" by (metis div_mult_mod_eq)
    then show ?thesis using 4 1 [OF 4(1)] by (simp add: decimal_Suc char_of_digit)
  qed (auto simp: decimal_less decimal_Suc char_of_digit decimal_nonempty decimal_nonempty [symmetric])
qed

lemma last_decimal: "last (decimal n) = char_of (48 + n mod 10)"
  by (cases "n < 10") (simp_all add: decimal_less decimal_Suc)

lemma decimal_not_fixed: "''unnamed_'' @ decimal k \<noteq> u @ ''_fixed''"
proof
  assume "''unnamed_'' @ decimal k = u @ ''_fixed''"
  then have "last (''unnamed_'' @ decimal k) = CHR ''d''" by (simp only:) simp
  then have "char_of (48 + k mod 10) = CHR ''d''" by (simp add: last_decimal decimal_nonempty)
  then have "(48 + k mod 10) mod 256 = 100" by (simp add: char_of_eq_iff take_bit_eq_mod)
  then show False by simp
qed

lemma names_apart_tuple: "names_apart (map Unnamed [0..<n])"
proof -
  have "inj_on (\<lambda>k. as_tokens (Unnamed k) True) {..<n}"
    by (rule inj_onI) (simp add: decimal_inject)
  moreover have "as_tokens (Unnamed k) True \<noteq> fixed_ident (Unnamed l)" for k l
    using decimal_not_fixed [of k "as_tokens (Unnamed l) True"] by (simp add: fixed_ident_def)
  ultimately show ?thesis by (auto simp: names_apart_def distinct_map comp_def atLeast0LessThan)
qed

lemma names_apart_named:
  "names_apart (map Named names) \<longleftrightarrow> distinct names \<and> (\<forall>x \<in> set names. x @ ''_fixed'' \<notin> set names)"
  by (auto simp: names_apart_def fixed_ident_def distinct_map comp_def inj_on_def)

end
