(* ===== verification/DeriveLength.thy ===== *)
theory DeriveLength
  imports DeriveTypes DeriveNames
begin

text \<open>
  The expressions the macro emits for lengths: struct \<open>ByteLen\<close> of \<open>derive/src/data.rs\<close> with
  its methods, and \<open>Value::length\<close>. The parts of a \<open>ByteLen\<close> that the macro does not know are
  tokens, which it splices without parentheses; the theory evaluates the spliced tokens by
  the precedence of Rust and shows when they mean what they should.
\<close>

section \<open>Tokens of a length\<close>

text \<open>
  The operands: names of constants, associated constants of a type, and the calls on a place
  (\<open>#field\<close>). A call also carries the type of its receiver, or of the items, which the
  compiler infers.
\<close>

datatype operand =
    ConstName string
  | MinByteLen syn_type
  | MaxByteLen syn_type
  | StrLen place
  | ByteLenOf place syn_type
  | SumByteLen place syn_type
  | FoldByteLen place syn_type
  | IfLetSome place "operand token list"

type_synonym tokens = "operand token list"

abbreviation const_tokens :: "const_expr \<Rightarrow> tokens" where
  "const_tokens \<equiv> map (map_token ConstName)"

section \<open>The struct ByteLen\<close>

record byte_length =
  bl_fixed_bytes :: nat
  bl_min_length :: nat
  bl_max_length :: nat
  bl_unknown_min :: tokens
  bl_unknown_max :: tokens
  bl_unknown_length :: tokens

definition fully_static :: "nat \<Rightarrow> byte_length" where
  "fully_static len =
     \<lparr>bl_fixed_bytes = len, bl_min_length = 0, bl_max_length = 0,
      bl_unknown_min = [], bl_unknown_max = [], bl_unknown_length = []\<rparr>"

definition fully_unknown :: "tokens \<Rightarrow> tokens \<Rightarrow> tokens \<Rightarrow> byte_length" where
  "fully_unknown umin umax ulen =
     \<lparr>bl_fixed_bytes = 0, bl_min_length = 0, bl_max_length = 0,
      bl_unknown_min = umin, bl_unknown_max = umax, bl_unknown_length = ulen\<rparr>"

definition known_fixed_unknown_length :: "nat \<Rightarrow> tokens \<Rightarrow> tokens \<Rightarrow> byte_length" where
  "known_fixed_unknown_length fixed umax ulen =
     \<lparr>bl_fixed_bytes = fixed, bl_min_length = 0, bl_max_length = 0,
      bl_unknown_min = [], bl_unknown_max = umax, bl_unknown_length = ulen\<rparr>"

definition bl_is_static :: "byte_length \<Rightarrow> bool" where
  "bl_is_static b \<longleftrightarrow> bl_unknown_min b = [] \<and> bl_unknown_max b = [] \<and> bl_unknown_length b = []"

definition known_min_length :: "byte_length \<Rightarrow> nat" where
  "known_min_length b = bl_fixed_bytes b + bl_min_length b"

definition known_max_length :: "byte_length \<Rightarrow> nat" where
  "known_max_length b = bl_fixed_bytes b + bl_max_length b"

definition as_const_min_length :: "byte_length \<Rightarrow> tokens" where
  "as_const_min_length b =
     (if bl_unknown_min b = [] then [Lit (known_min_length b)]
      else Lit (known_min_length b) # Plus # bl_unknown_min b)"

definition as_const_max_length :: "byte_length \<Rightarrow> tokens" where
  "as_const_max_length b =
     (if bl_unknown_max b = [] then [Lit (known_max_length b)]
      else Lit (known_max_length b) # Plus # bl_unknown_max b)"

text \<open>\<open>as_length\<close> asserts that nothing is known of the length beyond the fixed bytes.\<close>

definition as_length :: "byte_length \<Rightarrow> tokens option" where
  "as_length b =
     (if bl_unknown_length b \<noteq> [] then Some (Lit (bl_fixed_bytes b) # Plus # bl_unknown_length b)
      else if bl_min_length b \<noteq> bl_max_length b then None
      else Some ([Lit (known_min_length b)]
        @ (if bl_unknown_min b = [] then [] else Plus # bl_unknown_min b)
        @ (if bl_unknown_max b = [] then [] else Plus # bl_unknown_max b)))"

text \<open>\<open>impl Add\<close> and \<open>impl Sum\<close>.\<close>

definition join_tokens :: "tokens \<Rightarrow> tokens \<Rightarrow> tokens" where
  "join_tokens a b = (if a \<noteq> [] \<and> b \<noteq> [] then a @ Plus # b else a @ b)"

definition bl_add :: "byte_length \<Rightarrow> byte_length \<Rightarrow> byte_length" where
  "bl_add a b =
     \<lparr>bl_fixed_bytes = bl_fixed_bytes a + bl_fixed_bytes b,
      bl_min_length = bl_min_length a + bl_min_length b,
      bl_max_length = bl_max_length a + bl_max_length b,
      bl_unknown_min = join_tokens (bl_unknown_min a) (bl_unknown_min b),
      bl_unknown_max = join_tokens (bl_unknown_max a) (bl_unknown_max b),
      bl_unknown_length = join_tokens (bl_unknown_length a) (bl_unknown_length b)\<rparr>"

definition bl_sum :: "byte_length list \<Rightarrow> byte_length" where
  "bl_sum bs = foldl bl_add (fully_static 0) bs"

section \<open>The length of a value\<close>

text \<open>\<open>Value::length\<close>; \<open>None\<close> is the assertion in \<open>as_length\<close>.\<close>

fun value_length :: "place \<Rightarrow> (syn_type, const_expr) shape \<Rightarrow> byte_length option" where
  "value_length field (VString max_length _) =
     Some (known_fixed_unknown_length 4 [Lit max_length] [Atom (StrLen field)])"
| "value_length field (VCow ty) = value_length field ty"
| "value_length field (VOption ty) =
     (case value_length (Variable ''inner'') ty of
        None \<Rightarrow> None
      | Some ty_len \<Rightarrow> map_option (\<lambda>inner_length.
          known_fixed_unknown_length 1 (as_const_max_length ty_len) [Atom (IfLetSome field inner_length)])
            (as_length ty_len))"
| "value_length field (VArray ty len) =
     Some (fully_unknown (Atom (MinByteLen (name ty)) # Times # const_tokens len)
       (Atom (MaxByteLen (name ty)) # Times # const_tokens len) [Atom (SumByteLen field (name ty))])"
| "value_length field (VVec ty max_length) =
     map_option (\<lambda>ty_len. known_fixed_unknown_length 4
         [Lit max_length, Times, Parens (as_const_max_length ty_len)] [Atom (FoldByteLen field (name ty))])
       (value_length (Variable []) ty)"
| "value_length field (VDelegated ty) =
     Some (fully_unknown [Atom (MinByteLen ty)] [Atom (MaxByteLen ty)] [Atom (ByteLenOf field ty)])"
| "value_length field v = Some (fully_static (fixed_bytes v))"

section \<open>The value of tokens\<close>

text \<open>
  The operators on \<open>usize\<close> in a constant; \<open>None\<close> is the compiler's error. A shift drops the bits
  shifted out. Sums and products that leave \<open>usize\<close> are errors too; they are not modelled as
  such, so a value below is that of the expression wherever it compiles.
\<close>

fun apply_op :: "binop \<Rightarrow> nat \<Rightarrow> nat \<Rightarrow> nat option" where
  "apply_op Add x y = Some (x + y)"
| "apply_op Sub x y = (if y \<le> x then Some (x - y) else None)"
| "apply_op Mul x y = Some (x * y)"
| "apply_op Div x y = (if y = 0 then None else Some (x div y))"
| "apply_op Rem x y = (if y = 0 then None else Some (x mod y))"
| "apply_op Shl x y = (if y < 64 then Some (x * 2 ^ y mod 2 ^ 64) else None)"
| "apply_op Shr x y = (if y < 64 then Some (x div 2 ^ y) else None)"
| "apply_op BitAnd x y = Some (and x y)"
| "apply_op BitXor x y = Some (xor x y)"
| "apply_op BitOr x y = Some (or x y)"

text \<open>
  The value of an expression whose operands have been evaluated, by the precedence of Rust:
  \<open>operators st v\<close> has read the operand \<open>v\<close> after the operands and operators of the stack \<open>st\<close>, which
  wait for it. Before an operator of precedence \<open>p\<close> those that bind as tightly are applied
  (\<open>unwind p\<close>). \<open>None\<close> also for tokens that are no expression.
\<close>

fun unwind :: "nat \<Rightarrow> (nat \<times> binop) list \<Rightarrow> nat \<Rightarrow> ((nat \<times> binop) list \<times> nat) option" where
  "unwind p [] v = Some ([], v)"
| "unwind p ((x, op) # st) v =
     (if p \<le> precedence op
      then case apply_op op x v of None \<Rightarrow> None | Some w \<Rightarrow> unwind p st w
      else Some ((x, op) # st, v))"

fun factor :: "nat option token \<Rightarrow> nat option"
and operators :: "(nat \<times> binop) list \<Rightarrow> nat \<Rightarrow> nat option token list \<Rightarrow> nat option"
where
  "factor (Lit n) = Some n"
| "factor (Atom a) = a"
| "factor (Parens (t # ts)) = (case factor t of None \<Rightarrow> None | Some v \<Rightarrow> operators [] v ts)"
| "factor _ = None"
| "operators st v [] = map_option snd (unwind 0 st v)"
| "operators st v (Op op # t # ts) =
     (case unwind (precedence op) st v of
        None \<Rightarrow> None
      | Some (st', w) \<Rightarrow> (case factor t of None \<Rightarrow> None | Some u \<Rightarrow> operators ((w, op) # st') u ts))"
| "operators st v _ = None"

definition evaluate :: "('a \<Rightarrow> nat option) \<Rightarrow> 'a token list \<Rightarrow> nat option" where
  "evaluate f ts = factor (Parens (map (map_token f) ts))"

text \<open>
  Operands: \<open>C\<close> is the value of a constant, \<open>I\<close> the implementation of a type, \<open>E\<close> what a place
  holds. In \<open>if let Some(inner) = &x\<close> the name \<open>inner\<close> is bound to the value in \<open>x\<close>.
\<close>

primrec operand_value ::
  "(string \<Rightarrow> nat) \<Rightarrow> (syn_type \<Rightarrow> rval byte_repr) \<Rightarrow> operand \<Rightarrow> (place \<Rightarrow> rval) \<Rightarrow> nat option"
where
  "operand_value C I (ConstName n) = (\<lambda>E. Some (C n))"
| "operand_value C I (MinByteLen ty) = (\<lambda>E. Some (min_byte_len (I ty)))"
| "operand_value C I (MaxByteLen ty) = (\<lambda>E. Some (max_byte_len (I ty)))"
| "operand_value C I (StrLen x) = (\<lambda>E. Some (length (rstr (E x))))"
| "operand_value C I (ByteLenOf x ty) = (\<lambda>E. Some (byte_len (I ty) (E x)))"
| "operand_value C I (SumByteLen x ty) = (\<lambda>E. Some (sum_list (map (byte_len (I ty)) (rlist (E x)))))"
| "operand_value C I (FoldByteLen x ty) =
     (\<lambda>E. Some (fold (\<lambda>item acc. acc + byte_len (I ty) item) (rlist (E x)) 0))"
| "operand_value C I (IfLetSome x ts) =
     (\<lambda>E. case ropt (E x) of
        None \<Rightarrow> Some 0
      | Some v \<Rightarrow> evaluate (\<lambda>g. g (E(Variable ''inner'' := v))) (map (map_token (operand_value C I)) ts))"

definition tokens_value ::
  "(string \<Rightarrow> nat) \<Rightarrow> (syn_type \<Rightarrow> rval byte_repr) \<Rightarrow> (place \<Rightarrow> rval) \<Rightarrow> tokens \<Rightarrow> nat option" where
  "tokens_value C I E ts = evaluate (\<lambda>a. operand_value C I a E) ts"

lemma operand_value_IfLetSome [simp]:
  "operand_value C I (IfLetSome x ts) E =
     (case ropt (E x) of None \<Rightarrow> Some 0 | Some v \<Rightarrow> tokens_value C I (E(Variable ''inner'' := v)) ts)"
  by (simp add: tokens_value_def evaluate_def token.map_comp comp_def del: factor.simps split: option.split)

declare operand_value.simps(8) [simp del]

section \<open>Sums and products of tokens\<close>

text \<open>The operators on the top level of an expression are among \<open>ops\<close>.\<close>

definition only_ops :: "binop list \<Rightarrow> 'a token list \<Rightarrow> bool" where
  "only_ops ops ts \<longleftrightarrow> list_all (\<lambda>t. case t of Op op \<Rightarrow> List.member ops op | _ \<Rightarrow> True) ts"

lemma only_ops_simps [simp]:
  "only_ops ops []"
  "only_ops ops (Lit n # ts) = only_ops ops ts"
  "only_ops ops (Parens us # ts) = only_ops ops ts"
  "only_ops ops (Atom a # ts) = only_ops ops ts"
  "only_ops ops (Op op # ts) = (op \<in> set ops \<and> only_ops ops ts)"
  "only_ops ops (ts @ us) = (only_ops ops ts \<and> only_ops ops us)"
  by (simp_all add: only_ops_def)

lemma only_ops_Cons: "only_ops ops (t # ts) \<Longrightarrow> only_ops ops ts"
  by (simp add: only_ops_def)

lemma only_ops_mono: "only_ops ops ts \<Longrightarrow> set ops \<subseteq> set ops' \<Longrightarrow> only_ops ops' ts"
  by (auto simp: only_ops_def list_all_iff split: token.splits)

lemma only_ops_map [simp]: "only_ops ops (map (map_token f) ts) = only_ops ops ts"
  unfolding only_ops_def list.pred_map
  by (rule arg_cong [where f = "\<lambda>P. list_all P ts"]) (auto simp: fun_eq_iff split: token.split)

text \<open>
  An expression of sums and products only is evaluated without a stack: \<open>sum_from s p\<close> has read
  the sum \<open>s\<close> and, as its last summand so far, the product \<open>p\<close>.
\<close>

fun sum_from :: "nat \<Rightarrow> nat \<Rightarrow> nat option token list \<Rightarrow> nat option" where
  "sum_from s p [] = Some (s + p)"
| "sum_from s p (Op Add # t # ts) = (case factor t of None \<Rightarrow> None | Some q \<Rightarrow> sum_from (s + p) q ts)"
| "sum_from s p (Op Mul # t # ts) = (case factor t of None \<Rightarrow> None | Some q \<Rightarrow> sum_from s (p * q) ts)"
| "sum_from s p _ = None"

lemma operators_sum_from:
  "only_ops [Add, Mul] ts \<Longrightarrow>
     (s = 0 \<longrightarrow> operators [] p ts = sum_from s p ts)
   \<and> operators [(s, Add)] p ts = sum_from s p ts
   \<and> (\<forall>x y. p = x * y \<longrightarrow> (s = 0 \<longrightarrow> operators [(x, Mul)] y ts = sum_from s p ts)
        \<and> operators [(x, Mul), (s, Add)] y ts = sum_from s p ts)"
proof (induction s p ts rule: sum_from.induct)
  case (2 s p t ts)
  then show ?case using only_ops_Cons [of "[Add, Mul]" t ts]
    by (cases "factor t") auto
next
  case (3 s p t ts)
  then show ?case using only_ops_Cons [of "[Add, Mul]" t ts]
    by (cases "factor t") auto
qed auto

lemma sum_from_append:
  "sum_from s p ts = Some n \<Longrightarrow>
   sum_from s p (ts @ Plus # t # us) = (case factor t of None \<Rightarrow> None | Some q \<Rightarrow> sum_from n q us)"
  by (induction s p ts rule: sum_from.induct) (auto split: option.splits)

lemma sum_from_shift: "sum_from (k + s) p ts = map_option ((+) k) (sum_from s p ts)"
  by (induction s p ts rule: sum_from.induct) (auto split: option.splits simp: add.assoc)

lemma sum_from_product:
  "only_ops [Mul] ts \<Longrightarrow> sum_from s p ts = Some n \<Longrightarrow> s = 0 \<Longrightarrow> sum_from 0 (k * p) ts = Some (k * n)"
  by (induction s p ts rule: sum_from.induct)
    (auto split: option.splits simp: mult.assoc dest: only_ops_Cons)

lemma evaluate_eq:
  assumes "only_ops [Add, Mul] (t # ts)"
  shows "evaluate f (t # ts) =
    (case factor (map_token f t) of None \<Rightarrow> None | Some q \<Rightarrow> sum_from 0 q (map (map_token f) ts))"
  using operators_sum_from [of "map (map_token f) ts" 0] only_ops_Cons [OF assms]
  by (simp add: evaluate_def split: option.split)

lemma evaluate_plus:
  assumes "evaluate f ts = Some n" "evaluate f us = Some m"
    and "only_ops [Add, Mul] ts" "only_ops [Add, Mul] us"
  shows "evaluate f (ts @ Plus # us) = Some (n + m)"
proof -
  obtain t ts' u us' where split: "ts = t # ts'" "us = u # us'"
    using assms(1,2) by (cases ts; cases us) (auto simp: evaluate_def)
  obtain q where t: "factor (map_token f t) = Some q" "sum_from 0 q (map (map_token f) ts') = Some n"
    using assms(1,3) evaluate_eq [of t ts' f] by (auto simp: split(1) split: option.splits)
  obtain p where u: "factor (map_token f u) = Some p" "sum_from 0 p (map (map_token f) us') = Some m"
    using assms(2,4) evaluate_eq [of u us' f] by (auto simp: split(2) split: option.splits)
  have "sum_from n p (map (map_token f) us') = Some (n + m)"
    using sum_from_shift [of n 0 p "map (map_token f) us'"] u(2) by simp
  moreover have "only_ops [Add, Mul] (t # ts' @ Plus # u # us')" using assms(3,4) by (simp flip: append_Cons add: split)
  ultimately show ?thesis using sum_from_append [OF t(2)] by (simp add: evaluate_eq t(1) u(1) split)
qed

lemma evaluate_times:
  assumes "evaluate f [t] = Some n" "evaluate f us = Some m" "only_ops [Mul] us"
  shows "evaluate f (t # Times # us) = Some (n * m)"
proof -
  obtain u us' where split: "us = u # us'" using assms(2) by (cases us) (auto simp: evaluate_def)
  have ops: "only_ops [Mul] us'" "only_ops [Add, Mul] us"
    using assms(3) by (auto simp: split intro: only_ops_Cons only_ops_mono)
  obtain p where u: "factor (map_token f u) = Some p" "sum_from 0 p (map (map_token f) us') = Some m"
    using assms(2) ops(2) evaluate_eq [of u us' f] by (auto simp: split split: option.splits)
  have t: "factor (map_token f t) = Some n" using assms(1) by (simp add: evaluate_def split: option.splits)
  then have "only_ops [Add, Mul] (t # Times # us)" using ops(2) by (cases t) simp_all
  then show ?thesis
    using sum_from_product [OF _ u(2), of n] ops(1) by (simp add: evaluate_eq t u(1) split)
qed

lemma evaluate_single [simp]:
  "evaluate f [Lit n] = Some n" "evaluate f [Atom a] = f a" "evaluate f [Parens ts] = evaluate f ts"
  by (simp_all add: evaluate_def split: option.split)

text \<open>Constants, and what an array length in a type is worth.\<close>

definition const_value :: "(string \<Rightarrow> nat) \<Rightarrow> const_expr \<Rightarrow> nat option" where
  "const_value C e = evaluate (\<lambda>n. Some (C n)) e"

lemma const_tokens_value: "evaluate (\<lambda>a. operand_value C I a E) (const_tokens e) = const_value C e"
  by (simp add: evaluate_def const_value_def token.map_comp comp_def del: factor.simps)

end
