(* ===== verification/LengthLaws.thy ===== *)
theory LengthLaws
  imports DeriveLength DeriveImpls
begin

text \<open>
  The tokens of a length have the value the implementation has: the parts of a \<open>ByteLen\<close> are
  related to \<open>value_len\<close>, \<open>value_min\<close> and \<open>value_max\<close> of the shape the type stands for, and
  adding \<open>ByteLen\<close>s adds their values.
\<close>

section \<open>What types and values stand for\<close>

text \<open>
  Given the value \<open>C\<close> of the constants and the implementations \<open>base\<close> of the types that the
  macro does not know, every value stands for a shape, and every type has an implementation.
\<close>

definition denote ::
  "(string \<Rightarrow> nat) \<Rightarrow> (syn_type \<Rightarrow> rval byte_repr) \<Rightarrow> (syn_type, const_expr) shape \<Rightarrow> field_value" where
  "denote C base v = map_shape base (\<lambda>e. the (const_value C e)) v"

definition impl_for ::
  "(string \<Rightarrow> nat) \<Rightarrow> (syn_type \<Rightarrow> rval byte_repr) \<Rightarrow> syn_type \<Rightarrow> rval byte_repr" where
  "impl_for C base ty = impl_of (denote C base (from_type ty))"

lemma denote_simps [simp]:
  "denote C base (VString m b) = VString m b"
  "denote C base (VCow v) = VCow (denote C base v)"
  "denote C base (VOption v) = VOption (denote C base v)"
  "denote C base (VArray v e) = VArray (denote C base v) (the (const_value C e))"
  "denote C base (VVec v m) = VVec (denote C base v) m"
  "denote C base (VDelegated ty) = VDelegated (base ty)"
  by (simp_all add: denote_def)

lemma impl_for_name: "canonical v \<Longrightarrow> impl_for C base (name v) = impl_of (denote C base v)"
  by (simp add: impl_for_def canonical_def)

text \<open>The length of an array is an expression with no operator but \<open>*\<close> outside parentheses.\<close>

fun lengths_ok :: "(string \<Rightarrow> nat) \<Rightarrow> (syn_type, const_expr) shape \<Rightarrow> bool" where
  "lengths_ok C (VCow v) = lengths_ok C v"
| "lengths_ok C (VOption v) = lengths_ok C v"
| "lengths_ok C (VVec v m) = lengths_ok C v"
| "lengths_ok C (VArray v e) = (const_value C e \<noteq> None \<and> only_ops [Mul] e)"
| "lengths_ok C _ = True"

section \<open>The value of a ByteLen\<close>

text \<open>
  The value of an unknown part; an empty part is worth nothing. The parts are sums of products,
  so that they can be added.
\<close>

definition part_value ::
  "(string \<Rightarrow> nat) \<Rightarrow> (syn_type \<Rightarrow> rval byte_repr) \<Rightarrow> (place \<Rightarrow> rval) \<Rightarrow> tokens \<Rightarrow> nat option" where
  "part_value C I E ts =
     (if ts = [] then Some 0 else if only_ops [Add, Mul] ts then tokens_value C I E ts else None)"

text \<open>
  The \<open>ByteLen\<close> \<open>b\<close> stands for a length \<open>len\<close> between \<open>lo\<close> and \<open>hi\<close>, of which \<open>fixed\<close> bytes are always
  present.
\<close>

definition stands_for ::
  "(string \<Rightarrow> nat) \<Rightarrow> (syn_type \<Rightarrow> rval byte_repr) \<Rightarrow> (place \<Rightarrow> rval) \<Rightarrow> byte_length
     \<Rightarrow> nat \<Rightarrow> nat \<Rightarrow> nat \<Rightarrow> nat \<Rightarrow> bool"
where
  "stands_for C I E b fixed lo hi len \<longleftrightarrow>
     bl_fixed_bytes b = fixed \<and> bl_min_length b = 0 \<and> bl_max_length b = 0
   \<and> (\<exists>n. part_value C I E (bl_unknown_min b) = Some n \<and> lo = fixed + n)
   \<and> (\<exists>n. part_value C I E (bl_unknown_max b) = Some n \<and> hi = fixed + n)
   \<and> (\<exists>n. part_value C I E (bl_unknown_length b) = Some n \<and> len = fixed + n)
   \<and> (bl_unknown_length b = [] \<longrightarrow> bl_unknown_min b = [] \<and> bl_unknown_max b = [])"

lemma part_value_join:
  assumes "part_value C I E a = Some n" "part_value C I E b = Some m"
  shows "part_value C I E (join_tokens a b) = Some (n + m)"
  using assms evaluate_plus by (auto simp: part_value_def join_tokens_def tokens_value_def split: if_splits)

lemma tokens_value_plus:
  assumes "part_value C I E ts = Some n" "ts \<noteq> []"
  shows "tokens_value C I E (Lit k # Plus # ts) = Some (k + n)"
  using evaluate_plus [of _ "[Lit k]" k] assms by (simp add: part_value_def tokens_value_def split: if_splits)

lemma tokens_value_Lit [simp]: "tokens_value C I E [Lit k] = Some k"
  by (simp add: tokens_value_def)

text \<open>The methods of \<open>ByteLen\<close> emit expressions of these values.\<close>

lemma stands_for_methods:
  assumes "stands_for C I E b fixed lo hi len"
  shows "tokens_value C I E (as_const_min_length b) = Some lo"
    and "tokens_value C I E (as_const_max_length b) = Some hi"
    and "\<exists>ts. as_length b = Some ts \<and> ts \<noteq> [] \<and> tokens_value C I E ts = Some len"
  using assms tokens_value_plus
  by (auto simp: stands_for_def as_const_min_length_def as_const_max_length_def as_length_def
      known_min_length_def known_max_length_def part_value_def split: if_splits)

lemma stands_for_static:
  "stands_for C I E (fully_static n) n n n n"
  by (simp add: stands_for_def fully_static_def part_value_def)

lemma stands_for_add:
  assumes "stands_for C I E a f1 l1 h1 n1" "stands_for C I E b f2 l2 h2 n2"
  shows "stands_for C I E (bl_add a b) (f1 + f2) (l1 + l2) (h1 + h2) (n1 + n2)"
proof -
  have "join_tokens x y = [] \<longleftrightarrow> x = [] \<and> y = []" for x y by (simp add: join_tokens_def)
  then show ?thesis using assms unfolding stands_for_def bl_add_def
    by (auto simp: part_value_join)
qed

lemma bl_add_static: "bl_is_static (bl_add a b) \<longleftrightarrow> bl_is_static a \<and> bl_is_static b"
  by (auto simp: bl_is_static_def bl_add_def join_tokens_def)

lemma stands_for_sum:
  assumes "list_all2 (\<lambda>b (f, l, h, n). stands_for C I E b f l h n) bs vs"
    and "stands_for C I E b f l h n"
  shows "stands_for C I E (foldl bl_add b bs) (f + sum_list (map fst vs))
    (l + sum_list (map (fst \<circ> snd) vs)) (h + sum_list (map (fst \<circ> snd \<circ> snd) vs))
    (n + sum_list (map (snd \<circ> snd \<circ> snd) vs))"
  using assms
proof (induction bs vs arbitrary: b f l h n rule: list_all2_induct)
  case (Cons c bs v vs)
  obtain f' l' h' n' where v: "v = (f', l', h', n')" by (cases v) auto
  have "stands_for C I E (bl_add b c) (f + f') (l + l') (h + h') (n + n')"
    using Cons.hyps(1) Cons.prems v by (auto intro: stands_for_add)
  from Cons.IH [OF this] show ?case by (simp add: v add.assoc)
qed simp

lemma foldl_static: "bl_is_static (foldl bl_add b bs) \<longleftrightarrow> bl_is_static b \<and> list_all bl_is_static bs"
  by (induction bs arbitrary: b) (auto simp: bl_add_static)

section \<open>The length of a value\<close>

lemma fold_sum: "fold (\<lambda>item acc. acc + f item) xs k = k + sum_list (map f xs)"
  for f :: "'a \<Rightarrow> nat"
  by (induction xs arbitrary: k) (simp_all add: add.assoc)

lemma stands_for_known:
  assumes "part_value C I E umax = Some h" "umax \<noteq> []" "tokens_value C I E [Atom op] = Some n"
  shows "stands_for C I E (known_fixed_unknown_length k umax [Atom op]) k k (k + h) (k + n)"
  using assms by (simp add: stands_for_def known_fixed_unknown_length_def part_value_def)

lemma stands_for_unknown:
  assumes "part_value C I E umin = Some l" "umin \<noteq> []" "part_value C I E umax = Some h" "umax \<noteq> []"
    and "tokens_value C I E [Atom op] = Some n"
  shows "stands_for C I E (fully_unknown umin umax [Atom op]) 0 l h n"
  using assms by (simp add: stands_for_def fully_unknown_def part_value_def)

lemma part_value_Atom [simp]: "part_value C I E [Atom op] = tokens_value C I E [Atom op]"
  by (simp add: part_value_def)

lemma part_value_Lit [simp]: "part_value C I E [Lit n] = Some n"
  by (simp add: part_value_def)

lemma part_value_times:
  assumes "const_value C e = Some k" "only_ops [Mul] e" "tokens_value C I E [Atom op] = Some n"
  shows "part_value C I E (Atom op # Times # const_tokens e) = Some (n * k)"
  using evaluate_times [of _ "Atom op" n "const_tokens e" k] assms
  by (auto simp: part_value_def tokens_value_def const_tokens_value elim: only_ops_mono)

text \<open>What \<open>as_const_max_length\<close> emits can be a part of another \<open>ByteLen\<close>.\<close>

lemma stands_for_max_part:
  assumes "stands_for C I E b fixed lo hi len"
  shows "part_value C I E (as_const_max_length b) = Some hi"
  using assms stands_for_methods(2) [OF assms]
  by (auto simp: stands_for_def as_const_max_length_def part_value_def split: if_splits)

lemma value_length_stands_for:
  assumes "canonical v" "lengths_ok C v"
  shows "\<exists>b. value_length field v = Some b \<and> bl_is_static b = is_static v
    \<and> stands_for C (impl_for C base) E b (fixed_bytes (denote C base v))
        (value_min impl_of (denote C base v)) (value_max impl_of (denote C base v))
        (value_len impl_of (denote C base v) (E field))"
  using assms
proof (induction v arbitrary: field E)
  case (VOption v)
  let ?I = "impl_for C base"
  note IH = VOption.IH [OF canonicalE(2) [OF VOption.prems(1)], of "Variable ''inner''"]
  obtain b where b1: "value_length (Variable ''inner'') v = Some b" using IH VOption.prems(2) by auto
  have "stands_for C ?I E b (fixed_bytes (denote C base v)) (value_min impl_of (denote C base v))
      (value_max impl_of (denote C base v)) (value_len impl_of (denote C base v) (E (Variable ''inner'')))" for E
    using IH [of E] VOption.prems(2) b1 by auto
  note b = b1 this
  obtain ts where ts: "as_length b = Some ts" using stands_for_methods(3) [OF b(2)] by blast
  have len: "tokens_value C ?I E' ts = Some (value_len impl_of (denote C base v) (E' (Variable ''inner'')))" for E'
    using stands_for_methods(3) [OF b(2) [of E']] ts by simp
  then have "tokens_value C ?I E [Atom (IfLetSome field ts)] =
      Some (case ropt (E field) of Some x \<Rightarrow> value_len impl_of (denote C base v) x | None \<Rightarrow> 0)"
    by (simp add: tokens_value_def [of _ _ _ "[_]"] split: option.split)
  moreover have "as_const_max_length b \<noteq> []" by (simp add: as_const_max_length_def)
  ultimately have "stands_for C ?I E (known_fixed_unknown_length 1 (as_const_max_length b) [Atom (IfLetSome field ts)])
      1 1 (1 + value_max impl_of (denote C base v))
      (1 + (case ropt (E field) of Some x \<Rightarrow> value_len impl_of (denote C base v) x | None \<Rightarrow> 0))"
    using stands_for_known [OF stands_for_max_part [OF b(2) [of E]]] by blast
  then show ?case using b(1) ts by (simp add: bl_is_static_def known_fixed_unknown_length_def)
next
  case (VArray v e)
  then obtain k where k: "const_value C e = Some k" "only_ops [Mul] e" by auto
  have I: "impl_for C base (name v) = impl_of (denote C base v)"
    using canonicalE(4) [OF VArray.prems(1)] by (rule impl_for_name)
  show ?case
    using stands_for_unknown [OF part_value_times [OF k] _ part_value_times [OF k]]
    by (simp add: bl_is_static_def fully_unknown_def tokens_value_def I k(1))
next
  case (VVec v m)
  let ?I = "impl_for C base"
  have v: "canonical v" using canonicalE(3) [OF VVec.prems(1)] by blast
  obtain b where b: "value_length (Variable []) v = Some b"
      "stands_for C ?I E b (fixed_bytes (denote C base v)) (value_min impl_of (denote C base v))
        (value_max impl_of (denote C base v)) (value_len impl_of (denote C base v) (E (Variable [])))"
    using VVec.IH [of "Variable []" E] VVec.prems v by auto
  have "evaluate f [Lit m, Times, Parens (as_const_max_length b)] = Some (m * h)"
    if "evaluate f (as_const_max_length b) = Some h" for f h
    using evaluate_times [of f "Lit m" m "[Parens (as_const_max_length b)]" h] that by simp
  then have "part_value C ?I E [Lit m, Times, Parens (as_const_max_length b)] =
      Some (m * value_max impl_of (denote C base v))"
    using stands_for_methods(2) [OF b(2)] by (simp add: part_value_def tokens_value_def)
  then show ?case
    using stands_for_known [of C ?I E "[Lit m, Times, Parens (as_const_max_length b)]"] b(1)
    by (simp add: bl_is_static_def known_fixed_unknown_length_def tokens_value_def fold_sum impl_for_name [OF v])
next
  case (VDelegated ty)
  have "impl_for C base ty = base ty"
    using canonicalE(5) [OF VDelegated.prems(1)] by (simp add: impl_for_def)
  then show ?case
    using stands_for_unknown [of C "impl_for C base" E "[Atom (MinByteLen ty)]" _ "[Atom (MaxByteLen ty)]"]
    by (simp add: bl_is_static_def fully_unknown_def tokens_value_def)
next
  case (VString m b)
  then show ?case
    using stands_for_known [of C "impl_for C base" E "[Lit m]" m "StrLen field" _ 4]
    by (simp add: bl_is_static_def known_fixed_unknown_length_def tokens_value_def)
next
  case (VCow v)
  then show ?case using canonicalE(1) by auto
qed (simp_all add: stands_for_static [unfolded fully_static_def] denote_def bl_is_static_def fully_static_def)

section \<open>The length of a group\<close>

text \<open>\<open>Field::length\<close> and \<open>Fields::length\<close>; \<open>None\<close> is a panic of the macro.\<close>

definition field_length :: "bool \<Rightarrow> field_ident \<times> (syn_type, const_expr) shape \<Rightarrow> byte_length option" where
  "field_length use_variable f =
     (case length_place use_variable (fst f) of None \<Rightarrow> None | Some place \<Rightarrow> value_length place (snd f))"

definition fields_length ::
  "bool \<Rightarrow> (field_ident \<times> (syn_type, const_expr) shape) list \<Rightarrow> byte_length option" where
  "fields_length use_variable fs = map_option bl_sum (those (map (field_length use_variable) fs))"

lemma those_Some_iff: "those xs = Some ys \<longleftrightarrow> xs = map Some ys"
  by (induction xs arbitrary: ys) (auto split: option.splits)

lemma fields_stand_for:
  assumes "list_all (\<lambda>f. canonical (snd f) \<and> lengths_ok C (snd f)) fs"
    and "map (\<lambda>f. length_place use_variable (fst f)) fs = map Some places"
  shows "\<exists>bs. map (field_length use_variable) fs = map Some bs
    \<and> map bl_is_static bs = map (is_static \<circ> snd) fs
    \<and> list_all2 (\<lambda>b (f, l, h, n). stands_for C (impl_for C base) E b f l h n) bs
        (map2 (\<lambda>f p. (fixed_bytes (denote C base (snd f)), value_min impl_of (denote C base (snd f)),
           value_max impl_of (denote C base (snd f)), value_len impl_of (denote C base (snd f)) (E p))) fs places)"
  using assms
proof (induction fs arbitrary: places)
  case (Cons f fs)
  obtain p ps where p: "places = p # ps" "length_place use_variable (fst f) = Some p"
      "map (\<lambda>f. length_place use_variable (fst f)) fs = map Some ps"
    using Cons.prems(2) by (cases places) simp_all
  obtain b where "value_length p (snd f) = Some b" "bl_is_static b = is_static (snd f)"
      "stands_for C (impl_for C base) E b (fixed_bytes (denote C base (snd f)))
        (value_min impl_of (denote C base (snd f))) (value_max impl_of (denote C base (snd f)))
        (value_len impl_of (denote C base (snd f)) (E p))"
    using value_length_stands_for [of "snd f" C p base E] Cons.prems(1) by auto
  moreover obtain bs where "map (field_length use_variable) fs = map Some bs"
      "map bl_is_static bs = map (is_static \<circ> snd) fs"
      "list_all2 (\<lambda>b (f, l, h, n). stands_for C (impl_for C base) E b f l h n) bs
        (map2 (\<lambda>f p. (fixed_bytes (denote C base (snd f)), value_min impl_of (denote C base (snd f)),
           value_max impl_of (denote C base (snd f)), value_len impl_of (denote C base (snd f)) (E p))) fs ps)"
    using Cons.IH [OF _ p(3)] Cons.prems(1) by auto
  moreover have "field_length use_variable f = value_length p (snd f)" using p(2) by (simp add: field_length_def)
  ultimately show ?case using p(1) by (intro exI [of _ "b # bs"]) simp
qed simp

text \<open>
  The values of the expressions emitted for a group of fields whose types are \<open>tys\<close>: as
  \<open>group_len\<close>, \<open>group_min\<close> and \<open>group_max\<close> have them.
\<close>

lemma group_stands_for:
  assumes ok: "list_all (\<lambda>f. canonical (snd f) \<and> lengths_ok C (snd f)) fs"
    and places: "map (\<lambda>f. length_place use_variable (fst f)) fs = map Some places"
  shows "\<exists>b f. fields_length use_variable fs = Some b \<and> bl_is_static b = list_all (is_static \<circ> snd) fs
    \<and> stands_for C (impl_for C base) E b f (group_min impl_of (map (denote C base \<circ> snd) fs))
        (group_max impl_of (map (denote C base \<circ> snd) fs))
        (group_len impl_of (map (denote C base \<circ> snd) fs) (map E places))"
proof -
  have len: "length places = length fs" using arg_cong [OF places, of length] by simp
  let ?d = "\<lambda>f. denote C base (snd f)"
  obtain bs where bs: "map (field_length use_variable) fs = map Some bs"
      "map bl_is_static bs = map (is_static \<circ> snd) fs"
      "list_all2 (\<lambda>b (f, l, h, n). stands_for C (impl_for C base) E b f l h n) bs
        (map2 (\<lambda>f p. (fixed_bytes (?d f), value_min impl_of (?d f), value_max impl_of (?d f),
           value_len impl_of (?d f) (E p))) fs places)"
    using fields_stand_for [OF ok places] by blast
  have "fields_length use_variable fs = Some (bl_sum bs)"
    using bs(1) by (simp add: fields_length_def those_Some_iff)
  moreover have "list_all bl_is_static bs = list_all (is_static \<circ> snd) fs"
    using arg_cong [OF bs(2), of "list_all (\<lambda>x. x)"] by (simp add: list.pred_map comp_def)
  then have "bl_is_static (bl_sum bs) = list_all (is_static \<circ> snd) fs"
    by (simp add: bl_sum_def foldl_static) (simp add: bl_is_static_def fully_static_def)
  moreover have m: "map (value_min impl_of) (map ?d fs) = map (\<lambda>x. value_min impl_of (?d (fst x))) (zip fs places)"
    "map (value_max impl_of) (map ?d fs) = map (\<lambda>x. value_max impl_of (?d (fst x))) (zip fs places)"
    "map2 (value_len impl_of) (map ?d fs) (map E places) =
       map (\<lambda>x. value_len impl_of (?d (fst x)) (E (snd x))) (zip fs places)"
    using len by (auto intro!: nth_equalityI)
  ultimately show ?thesis
    using stands_for_sum [OF bs(3) stands_for_static [of C "impl_for C base" E 0]]
    unfolding bl_sum_def group_min_def group_max_def group_len_def comp_def m
    by (auto simp: comp_def case_prod_beta)
qed

end
