(* ===== verification/MacroSpec.thy ===== *)
theory MacroSpec
  imports LengthLaws CodecSpec
begin

text \<open>
  What the derive macro makes of the tokens it is given: which types it recognises, that the
  expressions it emits for lengths have the values of the implementation it emits, and that
  the names it makes up do not collide; and the two cases in which they go wrong.
\<close>

section \<open>Types\<close>

text \<open>
  The type a \<open>Value\<close> prints itself as is read as the same \<open>Value\<close>, however the type was
  written, so that the code emitted for the elements of an array or a vector is that of the
  type the macro has laid out.
\<close>

lemma types_reprinted: "from_type (name (from_type ty)) = from_type ty"
  using from_type_canonical by (simp add: canonical_def)

section \<open>Lengths\<close>

text \<open>
  C26. The expressions emitted for the fields of a struct or a variant evaluate, by the
  precedence of Rust, to the length, the minimum and the maximum of the group, and the macro
  takes the group for static when it is, provided that an array length has a value and no
  operator but \<open>*\<close> outside parentheses; no assertion of the macro fails.
\<close>

theorem lengths_emitted:
  assumes "list_all (\<lambda>f. lengths_ok C (from_type (snd f))) fs"
    and "map (\<lambda>f. length_place use_variable (fst f)) fs = map Some places"
  shows "\<exists>b ts. fields_length use_variable (map (map_prod id from_type) fs) = Some b \<and> as_length b = Some ts
    \<and> tokens_value C (impl_for C base) E ts =
        Some (group_len impl_of (map (denote C base \<circ> from_type \<circ> snd) fs) (map E places))
    \<and> tokens_value C (impl_for C base) E (as_const_min_length b) =
        Some (group_min impl_of (map (denote C base \<circ> from_type \<circ> snd) fs))
    \<and> tokens_value C (impl_for C base) E (as_const_max_length b) =
        Some (group_max impl_of (map (denote C base \<circ> from_type \<circ> snd) fs))
    \<and> bl_is_static b = group_static (map (denote C base \<circ> from_type \<circ> snd) fs)"
proof -
  let ?fs = "map (map_prod id from_type) fs"
  have ok: "list_all (\<lambda>f. canonical (snd f) \<and> lengths_ok C (snd f)) ?fs"
    using assms(1) by (auto simp: list_all_iff from_type_canonical)
  have places: "map (\<lambda>f. length_place use_variable (fst f)) ?fs = map Some places"
    using assms(2) by (simp add: comp_def)
  obtain b f where b: "fields_length use_variable ?fs = Some b"
      "bl_is_static b = list_all (is_static \<circ> snd) ?fs"
      "stands_for C (impl_for C base) E b f (group_min impl_of (map (denote C base \<circ> snd) ?fs))
        (group_max impl_of (map (denote C base \<circ> snd) ?fs))
        (group_len impl_of (map (denote C base \<circ> snd) ?fs) (map E places))"
    using group_stands_for [OF ok places] by blast
  have "is_static (denote C base v) = is_static v" for v
    by (induction v) (simp_all add: denote_def)
  then have "bl_is_static b = group_static (map (denote C base \<circ> from_type \<circ> snd) fs)"
    using b(2) by (simp add: group_static_def list.pred_map comp_def)
  moreover have fs: "map (denote C base \<circ> snd) ?fs = map (denote C base \<circ> from_type \<circ> snd) fs"
    by (simp add: comp_def)
  note m = stands_for_methods [OF b(3) [unfolded fs]]
  obtain ts where "as_length b = Some ts" "tokens_value C (impl_for C base) E ts =
      Some (group_len impl_of (map (denote C base \<circ> from_type \<circ> snd) fs) (map E places))"
    using m(3) by blast
  ultimately show ?thesis using b(1) m(1,2) by blast
qed

text \<open>
  The fields \<open>count: u16\<close>, \<open>rows: [u16; 2 * (N - 1)]\<close> and \<open>name: Option<String>\<close>, with \<open>N = 4\<close>.
\<close>

definition demo_fields :: "(field_ident \<times> syn_type) list" where
  "demo_fields = [(Named ''count'', named_type ''u16''),
     (Named ''rows'', TypeArray (named_type ''u16'') [Lit 2, Times, Parens [Atom ''N'', Op Sub, Lit 1]]),
     (Named ''name'', generic_type ''Option'' (named_type ''String''))]"

lemma demo_fields_shape:
  "map (denote (\<lambda>_. 4) base \<circ> from_type \<circ> snd) demo_fields =
    [VU16, VArray VU16 6, VOption (VString 1020 False)]"
  by (simp add: demo_fields_def known_idents_def denote_def const_value_def evaluate_def)

theorem lengths_emitted_witness:
  "\<forall>base E. \<exists>b. fields_length False (map (map_prod id from_type) demo_fields) = Some b
    \<and> tokens_value (\<lambda>_. 4) (impl_for (\<lambda>_. 4) base) E (as_const_max_length b) = Some (2 + 12 + (1 + 1024))"
proof -
  have "list_all (\<lambda>f. lengths_ok (\<lambda>_. 4) (from_type (snd f))) demo_fields"
    by (simp add: demo_fields_def known_idents_def const_value_def evaluate_def)
  moreover have "map (\<lambda>f. length_place False (fst f)) demo_fields =
      map Some [SelfField (Named ''count''), SelfField (Named ''rows''), SelfField (Named ''name'')]"
    by (simp add: demo_fields_def)
  moreover have "group_max impl_of [VU16, VArray VU16 6, VOption (VString 1020 False)] = 2 + 12 + (1 + 1024)"
    by (simp add: group_max_def derive_for_def)
  ultimately show ?thesis
    using lengths_emitted [of "\<lambda>_. 4" demo_fields False] unfolding demo_fields_shape by metis
qed

text \<open>
  C35. The length of an array is spliced after \<open>*\<close> without parentheses. For a field of type
  \<open>[T; a op b]\<close>, whatever the type of the items and the operator, the emitted minimum and maximum
  are \<open>T::MIN_BYTE_LEN * a op b\<close> and \<open>T::MAX_BYTE_LEN * a op b\<close>, while the array has \<open>a op b\<close> items.
  For a sum of a type of more than one byte the emitted maximum is too small.
\<close>

theorem array_length_spliced:
  assumes "const_value C [t] = Some x" "const_value C [u] = Some y" "apply_op op x y = Some z"
  shows "\<exists>b. fields_length False [(Named ident, from_type (TypeArray ty [t, Op op, u]))] = Some b
    \<and> tokens_value C (impl_for C base) E (as_const_min_length b) =
        apply_op op (min_byte_len (impl_for C base ty) * x) y
    \<and> tokens_value C (impl_for C base) E (as_const_max_length b) =
        apply_op op (max_byte_len (impl_for C base ty) * x) y
    \<and> group_min impl_of [denote C base (from_type (TypeArray ty [t, Op op, u]))] =
        min_byte_len (impl_for C base ty) * z
    \<and> group_max impl_of [denote C base (from_type (TypeArray ty [t, Op op, u]))] =
        max_byte_len (impl_for C base ty) * z
    \<and> (op = Add \<and> 1 < max_byte_len (impl_for C base ty) \<and> 0 < y \<longrightarrow>
        max_byte_len (impl_for C base ty) * x + y < max_byte_len (impl_for C base ty) * z)"
proof -
  let ?I = "impl_for C base ty"
  have I: "impl_for C base (name (from_type ty)) = ?I"
    using from_type_canonical [of ty] by (simp add: impl_for_def canonical_def)
  have f: "factor (map_token (\<lambda>n. Some (C n)) t) = Some x" "factor (map_token (\<lambda>n. Some (C n)) u) = Some y"
    using assms(1,2) by (simp_all add: const_value_def evaluate_def split: option.splits)
  have z: "const_value C [t, Op op, u] = Some z"
    using assms(3) f by (simp add: const_value_def evaluate_def)
  have spliced: "tokens_value C (impl_for C base) E (Lit 0 # Plus # Atom a # Times # const_tokens [t, Op op, u]) =
      apply_op op (m * x) y" if "operand_value C (impl_for C base) a E = Some m" for a m
    using f that
    by (cases op) (simp_all add: tokens_value_def evaluate_def token.map_comp comp_def split: option.split)
  have less: "x * m + y < z * m" if "op = Add" "1 < m" "0 < y" for m
  proof -
    have "z = x + y" "1 * y < m * y" using that assms(3) by (simp, intro mult_strict_right_mono)
    then show ?thesis by (simp add: algebra_simps)
  qed
  then show ?thesis
    using spliced [of "MinByteLen (name (from_type ty))"] spliced [of "MaxByteLen (name (from_type ty))"]
      z I less [of "max_byte_len ?I"]
    by (simp add: fields_length_def field_length_def fully_unknown_def bl_sum_def bl_add_def
        fully_static_def join_tokens_def as_const_max_length_def as_const_min_length_def known_max_length_def
        known_min_length_def group_min_def group_max_def impl_for_def mult.commute)
qed

text \<open>\<open>[u16; 2 + 2]\<close> takes 8 bytes and \<open>[u16; 8 / 3]\<close> takes 4; 6 and 5 are emitted.\<close>

theorem array_length_spliced_witness:
  "\<forall>C base E. (\<exists>b. fields_length False [(Named ''a'', from_type (TypeArray (named_type ''u16'') [Lit 2, Op Add, Lit 2]))] = Some b
      \<and> tokens_value C (impl_for C base) E (as_const_max_length b) = Some 6)
    \<and> (\<exists>b. fields_length False [(Named ''a'', from_type (TypeArray (named_type ''u16'') [Lit 8, Op Div, Lit 3]))] = Some b
      \<and> tokens_value C (impl_for C base) E (as_const_max_length b) = Some 5)"
proof (intro allI)
  fix C base E
  have "max_byte_len (impl_for C base (named_type ''u16'')) = 2"
    by (simp add: impl_for_def known_idents_def denote_def derive_for_def)
  then show "(\<exists>b. fields_length False [(Named ''a'', from_type (TypeArray (named_type ''u16'') [Lit 2, Op Add, Lit 2]))] = Some b
      \<and> tokens_value C (impl_for C base) E (as_const_max_length b) = Some 6)
    \<and> (\<exists>b. fields_length False [(Named ''a'', from_type (TypeArray (named_type ''u16'') [Lit 8, Op Div, Lit 3]))] = Some b
      \<and> tokens_value C (impl_for C base) E (as_const_max_length b) = Some 5)"
    using array_length_spliced [of C "Lit 2" 2 "Lit 2" 2 Add 4 "''a''" "named_type ''u16''" base E]
      array_length_spliced [of C "Lit 8" 8 "Lit 3" 3 Div 2 "''a''" "named_type ''u16''" base E]
    by (auto simp: const_value_def)
qed

section \<open>Names\<close>

text \<open>
  C27. The code emitted to read a struct, with the names it binds, reads what the layout says,
  if the fields have different names and none is the name of another followed by
  \<open>_fixed\<close>; for a tuple struct always.
\<close>

theorem names_do_not_collide:
  "(distinct names \<and> (\<forall>x \<in> set names. x @ ''_fixed'' \<notin> set names) \<and> length names = length vs \<longrightarrow>
      group_read_named impl offset (map Named names) vs bytes = group_read impl offset vs bytes)
    \<and> group_read_named impl offset (map Unnamed [0..<length vs]) vs bytes = group_read impl offset vs bytes"
  using group_read_named_eq [of "map Named names" vs] group_read_named_eq [of "map Unnamed [0..<length vs]" vs]
  by (simp add: names_apart_named names_apart_tuple)

theorem names_do_not_collide_witness:
  "group_read_named impl_of 0 [Named ''name'', Named ''age''] [VString 1020 False, VU8] [2, 0, 0, 0, 33, 72, 105] =
    group_read impl_of 0 [VString 1020 False, VU8] [2, 0, 0, 0, 33, 72, 105]"
  using names_do_not_collide [of "[''name'', ''age'']" "[VString 1020 False, VU8]" impl_of 0] by simp

text \<open>
  C36. A field \<open>x_fixed\<close> of type \<open>usize\<close> before a field \<open>x\<close> of type \<open>String\<close> is hidden by the length
  of \<open>x\<close>, whatever the name \<open>x\<close>: the struct is written with \<open>n\<close> in \<open>x_fixed\<close>, and what the macro
  emits to read it back returns the length of the string in its place, where the layout has \<open>n\<close>.
\<close>

theorem field_hidden:
  assumes "n < 2 ^ 64" "valid_utf8 s" "length s < 2 ^ 32"
  shows "\<exists>bytes. group_write impl_of 0 [VUSize, VString 1020 False] [RBits n, RStr s] (replicate (12 + length s) 0) = Ok bytes
    \<and> group_read impl_of 0 [VUSize, VString 1020 False] bytes = Ok [RBits n, RStr s]
    \<and> group_read_named impl_of 0 [Named (x @ ''_fixed''), Named x] [VUSize, VString 1020 False] bytes =
        Ok [RBits (length s), RStr s]"
proof (intro exI conjI)
  let ?vs = "[VUSize, VString 1020 False] :: field_value list" and ?xs = "[RBits n, RStr s]"
  let ?n = "to_le_bytes 8 n" and ?l = "to_le_bytes 4 (length s)"
  have ty: "list_all2 (has_type impl_of) ?vs ?xs" "list_all (field_ok impl_of) ?vs"
    using assms by (simp_all add: bits_type_def)
  have enc: "group_enc impl_of ?vs ?xs = ?n @ ?l @ s" by (simp add: group_enc_def del: to_le_bytes.simps)
  show "group_write impl_of 0 ?vs ?xs (replicate (12 + length s) 0) = Ok (group_enc impl_of ?vs ?xs)"
    using group_write_ok [OF ty, of 0 "replicate (12 + length s) 0"] by (simp add: group_len_def)
  show "group_read impl_of 0 ?vs (group_enc impl_of ?vs ?xs) = Ok ?xs"
    using group_read_ok [OF ty, of "[]" "[]"] by simp
  have "read_fixed_part VUSize (Static 0) (?n @ ?l @ s, 0) = Ok (FValue (RBits n), 0)"
    "read_fixed_part (VString 1020 False) (Static 8) (?n @ ?l @ s, 0) = Ok (FLen (length s), 0)"
    using read_fixed_static [of impl_of VUSize "RBits n" "[]" "?l @ s" 0]
      read_fixed_static [of impl_of "VString 1020 False" "RStr s" ?n s 0] ty(1)
    by (simp_all del: to_le_bytes.simps)
  moreover have "read_variable_part impl_of (VString 1020 False) (Static 8) (FLen (length s)) (?n @ ?l @ s, 12) =
      Ok (RStr s, 12 + length s)"
    using assms(2) by (simp add: from_utf8_lossy_valid del: to_le_bytes.simps)
  ultimately show "group_read_named impl_of 0 [Named (x @ ''_fixed''), Named x] ?vs (group_enc impl_of ?vs ?xs) =
      Ok [RBits (length s), RStr s]"
    unfolding enc
    by (simp add: group_read_named_def named_fields_def fixed_binding_def emits_variable_def bind_fields_def
        fixed_ident_def group_fixed_bytes_def del: read_variable_part.simps to_le_bytes.simps)
qed

text \<open>\<open>S { x_fixed: 7, x: "Hi" }\<close> comes back as \<open>S { x_fixed: 2, x: "Hi" }\<close>.\<close>

theorem field_hidden_witness:
  "\<exists>bytes. group_write impl_of 0 [VUSize, VString 1020 False] [RBits 7, RStr [72, 105]] (replicate 14 0) = Ok bytes
    \<and> group_read_named impl_of 0 [Named ''x_fixed'', Named ''x''] [VUSize, VString 1020 False] bytes =
        Ok [RBits 2, RStr [72, 105]]"
proof -
  have "valid_utf8 [72, 105]" by code_simp
  then show ?thesis using field_hidden [of 7 "[72, 105]" "''x''"] by auto
qed

end
