(* ===== verification/Exchange.thy ===== *)
theory Exchange
  imports Sending Intake Communicator
begin

text \<open>
  Unreliable messages over a network that loses nothing: one communicator writes, its \<open>send\<close>
  packs and sends, what it sent reaches the other one, and the \<open>read\<close> there returns the
  messages in the order they were written. The sender has nothing else to do; the receiver
  may be in any state.
\<close>

section \<open>Sending from an idle connection\<close>

lemma retain_loop_none:
  "\<forall>i. rb_get r i = None \<Longrightarrow> retain_loop f is r s = Some (r, s)"
proof (induction "is")
  case (Cons i "is")
  have "rb_get r i = None" using Cons.prems by simp
  then show ?case using Cons by (auto simp: rb_get_def Let_def split: if_splits)
qed simp

lemma rb_retain_none: "\<forall>i. rb_get r i = None \<Longrightarrow> rb_retain f r s = Some (r, s)"
  by (simp add: rb_retain_def retain_loop_none)

definition accepts_all :: "udp_socket \<Rightarrow> bool" where
  "accepts_all s \<longleftrightarrow> (\<forall>k. send_ok (os_socket s) k)"

lemma send_unreliable_all:
  assumes "lawful_repr d" "list_all (packet_ok d) ps" "length (data_buffer s) = MAX_PACKET_LEN" "accepts_all s"
  shows "\<exists>s' a'. send_unreliable d crc addr ps (s, a) = Some (None, s', a')
    \<and> same_config s s' \<and> inbox (os_socket s') = inbox (os_socket s)
    \<and> outbox (os_socket s') = outbox (os_socket s) @ map (\<lambda>p. (addr, frame d crc p)) ps"
  using assms(2-4)
proof (induction ps arbitrary: s a)
  case (Cons p ps)
  obtain s1 where s1: "put_packet d crc p s = Ok s1"
      "addr_send addr (4 + byte_len (packet_repr d) p) s1 = Some (transmitted addr (frame d crc p) s)"
    using put_send_ok [OF assms(1), of p s] Cons.prems by auto
  obtain s2 where s2: "transmitted addr (frame d crc p) s = (True, s2)" "same_config s s2"
      "accepts_all s2" "inbox (os_socket s2) = inbox (os_socket s)"
      "outbox (os_socket s2) = outbox (os_socket s) @ [(addr, frame d crc p)]"
      "length (data_buffer s2) = MAX_PACKET_LEN"
    using Cons.prems length_frame_le [OF assms(1), of p crc]
    by (simp add: transmitted_def accepts_all_def same_config_def Let_def)
  then show ?case
    using s1 Cons.IH [of s2 True] Cons.prems(1) same_config_trans [OF s2(2)] by auto
qed (simp add: same_config_def)

text \<open>
  A connection without reliable packets or messages: what it has to send are the packets it
  already holds and then the packed messages.
\<close>

definition unreliable_only :: "inner \<Rightarrow> bool" where
  "unreliable_only c \<longleftrightarrow>
     \<not> has_work (c\<lparr>unreliable_send_queue := [], unreliable_send_packets := []\<rparr>)
   \<and> list_all (\<lambda>p. \<not> reliable p) (unreliable_send_packets c) \<and> \<not> received_packet_duplicate c"

lemma unreliable_only_rings:
  assumes "inner_ok d c" "unreliable_only c"
  shows "\<forall>i. rb_get (reliable_send_packets c) i = None" "\<forall>i. rb_get (reliable_ordered_send_packets c) i = None"
    "reliable_send_queue c = []" "reliable_ordered_send_queue c = []"
proof -
  have "inner_ok d (c\<lparr>unreliable_send_queue := [], unreliable_send_packets := []\<rparr>)"
    using assms(1) by (simp add: inner_ok_def recv_rings_ok_def queue_ok_def)
  from has_work_iff [OF this] assms(2)
  show "\<forall>i. rb_get (reliable_send_packets c) i = None" "\<forall>i. rb_get (reliable_ordered_send_packets c) i = None"
    "reliable_send_queue c = []" "reliable_ordered_send_queue c = []"
    by (auto simp: unreliable_only_def)
qed

lemma send_idle:
  assumes "lawful_repr (SEND ctx)" "inner_ok (SEND ctx) c" "config_ok s" "accepts_all s" "unreliable_only c"
    and "\<forall>m \<in> set (unreliable_send_queue c). byte_len (SEND ctx) m \<le> MAX_PACKET_DATA_LEN"
  shows "\<exists>c' s' ps. inner_send env ctx addr c s = Returns (None, c', s')
    \<and> inbox (os_socket s') = inbox (os_socket s)
    \<and> outbox (os_socket s') = outbox (os_socket s) @
        map (\<lambda>p. (addr, frame (SEND ctx) (CRC env ctx) p)) (unreliable_send_packets c @ ps)
    \<and> list_all (packet_ok (SEND ctx)) (unreliable_send_packets c @ ps) \<and> list_all (\<lambda>p. \<not> reliable p) ps
    \<and> concat (map messages ps) = unreliable_send_queue c"
proof -
  let ?d = "SEND ctx"
  note idle = unreliable_only_rings [OF assms(2,5)]
  have c: "c\<lparr>received_packet_duplicate := False\<rparr> = c"
    using assms(5) by (intro inner.equality) (simp_all add: unreliable_only_def)
  obtain chunks where f: "flush_unreliable ?d c = Some (with_packets c chunks)"
      "concat chunks = unreliable_send_queue c"
      "\<forall>ch \<in> set chunks. ch \<noteq> [] \<and> total_len ?d ch \<le> MAX_PACKET_DATA_LEN"
    using flush_unreliable_ok [of c ?d] assms(6) by auto
  let ?c' = "with_packets c chunks" and ?ps = "map2 (unreliable_packet c) [0..<length chunks] chunks"
  have same: "c\<lparr>reliable_send_queue := [], reliable_ordered_send_queue := []\<rparr> = c"
    by (intro inner.equality) (simp_all add: idle)
  have flush: "flush_messages ctx c s = Returns (?c', s)"
    by (simp add: flush_messages_def flush_loop.simps idle)
      (simp only: same f(1) or_diverge_def option.case outcome_bind.simps)
  have all: "unreliable_send_packets ?c' = unreliable_send_packets c @ ?ps" by (simp add: with_packets_def)
  have ps: "list_all (packet_ok ?d) (unreliable_send_packets c @ ?ps)"
    using with_packets_ok [OF refl, of ?d chunks c] f(2,3) assms(2) all by (auto simp: inner_ok_def)
  have unreliable: "list_all (\<lambda>p. \<not> reliable p) ?ps"
    by (auto simp: unreliable_packet_def list_all_iff set_zip)
  have "map messages ?ps = chunks"
    by (intro nth_equalityI) (simp_all add: unreliable_packet_def)
  then have messages: "concat (map messages ?ps) = unreliable_send_queue c" using f(2) by simp
  have rings: "reliable_send_packets ?c' = reliable_send_packets c"
    "reliable_ordered_send_packets ?c' = reliable_ordered_send_packets c"
    by (simp_all add: with_packets_def)
  obtain s' a' where sent: "send_unreliable ?d (CRC env ctx) addr (unreliable_send_packets c @ ?ps) (s, False) =
        Some (None, s', a')"
      "inbox (os_socket s') = inbox (os_socket s)"
      "outbox (os_socket s') = outbox (os_socket s) @
        map (\<lambda>p. (addr, frame ?d (CRC env ctx) p)) (unreliable_send_packets c @ ?ps)"
    using send_unreliable_all [OF assms(1) ps, of s "CRC env ctx" addr False] assms(3,4)
    by (auto simp: config_ok_def)
  have "\<exists>c'' s''. send_packets env ctx addr ?c' s = Returns (None, c'', s'')
      \<and> inbox (os_socket s'') = inbox (os_socket s') \<and> outbox (os_socket s'') = outbox (os_socket s')"
    using sent(1) idle all
    by (cases a') (simp_all add: send_packets_def rings rb_retain_none Let_def now_def)
  then obtain c'' s'' where result: "send_packets env ctx addr ?c' s = Returns (None, c'', s'')"
      "inbox (os_socket s'') = inbox (os_socket s')" "outbox (os_socket s'') = outbox (os_socket s')" by blast
  have "inner_send env ctx addr c s = Returns (None, c'', s'')"
    using assms(5) flush result(1) by (simp add: inner_send_def Let_def c unreliable_only_def)
  then show ?thesis
    using result(2,3) sent(2,3) ps unreliable messages by (intro exI [of _ c''] exI [of _ s''] exI [of _ ?ps]) simp
qed

section \<open>Receiving\<close>

lemma receive_nothing:
  assumes "inbox (os_socket s) = []" "no_faults env s"
  shows "receive env ctx c s = Returns (c, s)"
proof -
  have "receive_loop env ctx c s = Returns (c, s)"
    using assms(1) by (subst receive_loop.simps) (simp add: recv_from_def)
  moreover have "feature_debug env \<Longrightarrow> delayed_loop env ctx c s = Returns (c, s)"
    using assms(2) by (subst delayed_loop.simps) (simp add: no_faults_def read_delayed_def)
  ultimately show ?thesis by (simp add: receive_def)
qed

lemma process_unreliable_queue:
  assumes "list_all (\<lambda>(a, p). \<not> reliable p) aps"
  shows "unordered_recv_queue (fold (\<lambda>(a, p). process_packet p) aps c) =
    unordered_recv_queue c @ concat (map (messages \<circ> snd) aps)"
  using assms
proof (induction aps arbitrary: c)
  case (Cons ap aps)
  then show ?case
    by (cases ap) (auto simp: process_packet_def acknowledge_eq Let_def)
qed simp

text \<open>\<open>send\<close> does not touch what can be read.\<close>

lemma send_packets_queue:
  "send_packets env ctx addr c s = Returns (e, c', s') \<Longrightarrow> unordered_recv_queue c' = unordered_recv_queue c"
  by (auto simp: send_packets_def Let_def outcome_bind_Returns split: if_splits prod.splits)

lemma or_diverge_Returns: "or_diverge m = Returns x \<longleftrightarrow> m = Some x"
  by (simp add: or_diverge_def split: option.split)

lemma flush_messages_queue:
  assumes "flush_messages ctx c s = Returns (c', s')"
  shows "unordered_recv_queue c' = unordered_recv_queue c"
proof -
  obtain r1 q1 r2 q2 where flush: "flush_unreliable (SEND ctx)
      (c\<lparr>reliable_send_packets := r1, reliable_send_queue := q1,
         reliable_ordered_send_packets := r2, reliable_ordered_send_queue := q2\<rparr>) = Some c'"
    using assms by (auto simp: flush_messages_def outcome_bind_Returns or_diverge_Returns)
  then show ?thesis
    using flush_unreliable_ok [OF flush_unreliable_Some [OF flush]] by (auto simp: with_packets_def)
qed

lemma inner_send_queue:
  assumes "inner_send env ctx addr c s = Returns (e, c', s')"
  shows "unordered_recv_queue c' = unordered_recv_queue c"
proof -
  let ?c = "(if received_packet_duplicate c \<and> reliable_send_queue c = [] \<and> reliable_ordered_send_queue c = []
      \<and> unreliable_send_queue c = [] then inner_write_heartbeat c else c)\<lparr>received_packet_duplicate := False\<rparr>"
  obtain c1 s1 where sent: "flush_messages ctx ?c s = Returns (c1, s1)"
      "send_packets env ctx addr c1 s1 = Returns (e, c', s')"
    using assms by (auto simp: inner_send_def Let_def outcome_bind_Returns)
  have "unordered_recv_queue ?c = unordered_recv_queue c" by (simp add: inner_write_heartbeat_def Let_def)
  then show ?thesis
    by (simp only: send_packets_queue [OF sent(2)] flush_messages_queue [OF sent(1)])
qed

section \<open>From one to the other\<close>

text \<open>The network hands everything one socket has sent to the other one, in order.\<close>

definition carry :: "socket_addr \<Rightarrow> communicator \<Rightarrow> communicator \<Rightarrow> communicator" where
  "carry addr from to =
     to\<lparr>com_socket := (com_socket to)\<lparr>os_socket := (os_socket (com_socket to))
       \<lparr>inbox := map (\<lambda>(_, f). Some (addr, f)) (outbox (os_socket (com_socket from)))\<rparr>\<rparr>\<rparr>"

definition ready :: "crate_env \<Rightarrow> rval byte_repr \<Rightarrow> communicator \<Rightarrow> bool" where
  "ready env d com \<longleftrightarrow>
     inner_ok d (com_inner com) \<and> config_ok (com_socket com) \<and> no_faults env (com_socket com)
   \<and> accepts_all (com_socket com) \<and> inbox (os_socket (com_socket com)) = []
   \<and> outbox (os_socket (com_socket com)) = [] \<and> \<not> com_has_work com
   \<and> \<not> received_packet_duplicate (com_inner com)"

lemma write_all:
  "fold com_write ms com = com\<lparr>com_inner := (com_inner com)
     \<lparr>unreliable_send_queue := unreliable_send_queue (com_inner com) @ ms\<rparr>\<rparr>"
  by (induction ms arbitrary: com) (simp_all add: com_write_def)

definition sends_messages :: "crate_env \<Rightarrow> udp_context \<Rightarrow> communicator \<Rightarrow> rval list \<Rightarrow> bool" where
  "sends_messages env ctx com ms \<longleftrightarrow>
     (\<exists>ps. outbox (os_socket (com_socket com)) = map (\<lambda>p. (None, frame (SEND ctx) (CRC env ctx) p)) ps
       \<and> list_all (packet_ok (SEND ctx)) ps \<and> list_all (\<lambda>p. \<not> reliable p) ps
       \<and> concat (map messages ps) = ms)"

lemma com_send_idle:
  assumes "lawful_repr (SEND ctx)" "ready env (SEND ctx) com"
    and "queue_ok (SEND ctx) ms" "\<forall>m \<in> set ms. byte_len (SEND ctx) m \<le> MAX_PACKET_DATA_LEN"
  shows "\<exists>com'. com_send env ctx (fold com_write ms com) = Returns (None, com') \<and> sends_messages env ctx com' ms"
proof -
  let ?c = "com_inner com" and ?s = "com_socket com"
  note ready = assms(2) [unfolded ready_def]
  have queue: "unreliable_send_queue ?c = []" "unreliable_send_packets ?c = []"
    using ready by (auto simp: com_has_work_def has_work_def)
  let ?c' = "?c\<lparr>unreliable_send_queue := ms\<rparr>"
  have ok: "inner_ok (SEND ctx) ?c'" using ready assms(3) by (simp add: inner_ok_def recv_rings_ok_def)
  have idle: "unreliable_only ?c'"
    using ready queue by (simp add: unreliable_only_def com_has_work_def has_work_def)
  obtain c' s' ps where "inner_send env ctx None ?c' ?s = Returns (None, c', s')"
      "outbox (os_socket s') = map (\<lambda>p. (None, frame (SEND ctx) (CRC env ctx) p)) ps"
      "list_all (packet_ok (SEND ctx)) ps" "list_all (\<lambda>p. \<not> reliable p) ps" "concat (map messages ps) = ms"
    using send_idle [OF assms(1) ok _ _ idle, of ?s env None] ready assms(4) queue(2) by auto
  then show ?thesis
    using ready queue
    by (intro exI [of _ "\<lparr>com_socket = s', com_inner = c'\<rparr>"])
      (auto simp: com_send_def sends_messages_def write_all)
qed

text \<open>A connection that only has a heartbeat to send.\<close>

lemma com_send_heartbeat:
  assumes "lawful_repr (SEND ctx)" "ready env (SEND ctx) com"
  shows "\<exists>com' ps. com_send env ctx (com_write_heartbeat com) = Returns (None, com') \<and> ps \<noteq> []
    \<and> outbox (os_socket (com_socket com')) = map (\<lambda>p. (None, frame (SEND ctx) (CRC env ctx) p)) ps
    \<and> list_all (packet_ok (SEND ctx)) ps"
proof -
  let ?c = "com_inner com" and ?s = "com_socket com"
  note ready = assms(2) [unfolded ready_def]
  have queue: "unreliable_send_queue ?c = []" "unreliable_send_packets ?c = []"
    using ready by (auto simp: com_has_work_def has_work_def)
  let ?c' = "inner_write_heartbeat ?c"
  have ok: "inner_ok (SEND ctx) ?c'" using ready by (intro heartbeat_ok) simp
  have "unreliable_only ?c'"
    using ready queue
    by (simp add: unreliable_only_def com_has_work_def has_work_def inner_write_heartbeat_def Let_def heartbeat_def)
  moreover obtain p where "unreliable_send_packets ?c' = [p]" "unreliable_send_queue ?c' = []"
    using queue by (simp add: inner_write_heartbeat_def Let_def)
  ultimately obtain c' s' ps where "inner_send env ctx None ?c' ?s = Returns (None, c', s')"
      "outbox (os_socket s') = map (\<lambda>p. (None, frame (SEND ctx) (CRC env ctx) p)) (p # ps)"
      "list_all (packet_ok (SEND ctx)) (p # ps)"
    using send_idle [OF assms(1) ok, of ?s env None] ready by auto
  then show ?thesis
    by (intro exI [of _ "\<lparr>com_socket = s', com_inner = c'\<rparr>"] exI [of _ "p # ps"])
      (simp add: com_send_def com_write_heartbeat_def)
qed

lemma tick_nothing_arrived:
  "ready env d com \<Longrightarrow> com_tick env ctx (fold com_write ms com) = com_send env ctx (fold com_write ms com)"
  by (simp add: com_tick_def com_recv_def com_send_def write_all receive_nothing ready_def)

lemma recv_carried:
  assumes "lawful_repr (SEND ctx)" "ready env d to" "sends_messages env ctx from ms"
  shows "\<exists>to'. com_recv env (REVERSE ctx) (carry addr from to) = Returns to'
    \<and> unordered_recv_queue (com_inner to') = unordered_recv_queue (com_inner to) @ ms
    \<and> config_ok (com_socket to')"
proof -
  obtain ps where ps: "outbox (os_socket (com_socket from)) = map (\<lambda>p. (None, frame (SEND ctx) (CRC env ctx) p)) ps"
    "list_all (packet_ok (SEND ctx)) ps" "list_all (\<lambda>p. \<not> reliable p) ps" "concat (map messages ps) = ms"
    using assms(3) by (auto simp: sends_messages_def)
  let ?com = "carry addr from to" and ?aps = "map (Pair addr) ps"
  obtain t s where "receive env (REVERSE ctx) (com_inner ?com) (com_socket ?com) =
      Returns ((fold (\<lambda>(a, p). process_packet p) ?aps (com_inner ?com))\<lparr>last_seen := t\<rparr>, s)"
      "same_config (com_socket ?com) s"
    using receive_frames [OF assms(1), of ?aps env "com_socket ?com" "com_inner ?com"] assms(2) ps(1,2)
    by (auto simp: ready_def carry_def config_ok_def list_all_iff comp_def)
  moreover have "config_ok (com_socket ?com)" using assms(2) by (simp add: ready_def carry_def config_ok_def)
  ultimately show ?thesis
    using process_unreliable_queue [of ?aps "com_inner ?com"] ps(3,4) config_ok_same [of "com_socket ?com" s]
    by (simp add: com_recv_def list_all_iff carry_def comp_def)
qed

lemma unreliable_exchange:
  assumes "lawful_repr (SEND ctx)" "ready env (SEND ctx) a" "ready env d b"
    and "queue_ok (SEND ctx) ms" "\<forall>m \<in> set ms. byte_len (SEND ctx) m \<le> MAX_PACKET_DATA_LEN"
  shows "\<exists>a' b'. com_tick env ctx (fold com_write ms a) = Returns (None, a')
    \<and> com_recv env (REVERSE ctx) (carry addr a' b) = Returns b'
    \<and> unordered_recv_queue (com_inner b') = unordered_recv_queue (com_inner b) @ ms
    \<and> config_ok (com_socket b')"
  using com_send_idle [OF assms(1,2,4,5)] recv_carried [OF assms(1,3)] tick_nothing_arrived [OF assms(2), of ctx ms]
  by metis

section \<open>Fresh communicators\<close>

text \<open>A system with no datagram waiting, which accepts everything that is sent.\<close>

definition quiet :: "os \<Rightarrow> bool" where
  "quiet o_s \<longleftrightarrow> inbox o_s = [] \<and> outbox o_s = [] \<and> (\<forall>k. send_ok o_s k)"

lemma com_bind_ready:
  assumes "quiet o_s"
  shows "\<exists>com. com_bind (Some o_s) = Some com \<and> ready env d com \<and> unordered_recv_queue (com_inner com) = []"
proof -
  obtain s where s: "socket_bind (Some o_s) = Some s" "os_socket s = o_s" by (simp add: socket_bind_def)
  let ?c = "fst (inner_default s)" and ?s = "snd (inner_default s)"
  have idle: "\<not> has_work ?c"
    using has_work_iff [OF inner_ok_default [of d s]]
    by (simp add: inner_default_def now_def)
  have "?s = snd (now (snd (now s)))" by (simp add: inner_default_def now_def)
  then have "config_ok ?s" "no_faults env ?s"
    using config_ok_bind [OF s(1)] no_faults_bind [OF s(1)] by (simp_all add: config_ok_def now_def)
  then show ?thesis
    using s assms idle inner_ok_default [of d s]
    by (auto simp: com_bind_def ready_def com_has_work_def accepts_all_def quiet_def inner_default_def now_def)
qed

end
