(* ===== verification/RingTests.thy ===== *)
theory RingTests
  imports RingMut
begin

text \<open>
  The unit tests of \<open>mini_udp/src/ring_buffer.rs\<close>, run on the model: a test is the conjunction of
  its assertions over the states the test goes through, and its proof evaluates them by
  rewriting concrete rings. The long loop of \<open>unlimited_push\<close>, which takes the numbers around
  twice, is proved by its invariant instead.
\<close>

section \<open>The tests\<close>

text \<open>\<open>RingBuffer::new()\<close>, which no test lets panic.\<close>

definition new_ring :: "nat \<Rightarrow> 'a ring" where
  "new_ring n = the (rb_new n)"

fun test_ring_buffer_from :: "nat list \<Rightarrow> nat ring \<Rightarrow> bool" where
  "test_ring_buffer_from [] ring = True"
| "test_ring_buffer_from (i # is) ring =
     (let (index, ring) = rb_push ring i
      in i = unat index \<and> rb_get ring index = Some i
       \<and> (i > 30 \<longrightarrow> rb_get ring (u16_of i - 31) = Some (i - 31))
       \<and> test_ring_buffer_from is ring)"

definition test_ring_buffer :: bool where
  "test_ring_buffer \<longleftrightarrow> test_ring_buffer_from [0..<35] (new_ring 32)"

function unlimited_push_from :: "u16 \<Rightarrow> bool \<Rightarrow> u16 ring \<Rightarrow> bool" where
  "unlimited_push_from i wrap ring =
     (let (index, ring') = rb_push ring i;
          oldest = i - 31;
          expected = (if i > 30 \<or> \<not> wrap then Some oldest else None)
      in i = index \<and> rb_get ring' index = Some i \<and> expected = rb_get ring' oldest
       \<and> (if i = u16_MAX then (if wrap then unlimited_push_from 0 False ring' else True)
          else unlimited_push_from (i + 1) wrap ring'))"
  by pat_completeness auto
termination
proof (relation "measure (\<lambda>(i, wrap, _). (if wrap then 65536 else 0) + (65535 - unat i))", goal_cases)
  case (3 i wrap ring)
  then have "unat (i + 1) = unat i + 1" "unat i < 65535"
    using unat_u16_lt [of i] by (auto simp: seq_arith u16_eq_iff_unat)
  then show ?case by simp
qed auto

definition unlimited_push :: bool where
  "unlimited_push \<longleftrightarrow> unlimited_push_from 0 True (new_ring 32)"

definition is_some_at :: "unit ring \<Rightarrow> u16 \<Rightarrow> bool" where
  "is_some_at ring i \<longleftrightarrow> rb_get ring i \<noteq> None"

definition test_insert :: bool where
  "test_insert \<longleftrightarrow>
     (let ring = rb_insert (new_ring 32) 1 ()
      in \<not> is_some_at ring 0 \<and> is_some_at ring 1 \<and> \<not> is_some_at ring 2
       \<and> (let (index, ring) = rb_push ring ()
          in index = 2
           \<and> (let (index, ring) = rb_push ring ()
              in index = 3
               \<and> (let ring = rb_insert ring 34 ()
                  in list_all (\<lambda>i. is_some_at ring i = (i = 34 \<or> i = 3)) (map word_of_nat [0..<64])
                   \<and> (let ring = fold (\<lambda>i ring. rb_insert ring i ()) (wrapping_range (u16_MAX - 50) 0) ring
                      in list_all (\<lambda>i. is_some_at ring i = (u16_MAX - 31 \<le> i)) (wrapping_range (u16_MAX - 50) 0)
                       \<and> \<not> is_some_at ring 0 \<and> \<not> is_some_at ring 1)))))"

definition check_items :: "unit ring \<Rightarrow> (u16 \<times> bool) list \<Rightarrow> bool" where
  "check_items ring indices \<longleftrightarrow> list_all (\<lambda>(i, is_some). is_some_at ring i = is_some) indices"

definition check_item_range :: "unit ring \<Rightarrow> u16 \<times> u16 \<Rightarrow> (unit option \<Rightarrow> bool) \<Rightarrow> bool" where
  "check_item_range ring bounds check \<longleftrightarrow>
     list_all (\<lambda>i. check (rb_get ring i)) (wrapping_range (fst bounds) (snd bounds))"

definition test_insert2 :: bool where
  "test_insert2 \<longleftrightarrow>
     (let is_none = (\<lambda>x. x = None); ring = new_ring 4
      in check_item_range ring (0, 8) is_none
       \<and> (let ring = rb_insert ring 2 ()
          in check_item_range ring (0, 2) is_none \<and> check_items ring [(2, True)]
           \<and> check_item_range ring (3, 8) is_none
       \<and> (let ring = rb_insert ring 4 ()
          in check_item_range ring (0, 2) is_none \<and> check_items ring [(2, True), (3, False), (4, True)]
           \<and> check_item_range ring (5, 8) is_none
       \<and> (let ring = rb_insert ring 1 ()
          in check_items ring [(0, False), (1, True), (2, True), (3, False), (4, True)]
           \<and> check_item_range ring (5, 8) is_none
       \<and> (let ring = rb_insert ring 0 ()
          in check_items ring [(0, True)] \<and> check_item_range ring (1, 8) is_none
       \<and> (let ring = rb_insert ring 5 ()
          in check_item_range ring (0, 5) is_none \<and> check_items ring [(5, True)]
           \<and> check_item_range ring (6, 8) is_none
       \<and> (let ring = rb_insert ring 7 ()
          in check_item_range ring (0, 5) is_none
           \<and> check_items ring [(5, True), (6, False), (7, True), (8, False)]
       \<and> (let ring = rb_insert ring 3 ()
          in check_item_range ring (0, 3) is_none \<and> check_items ring [(3, True)]
           \<and> check_item_range ring (4, 8) is_none
       \<and> (let ring = rb_insert ring 0 ()
          in check_items ring [(0, True), (1, False), (2, False), (3, True)]
           \<and> check_item_range ring (4, 8) is_none)))))))))"

text \<open>Pushes with the number each is expected to get.\<close>

fun push_each :: "u16 list \<Rightarrow> u16 ring \<Rightarrow> bool \<times> u16 ring" where
  "push_each [] ring = (True, ring)"
| "push_each (i # is) ring =
     (let (index, ring) = rb_push ring i; (ok, ring) = push_each is ring in (index = i \<and> ok, ring))"

definition test_iterate :: bool where
  "test_iterate \<longleftrightarrow>
     (let (ok, ring) = push_each [0, 1] (new_ring 32); iter = rb_iter ring;
          (item0, iter0) = iter_next iter; (item1, iter1) = iter_next iter0
      in ok \<and> rb_len ring = 2 \<and> size_hint iter = (2, Some 2) \<and> item0 = Some (0, 0)
       \<and> size_hint iter0 = (0, Some 1) \<and> item1 = Some (1, 1) \<and> size_hint iter1 = (0, Some 0)
       \<and> fst (iter_next iter1) = None)"

text \<open>
  The loops over an iterator; \<open>next\<close> is that of \<open>Iter\<close> or \<open>IterMut\<close>. The hint is asked for before
  an item in the first test and after it in the second.
\<close>

fun hints_before ::
  "(u16 rb_iter \<Rightarrow> ((u16 \<times> u16) option \<times> u16 rb_iter) option) \<Rightarrow> nat list \<Rightarrow> u16 rb_iter \<Rightarrow> bool"
where
  "hints_before next [] iter = (map_option fst (next iter) = Some None)"
| "hints_before next (i # is) iter =
     (size_hint iter = (32 - i, Some (32 - i))
      \<and> (case next iter of
           None \<Rightarrow> False
         | Some (item, iter) \<Rightarrow> item = Some (u16_of i + 1, u16_of i + 1) \<and> hints_before next is iter))"

fun hints_after ::
  "(u16 rb_iter \<Rightarrow> ((u16 \<times> u16) option \<times> u16 rb_iter) option) \<Rightarrow> nat list \<Rightarrow> u16 rb_iter \<Rightarrow> bool"
where
  "hints_after next [] iter = (map_option fst (next iter) = Some None)"
| "hints_after next (i # is) iter =
     (case next iter of
        None \<Rightarrow> False
      | Some (item, iter) \<Rightarrow> item = Some (u16_of i + 5, u16_of i + 5)
          \<and> size_hint iter = (23 - i, Some (27 - i)) \<and> hints_after next is iter)"

definition test_iter_size_hint :: bool where
  "test_iter_size_hint \<longleftrightarrow>
     (let (ok, ring) = push_each (map u16_of [0..<33]) (new_ring 32)
      in ok \<and> rb_len ring = 32 \<and> hints_before (\<lambda>it. Some (iter_next it)) [0..<32] (rb_iter ring))"

definition test_iter_size_hint2 :: bool where
  "test_iter_size_hint2 \<longleftrightarrow>
     (let ring = fold (\<lambda>i ring. rb_insert ring i i) (map u16_of [5..<33]) (new_ring 32)
      in rb_len ring = 28 \<and> hints_after (\<lambda>it. Some (iter_next it)) [0..<28] (rb_iter ring))"

definition test_iter_mut_size_hint :: bool where
  "test_iter_mut_size_hint \<longleftrightarrow>
     (let (ok, ring) = push_each (map u16_of [0..<33]) (new_ring 32)
      in ok \<and> rb_len ring = 32 \<and> hints_before (rb_iter_mut_next True) [0..<32] (rb_iter ring))"

definition test_iter_mut_size_hint2 :: bool where
  "test_iter_mut_size_hint2 \<longleftrightarrow>
     (let ring = fold (\<lambda>i ring. rb_insert ring i i) (map u16_of [5..<33]) (new_ring 32)
      in rb_len ring = 28 \<and> hints_after (rb_iter_mut_next True) [0..<28] (rb_iter ring))"

fun counts_from :: "u16 \<Rightarrow> u16 list \<Rightarrow> bool" where
  "counts_from i [] = True"
| "counts_from i (item # rest) = (item = i \<and> counts_from (i + 1) rest)"

definition test_iterate_many :: bool where
  "test_iterate_many \<longleftrightarrow>
     (let (_, ring) = push_each (map u16_of [0..<33]) (new_ring 32) in counts_from 1 (rb_values ring))"

definition test_iterate_values :: bool where
  "test_iterate_values \<longleftrightarrow>
     (let (_, ring) = push_each [0, 1] (new_ring 32);
          (item0, values0) = values_next (rb_iter ring); (item1, values1) = values_next values0
      in item0 = Some 0 \<and> item1 = Some 1 \<and> fst (values_next values1) = None)"

fun expect_values :: "u16 list \<Rightarrow> u16 rb_iter \<Rightarrow> bool" where
  "expect_values [] values = (map_option fst (rb_values_mut_next True values) = Some None)"
| "expect_values (x # xs) values =
     (case rb_values_mut_next True values of
        None \<Rightarrow> False
      | Some (item, values) \<Rightarrow> item = Some x \<and> expect_values xs values)"

definition test_iterate_values_mut :: bool where
  "test_iterate_values_mut \<longleftrightarrow>
     (let (_, ring) = push_each [0, 1] (new_ring 32) in expect_values [0, 1] (rb_iter ring))"

fun expect_keys :: "u16 list \<Rightarrow> 'a rb_iter \<Rightarrow> bool" where
  "expect_keys [] iter = (fst (keys_next iter) = None)"
| "expect_keys (k # ks) iter = (let (key, iter) = keys_next iter in key = Some k \<and> expect_keys ks iter)"

definition test_iterate_keys :: bool where
  "test_iterate_keys \<longleftrightarrow>
     (let push = (\<lambda>ring. snd (rb_push ring ()));
          ring = push (push (new_ring 32))
      in expect_keys [0, 1] (rb_iter ring)
       \<and> (let ring = push (rb_insert ring u16_MAX ())
          in expect_keys [u16_MAX, 0, 1, 2] (rb_iter ring)))"

fun will_not_override :: "nat \<Rightarrow> unit ring \<Rightarrow> bool" where
  "will_not_override 0 ring = rb_push_will_override ring"
| "will_not_override (Suc n) ring =
     (\<not> rb_push_will_override ring \<and> will_not_override n (snd (rb_push ring ())))"

definition test_insert_will_override :: bool where
  "test_insert_will_override \<longleftrightarrow> will_not_override 32 (new_ring 32)"

fun lens_from :: "nat list \<Rightarrow> unit ring \<Rightarrow> bool \<times> unit ring" where
  "lens_from [] ring = (True, ring)"
| "lens_from (i # is) ring =
     (let (ok, ring') = lens_from is (snd (rb_push ring ())) in (rb_len ring = i \<and> ok, ring'))"

definition test_len :: bool where
  "test_len \<longleftrightarrow>
     (let ring = new_ring 32; (ok, ring0) = lens_from [0..<32] ring;
          ring1 = snd (rb_push ring0 ());
          ring2 = snd (rb_take ring1 0);
          ring3 = snd (rb_take ring2 1)
      in rb_is_empty ring \<and> ok \<and> rb_len ring0 = 32 \<and> rb_len ring1 = 32 \<and> rb_len ring2 = 32 \<and> rb_len ring3 = 31)"

definition retain_all :: "(u16 \<Rightarrow> bool) \<Rightarrow> nat ring \<Rightarrow> nat ring" where
  "retain_all f ring = (case rb_retain (\<lambda>id item s. Some (f id, item, s)) ring () of Some (ring, _) \<Rightarrow> ring)"

fun expect_items :: "nat list \<Rightarrow> nat rb_iter \<Rightarrow> bool" where
  "expect_items [] iter = (fst (values_next iter) = None)"
| "expect_items (x # xs) iter = (let (item, iter) = values_next iter in item = Some x \<and> expect_items xs iter)"

definition test_retain :: bool where
  "test_retain \<longleftrightarrow>
     (let push_all = fold (\<lambda>i ring. snd (rb_push ring i));
          ring0 = push_all [0..<35] (new_ring 32);
          ring1 = retain_all (\<lambda>_. True) ring0;
          ring2 = retain_all (\<lambda>_. False) ring1;
          ring3 = push_all [0..<32] ring2;
          ring4 = retain_all (\<lambda>id. id > 64) ring3
      in rb_len ring0 = 32 \<and> rb_len ring1 = 32 \<and> expect_items (map (\<lambda>i. i + 3) [0..<32]) (rb_iter ring1)
       \<and> rb_len ring2 = 0 \<and> rb_is_empty ring2 \<and> rb_len ring3 = 32 \<and> rb_len ring4 = 2
       \<and> expect_items [30..<32] (rb_iter ring4))"

definition test_wrapping_gt :: bool where
  "test_wrapping_gt \<longleftrightarrow>
     wrapping_gt 10 2 32 \<and> \<not> wrapping_gt 10102 12042 32 \<and> wrapping_gt 12042 10102 32
   \<and> \<not> wrapping_gt u16_MAX 2 32 \<and> wrapping_gt 30 u16_MAX 32 \<and> wrapping_gt 31 u16_MAX 32
   \<and> \<not> wrapping_gt 32 u16_MAX 32 \<and> \<not> wrapping_gt (65535 - 31) 0 32"

section \<open>Running concrete rings\<close>

text \<open>
  What each operation makes of a ring given by its newest number and its list of items, as
  rewrite rules; \<open>run\<close> is the bundle that evaluates a test.
\<close>

abbreviation concrete :: "u16 \<Rightarrow> 'a option list \<Rightarrow> 'a ring" where
  "concrete w xs \<equiv> \<lparr>newest = w, items = xs\<rparr>"

lemma new_ring_32: "new_ring 32 = concrete u16_MAX (replicate 32 None)"
proof -
  have "(32 :: nat) dvd 65536" by simp
  then have "(rb_new 32 :: 'a ring option) = Some (concrete u16_MAX (replicate 32 None))"
    by (simp only: rb_new_Some_iff) simp
  then show ?thesis by (simp only: new_ring_def option.sel)
qed

lemma new_ring_4: "new_ring 4 = concrete u16_MAX (replicate 4 None)"
proof -
  have "(4 :: nat) dvd 65536" by simp
  then have "(rb_new 4 :: 'a ring option) = Some (concrete u16_MAX (replicate 4 None))"
    by (simp only: rb_new_Some_iff) simp
  then show ?thesis by (simp only: new_ring_def option.sel)
qed

lemma replicate_32:
  "replicate 32 x = [x, x, x, x, x, x, x, x, x, x, x, x, x, x, x, x, x, x, x, x, x, x, x, x, x, x, x, x, x, x, x, x]"
  "replicate 4 x = [x, x, x, x]"
  by (simp_all add: numeral_eq_Suc)

lemma list_update_numeral: "(x # xs)[numeral v := y] = x # xs[pred_numeral v := y]"
  by (simp add: numeral_eq_Suc)

lemma upt_0_numeral: "[0..<numeral n] = 0 # [Suc 0..<numeral n]"
  by (simp add: upt_rec [of 0])

lemma upt_1_numeral: "[Suc 0..<numeral n] = (if numeral n \<le> (1 :: nat) then [] else Suc 0 # [2..<numeral n])"
  by (subst upt_rec) (simp add: numeral_2_eq_2 del: upt_Suc)

lemma unat_minus: "unat (- x :: u16) = (if x = 0 then 0 else 65536 - unat x)"
  using unat_u16_sub [of 0 x] by (simp add: unat_eq_0)

lemma run_num_items: "num_items (concrete w xs) = length xs"
  by (simp add: num_items_def)

lemma run_push:
  "rb_push (concrete w xs) x = (w + 1, concrete (w + 1) (xs[unat (w + 1) mod length xs := Some x]))"
  by (simp add: rb_push_def num_items_def Let_def)

lemma run_get:
  "rb_get (concrete w xs) i = (if unat (w - i) < length xs then xs ! (unat i mod length xs) else None)"
  by (simp add: rb_get_def num_items_def Let_def)

lemma run_take:
  "rb_take (concrete w xs) i =
     (if unat (w - i) < length xs
      then (xs ! (unat i mod length xs), concrete w (xs[unat i mod length xs := None])) else (None, concrete w xs))"
  by (simp add: rb_take_def num_items_def Let_def)

text \<open>\<open>insert\<close> into a ring of the size \<open>n\<close> known to be valid.\<close>

lemma run_insert_size:
  assumes "n dvd 65536" "0 < n" "n \<le> 8192" "length xs = n"
  shows "rb_insert (concrete w xs) i x =
    (if unat (w - i) < n then concrete w (xs[unat i mod n := Some x])
     else if unat (i - w) < n
     then concrete i ((items (rb_purge (wrapping_range (w - (word_of_nat n - 1)) (i - (word_of_nat n - 1)))
            (concrete w xs)))[unat i mod n := Some x])
     else concrete i ((replicate n None)[unat i mod n := Some x]))"
proof -
  have "rb_wf (concrete w xs)" using assms by (simp add: rb_wf_def num_items_def)
  then show ?thesis using assms(4)
    by (simp add: rb_insert_cases Let_def ahead_def u16_of_def num_items_def)
qed

lemma dvd_65536: "(32 :: nat) dvd 65536" "(4 :: nat) dvd 65536"
  by simp_all

lemmas run_insert =
  run_insert_size [OF dvd_65536(1), simplified] run_insert_size [OF dvd_65536(2), simplified]

lemma run_override: "rb_push_will_override (concrete w xs) = (xs ! (unat (w + 1) mod length xs) \<noteq> None)"
  by (simp add: rb_push_will_override_def num_items_def Let_def)

lemma run_len: "rb_len (concrete w xs) = length (filter (\<lambda>i. i \<noteq> None) xs)"
  by (simp add: rb_len_def)

lemma run_retain:
  "rb_retain f (concrete w xs) s =
     retain_loop f (wrapping_range (w - (word_of_nat (length xs) - 1)) (w + 1)) (concrete w xs) s"
  by (simp add: rb_retain_def u16_of_def num_items_def)

lemma run_range: "wrapping_range a b = map (\<lambda>i. a + word_of_nat i) [0..<unat (b - a)]"
  by (simp add: wrapping_range_def)

abbreviation iter_at :: "u16 \<Rightarrow> u16 \<Rightarrow> 'a option list \<Rightarrow> 'a rb_iter" where
  "iter_at p w xs \<equiv> \<lparr>pos = p, ring_of = concrete w xs\<rparr>"

lemma run_iter: "rb_iter (concrete w xs) = iter_at (w - (word_of_nat (length xs) - 1)) w xs"
  by (simp add: rb_iter_def u16_of_def num_items_def)

lemma run_next:
  "iter_next (iter_at p w xs) =
     (if p = w + 1 then (None, iter_at p w xs)
      else case rb_get (concrete w xs) p of
             Some item \<Rightarrow> (Some (p, item), iter_at (p + 1) w xs)
           | None \<Rightarrow> iter_next (iter_at (p + 1) w xs))"
  by (subst iter_next_unfold) (simp split: option.split)

lemma run_values_next: "values_next (iter_at p w xs) = (case iter_next (iter_at p w xs) of (x, it) \<Rightarrow> (map_option snd x, it))"
  by (simp add: values_next_def)

lemma run_keys_next: "keys_next (iter_at p w xs) = (case iter_next (iter_at p w xs) of (x, it) \<Rightarrow> (map_option fst x, it))"
  by (simp add: keys_next_def)

lemma run_mut_next:
  "rb_iter_mut_next True (iter_at p w xs) =
     (if w + 1 - p \<le> word_of_nat (length xs) then Some (iter_next (iter_at p w xs)) else None)"
  by (simp add: rb_iter_mut_next_def iter_mut_assertion_def u16_of_def num_items_def)

lemma run_values_mut_next:
  "rb_values_mut_next True (iter_at p w xs) =
     (if w + 1 - p \<le> word_of_nat (length xs) then Some (values_next (iter_at p w xs)) else None)"
  by (simp add: rb_values_mut_next_def iter_mut_assertion_def u16_of_def num_items_def)

lemma run_collect:
  "iter_collect (iter_at p w xs) =
     (case iter_next (iter_at p w xs) of (None, _) \<Rightarrow> [] | (Some x, it) \<Rightarrow> x # iter_collect it)"
  by (subst iter_collect.simps) (rule refl)

lemma run_values: "rb_values (concrete w xs) = map snd (iter_collect (rb_iter (concrete w xs)))"
  by (simp add: rb_values_def rb_entries_def)

lemma run_size_hint:
  "size_hint (iter_at p w xs) =
     (let len = rb_len (concrete w xs)
      in if len = 0 \<or> wrapping_gt (p - 1) w (word_of_nat (length xs)) then (0, Some 0)
         else (let unvisited = unat (w - p + 1) in (len - (length xs - unvisited), Some (min unvisited len))))"
  unfolding size_hint_def by (simp only: Let_def u16_of_def num_items_def ring.simps rb_iter.simps)

lemma will_not_override_numeral:
  "will_not_override (numeral n) ring =
     (\<not> rb_push_will_override ring \<and> will_not_override (pred_numeral n) (snd (rb_push ring ())))"
  by (simp add: numeral_eq_Suc)

lemmas run = unat_minus run_num_items will_not_override_numeral new_ring_32 new_ring_4 replicate_32
  list_update_numeral upt_0_numeral upt_1_numeral run_push run_get run_take
  run_insert run_override run_len run_retain run_range run_iter run_next run_values_next run_keys_next run_mut_next
  run_values_mut_next run_collect run_values run_size_hint wrapping_gt_def u16_of_def is_some_at_def
  rb_is_empty_def Let_def


section \<open>The loop of the unlimited pushes\<close>

text \<open>Before the push of \<open>i\<close> the ring holds the last \<open>n\<close> numbers before \<open>i\<close>, each under itself.\<close>

declare unlimited_push_from.simps [simp del]

definition holds_last :: "nat \<Rightarrow> u16 \<Rightarrow> u16 ring \<Rightarrow> bool" where
 "holds_last n i ring \<longleftrightarrow> rb_wf ring \<and> num_items ring = 32 \<and> newest ring + 1 = i
   \<and> (\<forall>j. rb_get ring j = (if ahead (newest ring) j < n then Some j else None))"

lemma holds_last_push:
  assumes "holds_last n i ring" "n \<le> 32"
  shows "fst (rb_push ring i) = i" "holds_last (min 32 (Suc n)) (i + 1) (snd (rb_push ring i))"
proof -
  have ring: "rb_wf ring" "num_items ring = 32" "newest ring + 1 = i"
    "rb_get ring j = (if ahead (newest ring) j < n then Some j else None)" for j
    using assms(1) by (auto simp: holds_last_def)
  show "fst (rb_push ring i) = i" by (simp add: ring)
  have "ahead i j = (if j = i then 0 else Suc (ahead (newest ring) j))" for j
    using ahead_Suc [of j "newest ring"] by (auto simp: ring)
  then show "holds_last (min 32 (Suc n)) (i + 1) (snd (rb_push ring i))"
    using assms(2) by (auto simp: holds_last_def ring rb_get_push)
qed

lemma holds_last_get: "holds_last n i ring \<Longrightarrow> rb_get ring j = (if ahead (i - 1) j < n then Some j else None)"
  by (auto simp: holds_last_def)


lemma unlimited_push_from_step:
  assumes "rb_push ring i = (i, ring')" "rb_get ring' i = Some i"
    "rb_get ring' (i - 31) = (if i > 30 \<or> \<not> wrap then Some (i - 31) else None)"
  shows "unlimited_push_from i wrap ring \<longleftrightarrow>
    (if i = u16_MAX then (if wrap then unlimited_push_from 0 False ring' else True)
     else unlimited_push_from (i + 1) wrap ring')"
  using assms(2,3) by (subst unlimited_push_from.simps) (simp only: assms(1) Let_def prod.case simp_thms)

lemma max_word_wrap: "(65536 :: u16) = 0"
  by (simp add: word_eq_iff_unsigned)

lemma unlimited_push_from_holds:
  "holds_last (if wrap then min 32 (unat i) else 32) i ring \<Longrightarrow> unlimited_push_from i wrap ring"
proof (induction i wrap ring rule: unlimited_push_from.induct)
  case (1 i wrap ring)
  let ?n = "if wrap then min 32 (unat i) else 32"
  have "?n \<le> 32" by simp
  note ring = holds_last_push [OF "1.prems" this]
  obtain ring' where push: "rb_push ring i = (i, ring')" using ring(1) by (cases "rb_push ring i") auto
  have last: "holds_last (min 32 (Suc ?n)) (i + 1) ring'" using ring(2) by (simp only: push snd_conv)
  have get: "rb_get ring' j = (if ahead i j < min 32 (Suc ?n) then Some j else None)" for j
    using holds_last_get [OF last, of j] by simp
  have "rb_get ring' (i - 31) = (if i > 30 \<or> \<not> wrap then Some (i - 31) else None)"
    by (auto simp: get word_less_nat_alt)
  note step = unlimited_push_from_step [OF push _ this]
  have "unlimited_push_from (i + 1) wrap ring'" if "i \<noteq> u16_MAX"
  proof -
    have "unat (i + 1) = Suc (unat i)"
      using that unat_u16_lt [of i] by (auto simp: seq_arith u16_eq_iff_unat unat_minus)
    then have "min 32 (Suc ?n) = (if wrap then min 32 (unat (i + 1)) else 32)" by (simp add: min_def)
    then show ?thesis using "1.IH"(2) [OF push [symmetric] refl refl refl that] last by simp
  qed
  moreover have "unlimited_push_from 0 False ring'" if "i = u16_MAX" wrap
    using "1.IH"(1) [OF push [symmetric] refl refl refl that] last that
    by (simp add: unat_minus max_word_wrap)
  ultimately show ?case using get [of i] by (simp add: step)
qed


lemma rb_new_32: "rb_new 32 = Some (new_ring 32)"
proof -
  have "(32 :: nat) dvd 65536" by simp
  then show ?thesis by (simp only: rb_new_Some_iff new_ring_32) simp
qed

lemma unlimited_push: unlimited_push
proof -
  have "holds_last 0 0 (new_ring 32)"
    unfolding holds_last_def
    using rb_wf_new [OF rb_new_32 [where 'a = u16]] rb_get_new [OF rb_new_32 [where 'a = u16]] by (simp add: new_ring_32 run_num_items)
  then show ?thesis using unlimited_push_from_holds [of True 0] by (simp add: unlimited_push_def)
qed


section \<open>The inserts far ahead and around the end\<close>

text \<open>An insert of the next number is a push, so a run of inserts is a run of pushes.\<close>

lemma slot_32: "unat (v + 65504 :: u16) mod 32 = unat v mod 32"
proof -
  have "unat (v + 65504 :: u16) mod 32 = (unat v + 65504) mod 32"
    by (simp add: unat_word_ariths mod_mod_cancel del: unat_plus_if')
  also have "\<dots> = (unat v + 2047 * 32) mod 32" by simp
  finally show ?thesis by (simp only: mod_mult_self1)
qed

lemma run_insert_next:
  assumes "length xs = 32"
  shows "rb_insert (concrete w xs) (w + 1) x = snd (rb_push (concrete w xs) x)"
proof -
  have "w - 31 = (w + 1) + 65504" by simp
  then have "unat (w - 31) mod 32 = unat (w + 1) mod 32" by (simp only: slot_32)
  then show ?thesis
    using assms by (simp add: run_insert run_range unat_minus rb_purge_def run_push run_take num_items_def Let_def)
qed

lemma fold_insert_next:
  assumes "length (items ring) = 32"
  shows "fold (\<lambda>i ring. rb_insert ring i x) (map (\<lambda>i. newest ring + 1 + word_of_nat i) [0..<n]) ring
    = ((\<lambda>ring. snd (rb_push ring x)) ^^ n) ring" (is "?ins n = (?push ^^ n) ring")
proof -
  have "?ins n = (?push ^^ n) ring \<and> newest ((?push ^^ n) ring) = newest ring + word_of_nat n
    \<and> length (items ((?push ^^ n) ring)) = 32"
  proof (induction n)
    case (Suc n)
    obtain w xs where "(?push ^^ n) ring = concrete w xs" by (metis ring.surjective unit.exhaust)
    then show ?case using Suc run_insert_next [of xs w x] by (simp add: run_push ac_simps)
  qed (use assms in simp)
  then show ?thesis by simp
qed

lemma funpow_numeral: "(f ^^ numeral k) x = (f ^^ pred_numeral k) (f x)"
  by (simp add: numeral_eq_Suc funpow_swap1)

lemma fill_32:
  "((\<lambda>ring. snd (rb_push ring ())) ^^ 50) (concrete 65485 ((replicate 32 None)[13 := Some ()]))
     = concrete 65535 (replicate 32 (Some ()))"
  by (simp add: funpow_numeral run_push replicate_32 list_update_numeral)

definition inserted_34 :: "unit ring" where
 "inserted_34 = concrete 34 ((replicate 32 None)[2 := Some (), 3 := Some ()])"

lemma inserted_34_reached: "rb_insert (snd (rb_push (snd (rb_push (rb_insert (new_ring 32) 1 ()) ())) ())) 34 () = inserted_34"
  by (simp add: run inserted_34_def cong: let_weak_cong)

lemma inserted_34_items: "list_all (\<lambda>i. is_some_at inserted_34 i = (i = 34 \<or> i = 3)) (map word_of_nat [0..<64])"
  by (simp add: run inserted_34_def cong: let_weak_cong)

lemma full_ring_reached: "fold (\<lambda>i ring. rb_insert ring i ()) (wrapping_range (u16_MAX - 50) 0) inserted_34 =
  concrete 65535 (replicate 32 (Some ()))"
proof -
  have "wrapping_range (u16_MAX - 50) 0 = 65485 # map (\<lambda>i. 65485 + 1 + word_of_nat i) [0..<50]"
    by (simp add: run)
  moreover have "rb_insert inserted_34 65485 () = concrete 65485 ((replicate 32 None)[13 := Some ()])"
    by (simp add: inserted_34_def run_insert unat_minus)
  moreover note fold_insert_next [of "concrete 65485 ((replicate 32 None)[13 := Some ()])" "()" 50]
   fill_32
  ultimately show ?thesis by simp
qed

lemma full_ring_items: "list_all (\<lambda>i. is_some_at (concrete 65535 (replicate 32 (Some ()))) i = (u16_MAX - 31 \<le> i))
   (wrapping_range (u16_MAX - 50) 0)"
  by (simp add: is_some_at_def run_get run_range upt_0_numeral upt_1_numeral unat_minus)
lemma full_ring_0_1: "\<not> is_some_at (concrete 65535 (replicate 32 (Some ()))) 0" "\<not> is_some_at (concrete 65535 (replicate 32 (Some ()))) 1"
 by (simp_all add: run)
lemma inserted_1: "rb_insert (new_ring 32) 1 () = concrete 1 ((replicate 32 None)[1 := Some ()])"
  by (simp add: run)

lemma test_insert: test_insert
proof -
  show ?thesis
  unfolding test_insert_def Let_def
  using inserted_34_reached inserted_34_items full_ring_reached full_ring_items full_ring_0_1 by (simp add: inserted_1 run_push is_some_at_def run_get unat_minus)
qed

section \<open>The other tests\<close>

lemma test_ring_buffer: test_ring_buffer
  by (simp add: test_ring_buffer_def run cong: let_weak_cong)

lemma test_insert2: test_insert2
  by (simp add: test_insert2_def check_items_def check_item_range_def run cong: let_weak_cong)

lemma test_iterate: test_iterate
  by (simp add: test_iterate_def run cong: let_weak_cong)

lemma test_iter_size_hint: test_iter_size_hint
  by (simp add: test_iter_size_hint_def run cong: let_weak_cong)

lemma test_iter_size_hint2: test_iter_size_hint2
  by (simp add: test_iter_size_hint2_def run cong: let_weak_cong)

lemma test_iter_mut_size_hint: test_iter_mut_size_hint
  by (simp add: test_iter_mut_size_hint_def run cong: let_weak_cong)

lemma test_iter_mut_size_hint2: test_iter_mut_size_hint2
  by (simp add: test_iter_mut_size_hint2_def run cong: let_weak_cong)

lemma test_iterate_many: test_iterate_many
  by (simp add: test_iterate_many_def run cong: let_weak_cong)

lemma test_iterate_values: test_iterate_values
  by (simp add: test_iterate_values_def run cong: let_weak_cong)

lemma test_iterate_values_mut: test_iterate_values_mut
  by (simp add: test_iterate_values_mut_def run cong: let_weak_cong)

lemma test_iterate_keys: test_iterate_keys
  by (simp add: test_iterate_keys_def run cong: let_weak_cong)

lemma test_insert_will_override: test_insert_will_override
  by (simp add: test_insert_will_override_def run cong: let_weak_cong)

lemma test_len: test_len
  by (simp add: test_len_def run cong: let_weak_cong)

lemma test_retain: test_retain
  by (simp add: test_retain_def retain_all_def run cong: let_weak_cong)

lemma test_wrapping_gt: test_wrapping_gt
  by (simp add: test_wrapping_gt_def run cong: let_weak_cong)

end
