(* ===== verification/CodecTests.thy ===== *)
theory CodecTests
  imports CodecSpec Ack RingTests
begin

text \<open>
  The unit tests of \<open>mini_udp/src/lib.rs\<close> and \<open>packet.rs\<close>, run on the model: every type they derive is the
  implementation the macro gives for its fields, every assertion on a length is evaluated, and
  a test of a round trip writes the value into a zeroed buffer of \<open>MAX_BYTE_LEN\<close> bytes and
  reads it back. Floats are given by their bits.
\<close>

section \<open>Types and values\<close>

abbreviation struct_of :: "field_value list \<Rightarrow> rval byte_repr" where
  "struct_of \<equiv> struct_repr impl_of"

abbreviation enum_of :: "field_value list list \<Rightarrow> rval byte_repr" where
  "enum_of \<equiv> enum_repr impl_of"

text \<open>The strings, vectors and options that \<open>from_type\<close> makes of the types of the tests.\<close>

abbreviation string_field :: field_value where "string_field \<equiv> VString 1020 False"
abbreviation str_field :: field_value where "str_field \<equiv> VString 1020 True"
abbreviation vec_field :: "field_value \<Rightarrow> field_value" where "vec_field v \<equiv> VVec v 1000"

text \<open>A negative number of \<open>k\<close> bits, and a string literal of ASCII characters.\<close>

abbreviation signed_bits :: "nat \<Rightarrow> int \<Rightarrow> rval" where
  "signed_bits k z \<equiv> RBits (nat (z mod 2 ^ k))"

definition ascii :: "string \<Rightarrow> rval" where
  "ascii s = RStr (map (\<lambda>c. word_of_nat (of_char c)) s)"

section \<open>The tests of the lengths\<close>

definition lengths_are :: "rval byte_repr \<Rightarrow> nat \<Rightarrow> nat \<Rightarrow> (rval \<times> nat) list \<Rightarrow> bool" where
  "lengths_are d least greatest cases \<longleftrightarrow>
     min_byte_len d = least \<and> max_byte_len d = greatest \<and> list_all (\<lambda>(x, n). byte_len d x = n) cases"

definition AA :: "rval byte_repr" where "AA = struct_of []"
definition AD :: "rval byte_repr" where "AD = enum_of [[]]"
definition BA :: "rval byte_repr" where "BA = struct_of [VU8]"
definition BC :: "rval byte_repr" where "BC = enum_of [[VU8]]"
definition CA :: "rval byte_repr" where "CA = struct_of [VF32, VBool, VU128]"
definition CB :: "rval byte_repr" where "CB = struct_of [VI64, VI8]"
definition CC :: "rval byte_repr" where "CC = enum_of [[VU32], [VBool, VU16], [VI128]]"
definition DA :: "rval byte_repr" where "DA = struct_of [VDelegated CC]"
definition DB :: "rval byte_repr" where "DB = struct_of [VBool, VI32, VDelegated DA]"
definition DC :: "rval byte_repr" where "DC = enum_of [[], [VU16], [VDelegated CB]]"
definition DD :: "rval byte_repr" where
  "DD = enum_of [[VU64, VBool, VU8], [VDelegated CB], [VDelegated BC, VI8]]"
definition DE :: "rval byte_repr" where
  "DE = enum_of [[VBool, VDelegated BA, VU16], [VDelegated DB, VU8], [VBool, VI8]]"
definition DF :: "rval byte_repr" where
  "DF = enum_of [[VBool, VDelegated BA, VU16], [VDelegated DB, VU8], [VDelegated CA, VI16, VDelegated BA]]"

text \<open>\<open>AB\<close> and \<open>AC\<close> have the fields of \<open>AA\<close>, and \<open>BB\<close> those of \<open>BA\<close>.\<close>

definition lengths_A :: bool where
  "lengths_A \<longleftrightarrow> lengths_are AA 0 0 [(RTuple [], 0)] \<and> lengths_are AD 0 0 [(REnum 0 [], 0)]"

definition lengths_B :: bool where
  "lengths_B \<longleftrightarrow>
     lengths_are BA 1 1 (map (\<lambda>n. (RTuple [RBits n], 1)) [0, 1, 42, 127, 128, 255])
   \<and> lengths_are BC 1 1 (map (\<lambda>n. (REnum 0 [RBits n], 1)) [0, 1, 17, 99, 255])"

definition lengths_CA :: bool where
  "lengths_CA \<longleftrightarrow>
     lengths_are CA 21 21
       [(RTuple [RBits 0, RBool False, RBits 0], 21), (RTuple [RBits 0x3F800000, RBool True, RBits 1], 21),
        (RTuple [RBits 0xC0600000, RBool False, RBits 42], 21),
        (RTuple [RBits 0x40E80000, RBool True, RBits 123456], 21),
        (RTuple [RBits 0x7F800000, RBool False, RBits (2 ^ 128 - 1)], 21)]"

definition lengths_CB :: bool where
  "lengths_CB \<longleftrightarrow>
     lengths_are CB 9 9
       (map (\<lambda>(m, n). (RTuple [signed_bits 64 m, signed_bits 8 n], 9))
         [(0, 0), (1, 1), (-1, -1), (- (2 ^ 63), -128), (2 ^ 63 - 1, 127)])"

definition lengths_CC :: bool where
  "lengths_CC \<longleftrightarrow>
     lengths_are CC 4 17
       [(REnum 0 [RBits 0], 5), (REnum 0 [RBits (2 ^ 32 - 1)], 5), (REnum 1 [RBool False, RBits 0], 4),
        (REnum 1 [RBool True, RBits 65535], 4), (REnum 2 [signed_bits 128 (- (2 ^ 127))], 17)]"

definition lengths_DA :: bool where
  "lengths_DA \<longleftrightarrow>
     lengths_are DA 4 17
       [(RTuple [REnum 0 [RBits 7]], 5), (RTuple [REnum 1 [RBool False, RBits 99]], 4),
        (RTuple [REnum 1 [RBool True, RBits 1234]], 4), (RTuple [REnum 2 [RBits 0]], 17),
        (RTuple [REnum 2 [RBits (2 ^ 127 - 1)]], 17)]"

definition lengths_DB :: bool where
  "lengths_DB \<longleftrightarrow>
     lengths_are DB 9 22
       [(RTuple [RBool False, RBits 0, RTuple [REnum 0 [RBits 0]]], 10),
        (RTuple [RBool True, RBits 1, RTuple [REnum 0 [RBits 1]]], 10),
        (RTuple [RBool False, signed_bits 32 (-1), RTuple [REnum 1 [RBool True, RBits 42]]], 9),
        (RTuple [RBool True, signed_bits 32 (- (2 ^ 31)), RTuple [REnum 2 [RBits 5]]], 22),
        (RTuple [RBool False, RBits (2 ^ 31 - 1), RTuple [REnum 2 [RBits (2 ^ 127 - 1)]]], 22)]"

definition lengths_DC :: bool where
  "lengths_DC \<longleftrightarrow>
     lengths_are DC 1 10
       [(REnum 0 [], 1), (REnum 1 [RBits 0], 3), (REnum 1 [RBits 65535], 3),
        (REnum 2 [RTuple [RBits 0, RBits 0]], 10),
        (REnum 2 [RTuple [signed_bits 64 (- (2 ^ 63)), RBits 127]], 10)]"

definition lengths_DD :: bool where
  "lengths_DD \<longleftrightarrow>
     lengths_are DD 3 11
       [(REnum 0 [RBits 0, RBool False, RBits 0], 11), (REnum 0 [RBits (2 ^ 64 - 1), RBool True, RBits 255], 11),
        (REnum 1 [RTuple [RBits 123, signed_bits 8 (-5)]], 10), (REnum 2 [REnum 0 [RBits 0], RBits 0], 3),
        (REnum 2 [REnum 0 [RBits 255], signed_bits 8 (-128)], 3)]"

definition lengths_DE :: bool where
  "lengths_DE \<longleftrightarrow>
     lengths_are DE 3 24
       [(REnum 0 [RBool False, RTuple [RBits 0], RBits 0], 5),
        (REnum 0 [RBool True, RTuple [RBits 255], RBits 65535], 5),
        (REnum 1 [RTuple [RBool False, RBits 0, RTuple [REnum 0 [RBits 0]]], RBits 0], 12),
        (REnum 1 [RTuple [RBool True, RBits (2 ^ 31 - 1), RTuple [REnum 2 [RBits (2 ^ 127 - 1)]]], RBits 255], 24),
        (REnum 2 [RBool True, signed_bits 8 (-48)], 3)]"

definition lengths_DF :: bool where
  "lengths_DF \<longleftrightarrow>
     lengths_are DF 5 25
       [(REnum 0 [RBool False, RTuple [RBits 0], RBits 0], 5),
        (REnum 0 [RBool True, RTuple [RBits 1], RBits 65535], 5),
        (REnum 1 [RTuple [RBool False, RBits 17, RTuple [REnum 1 [RBool True, RBits 5]]], RBits 9], 11),
        (REnum 1 [RTuple [RBool True, signed_bits 32 (- (2 ^ 31)), RTuple [REnum 2 [signed_bits 128 (- (2 ^ 127))]]],
           RBits 255], 24),
        (REnum 2 [RTuple [RBits 0x40498937, RBool True, RBits 123456789], signed_bits 16 (-12345),
           RTuple [RBits 77]], 25)]"

definition min_max_length_derive :: bool where
  "min_max_length_derive \<longleftrightarrow>
     lengths_A \<and> lengths_B \<and> lengths_CA \<and> lengths_CB \<and> lengths_CC \<and> lengths_DA \<and> lengths_DB
   \<and> lengths_DC \<and> lengths_DD \<and> lengths_DE \<and> lengths_DF"

section \<open>The tests of the round trips\<close>

text \<open>\<open>test_bitrepr_roundtrip!\<close>, which also says that the value has the type it is declared with.\<close>

definition test_bitrepr_roundtrip :: "rval byte_repr \<Rightarrow> rval \<Rightarrow> bool" where
  "test_bitrepr_roundtrip d x \<longleftrightarrow>
     self_type d x
   \<and> (case write_to_bytes d x (replicate (max_byte_len d) 0) of
        Ok buf \<Rightarrow> from_bytes d buf = Ok x
      | _ \<Rightarrow> False)"

definition roundtrips :: "rval byte_repr \<Rightarrow> rval list \<Rightarrow> bool" where
  "roundtrips d xs \<longleftrightarrow> list_all (test_bitrepr_roundtrip d) xs"

text \<open>\<open>A\<close>, \<open>B\<close> and \<open>C\<close> have no fields.\<close>

definition test_struct_roundtrip :: bool where
  "test_struct_roundtrip \<longleftrightarrow>
     roundtrips (struct_of []) [RTuple []]
   \<and> roundtrips (struct_of [VI8]) (map (\<lambda>z. RTuple [signed_bits 8 z]) [0, -128, -1, 127])
   \<and> roundtrips (struct_of [VU8]) [RTuple [RBits 249]]
   \<and> roundtrips (struct_of [VU16, VISize, VU8]) [RTuple [RBits 61008, signed_bits 64 (-90502), RBits 119]]
   \<and> roundtrips (struct_of [VU8, VI128]) [RTuple [RBits 2, RBits 1]]"

definition test_enum_roundtrip :: bool where
  "test_enum_roundtrip \<longleftrightarrow>
     roundtrips (enum_of [[]]) [REnum 0 []]
   \<and> roundtrips (enum_of [[], [], []]) [REnum 1 []]
   \<and> roundtrips (enum_of [[VU8], [VU8, VU64, VF32], [], [VF64, VU8, VF32, VF64]])
       [REnum 0 [RBits 129], REnum 2 [], REnum 1 [RBits 0, RBits 255, RBits 0x4480ED71],
        REnum 3 [RBits 0x7FEFFFFFFFFFFFFF, RBits 4, RBits 0xC83C8483, RBits 0xFFEFFFFFFFFFFFFF]]"

definition test_delegated :: bool where
  "test_delegated \<longleftrightarrow>
     roundtrips (struct_of [VF64, VDelegated (struct_of [VU128])])
       [RTuple [RBits 0xC14261DF2AEB1C43, RTuple [RBits 3908221]]]"

definition test_vector :: bool where
  "test_vector \<longleftrightarrow>
     roundtrips (struct_of [vec_field VU8]) [RTuple [RList [RBits 183, RBits 1, RBits 99, RBits 254]]]
   \<and> roundtrips (struct_of [vec_field VBool, vec_field (VDelegated (struct_of [VF64]))])
       [RTuple
         [RList [RBool True, RBool False, RBool False, RBool False, RBool True, RBool False],
          RList (map (\<lambda>n. RTuple [RBits n])
            [0x47EFFFFFE0000000, 0xFFEFFFFFFFFFFFFF, 0xBF747AE147AE147B, 0x413270523E425AEE])]]"

definition test_array :: bool where
  "test_array \<longleftrightarrow>
     roundtrips (struct_of [VArray VF64 3])
       [RTuple [RList [RBits 0x4095D4CDD2F1A9FC, RBits 0x8000000000000000, RBits 0xC14E98D0AA214270]]]
   \<and> roundtrips (struct_of [VArray VI8 9, VArray (VDelegated (struct_of [VUSize])) 240])
       [RTuple
         [RList (map (signed_bits 8) [-127, 0, 84, -5, 39, 100, -128, 127, -99]),
          RList (replicate 240 (RTuple [RBits (2 ^ 64 - 1)]))]]"

definition test_string :: bool where
  "test_string \<longleftrightarrow> roundtrips (struct_of [string_field]) [RTuple [ascii ''Hello world!'']]"

definition test_cow :: bool where
  "test_cow \<longleftrightarrow>
     roundtrips (struct_of [VCow string_field]) [RTuple [ascii ''What a beautiful day'']]
   \<and> roundtrips (struct_of [VCow str_field])
       [RTuple [RStr [64, 226, 130, 172, 126, 195, 156, 195, 150, 195, 132, 194, 178, 194, 181, 195, 165]]]
   \<and> max_byte_len (struct_of [VCow VU128]) = 16
   \<and> roundtrips (struct_of [VCow VU128]) [RTuple [RBits (2 ^ 128 - 1)]]
   \<and> roundtrips (struct_of [VCow str_field, string_field])
       [RTuple [ascii ''What does the cow say?'', ascii ''MOOOOHHHH!'']]
   \<and> roundtrips (struct_of [string_field, VCow str_field, string_field])
       [RTuple [ascii ''a'', ascii ''b'', ascii ''c'']]"

definition test_option :: bool where
  "test_option \<longleftrightarrow>
     roundtrips (impl_of (VOption string_field)) [ROpt (Some (ascii ''Hello Option!'')), ROpt None]
   \<and> roundtrips (struct_of [VOption VBool]) [RTuple [ROpt (Some (RBool False))], RTuple [ROpt None]]
   \<and> roundtrips
       (struct_of [string_field, VOption string_field, VUSize, VOption (VCow string_field), VBool, string_field])
       [RTuple
         [ascii ''Hello world'', ROpt None, RBits 299, ROpt (Some (ascii ''Do you like cats?'')), RBool True,
          ascii ''I don't know what to write anymore'']]"

text \<open>The buffer is cut to the length of the packet before it is read.\<close>

definition test_packet_byte_repr :: bool where
  "test_packet_byte_repr \<longleftrightarrow>
     (let packet =
        \<lparr>ack = packet_ack_new 0 (new_ring 32 :: bool ring) (new_ring 32 :: packet ring),
         reliable = True, ordered = False,
         messages = [REnum 1 [RBits 12], REnum 1 [RBits 9284], REnum 0 []]\<rparr>;
          d = packet_repr test_message
      in min_byte_len packet_ack_repr = 14 \<and> min_byte_len d = 20 \<and> max_byte_len d = 3020
       \<and> (case write_to_bytes d packet (replicate (max_byte_len d) 0) of
            Ok buf \<Rightarrow> from_bytes d (take (byte_len d packet) buf) = Ok packet
          | _ \<Rightarrow> False))"

section \<open>The lengths come out\<close>

lemma variant_len_small:
  "variant_len (Suc 0) = 0" "variant_len (Suc (Suc 0)) = 1" "variant_len 2 = 1" "variant_len 3 = 1" "variant_len 4 = 1"
  "variant_len (Suc (Suc (Suc 0))) = 1" "variant_len (Suc (Suc (Suc (Suc 0)))) = 1"
  by (simp_all add: variant_len_def variant_bit_len_def ilog2.simps)

lemmas length_defs = lengths_are_def group_len_def group_min_def group_max_def lowest_min_len_def lowest_max_len_def
  variant_len_small

lemma enum_lengths:
  "min_byte_len (enum_repr impl variants) = lowest_min_len impl variants (variant_len (length variants))"
  "max_byte_len (enum_repr impl variants) = lowest_max_len impl variants (variant_len (length variants))"
  "byte_len (enum_repr impl variants) (REnum i xs) =
     group_len impl (variants ! i) xs + variant_len (length variants)"
  by (simp_all add: enum_repr_def Let_def)

lemmas lengths = length_defs struct_repr_simps enum_lengths

lemma test_lengths_A: lengths_A
  by (simp add: lengths_A_def AA_def AD_def lengths)

lemma test_lengths_B: lengths_B
  by (simp add: lengths_B_def BA_def BC_def lengths)

lemma test_lengths_CA: lengths_CA
  by (simp add: lengths_CA_def CA_def lengths)

lemma test_lengths_CB: lengths_CB
  by (simp add: lengths_CB_def CB_def lengths)

lemma test_lengths_CC: lengths_CC
  by (simp add: lengths_CC_def CC_def lengths)

lemma test_lengths_DA: lengths_DA
  by (simp add: lengths_DA_def DA_def CC_def lengths)

lemma test_lengths_DB: lengths_DB
  by (simp add: lengths_DB_def DB_def DA_def CC_def lengths)

lemma test_lengths_DC: lengths_DC
  by (simp add: lengths_DC_def DC_def CB_def lengths)

lemma test_lengths_DD: lengths_DD
  by (simp add: lengths_DD_def DD_def CB_def BC_def lengths)

lemma test_lengths_DE: lengths_DE
  by (simp add: lengths_DE_def DE_def DB_def DA_def CC_def BA_def lengths)

lemma test_lengths_DF: lengths_DF
  by (simp add: lengths_DF_def DF_def DB_def DA_def CC_def CA_def BA_def lengths usize_MAX_def)

lemma test_min_max_length_derive: min_max_length_derive
  by (simp add: min_max_length_derive_def test_lengths_A test_lengths_B test_lengths_CA test_lengths_CB test_lengths_CC
    test_lengths_DA test_lengths_DB test_lengths_DC test_lengths_DD test_lengths_DE test_lengths_DF)

section \<open>The values come back\<close>

lemma roundtrip_passes:
  assumes "lawful_repr d" "self_type d x" "byte_len d x \<le> max_byte_len d"
  shows "test_bitrepr_roundtrip d x"
  using lawful_repr.write_ok [OF assms(1,2), of "replicate (max_byte_len d) 0"] assms
    lawful_repr.encode_length [OF assms(1,2)] lawful_repr.read_ok [OF assms(1,2)]
  by (simp add: test_bitrepr_roundtrip_def)

lemma roundtrips_pass:
  assumes "lawful_repr d" "list_all (\<lambda>x. self_type d x \<and> byte_len d x \<le> max_byte_len d) xs"
  shows "roundtrips d xs"
  using assms(2) roundtrip_passes [OF assms(1)] by (auto simp: roundtrips_def list_all_iff)

lemmas struct_roundtrips = roundtrips_pass [OF struct_repr_lawful]
lemmas enum_roundtrips = roundtrips_pass [OF enum_repr_lawful]

lemma enum_type:
  "self_type (enum_repr impl variants) (REnum i xs) =
     (i < length variants \<and> list_all2 (has_type impl) (variants ! i) xs)"
  by (simp add: enum_repr_def Let_def)

lemma derive_for_type:
  "self_type (derive_for impl v) = has_type impl v" "byte_len (derive_for impl v) = value_len impl v"
  "min_byte_len (derive_for impl v) = value_min impl v" "max_byte_len (derive_for impl v) = value_max impl v"
  by (simp_all add: derive_for_def)

lemma same_items:
  "list_all P (replicate n x) \<longleftrightarrow> n = 0 \<or> P x" "sum_list (replicate n k) = n * (k :: nat)"
  by (induction n) auto

lemmas types = enum_type derive_for_type bits_type_def same_items

lemma test_struct_roundtrip: test_struct_roundtrip
  unfolding test_struct_roundtrip_def
  by (intro conjI struct_roundtrips) (simp_all add: types lengths)

lemma test_enum_roundtrip: test_enum_roundtrip
  unfolding test_enum_roundtrip_def
  by (intro conjI enum_roundtrips) (simp_all add: types lengths)

lemma test_delegated: test_delegated
  unfolding test_delegated_def
  by (intro conjI struct_roundtrips) (simp_all add: types lengths struct_repr_lawful)

lemma test_vector: test_vector
  unfolding test_vector_def
  by (intro conjI struct_roundtrips)
    (simp_all add: types lengths struct_repr_lawful derive_for_lawful)

lemma test_array: test_array
  unfolding test_array_def
  by (intro conjI struct_roundtrips)
    (simp_all add: types lengths struct_repr_lawful derive_for_lawful)

lemma utf8_ascii: "list_all (\<lambda>b. b < 0x80) s \<Longrightarrow> valid_utf8 s"
  by (induction s) (simp_all add: valid_utf8.simps [of "_ # _"])

lemma non_ascii:
  "valid_utf8 [64, 226, 130, 172, 126, 195, 156, 195, 150, 195, 132, 194, 178, 194, 181, 195, 165]"
  by (simp add: valid_utf8.simps second_of_3_def utf8_cont_def byte_or_0_def)

lemma test_string: test_string
  unfolding test_string_def
  by (intro conjI struct_roundtrips)
    (simp_all add: types lengths ascii_def utf8_ascii)

lemma test_cow: test_cow
  unfolding test_cow_def
  by (intro conjI struct_roundtrips)
    (simp_all add: types lengths ascii_def utf8_ascii non_ascii)

lemma test_option: test_option
  unfolding test_option_def
  by (intro conjI struct_roundtrips roundtrips_pass [OF impl_of_lawful])
    (simp_all add: types lengths ascii_def utf8_ascii)

lemma packet_test_passes:
  assumes "self_type (packet_repr test_message) p" "byte_len (packet_repr test_message) p \<le> n"
  shows "\<exists>buf. write_to_bytes (packet_repr test_message) p (replicate n 0) = Ok buf
    \<and> from_bytes (packet_repr test_message) (take (byte_len (packet_repr test_message) p) buf) = Ok p"
proof -
  note law = packet_repr_lawful [OF test_message_lawful]
  show ?thesis
    using lawful_repr.write_ok [OF law assms(1), of "replicate n 0"] assms(2)
      lawful_repr.encode_length [OF law assms(1)] lawful_repr.read_ok [OF law assms(1), of "[]"] by simp
qed

lemma test_packet_byte_repr: test_packet_byte_repr
proof -
  let ?d = "packet_repr test_message"
  let ?p = "\<lparr>ack = packet_ack_new 0 (new_ring 32 :: bool ring) (new_ring 32 :: packet ring),
    reliable = True, ordered = False, messages = [REnum 1 [RBits 12], REnum 1 [RBits 9284], REnum 0 []]\<rparr>"
  have max: "max_byte_len ?d = 3020"
    by (simp add: packet_max_len test_message_def lengths)
  have "self_type ?d ?p" "byte_len ?d ?p \<le> 3020"
    by (simp_all add: packet_self_type packet_byte_len test_message_def types lengths)
  from packet_test_passes [OF this] show ?thesis
    by (auto simp: test_packet_byte_repr_def Let_def max packet_min_len)
qed

end
