(* ===== verification/ComTests.thy ===== *)
theory ComTests
  imports Exchange CodecTests ServiceSpec
begin

text \<open>
  Unreliable messages between two communicators whose network loses nothing, and unit tests of
  \<open>communicator/mod.rs\<close> and \<open>communicator/multi.rs\<close>, run on the model for any clock and any checksum. The tests that wait
  for time to pass are not modelled.
\<close>

section \<open>Two communicators and a faultless network\<close>

text \<open>
  C13. From a connection with nothing else to do, any messages written unreliably, each of at
  most 1024 bytes, reach the other side if the network delivers what the next \<open>tick\<close> has
  sent: they are appended to what can be read there, all of them, in the order written.
\<close>

theorem unreliable_arrives:
  assumes "lawful_repr (SEND ctx)" "ready env (SEND ctx) a" "ready env d b"
    and "queue_ok (SEND ctx) ms" "\<forall>m \<in> set ms. byte_len (SEND ctx) m \<le> MAX_PACKET_DATA_LEN"
  shows "\<exists>a' b'. com_tick env ctx (fold com_write ms a) = Returns (None, a')
    \<and> com_recv env (REVERSE ctx) (carry addr a' b) = Returns b'
    \<and> unordered_recv_queue (com_inner b') = unordered_recv_queue (com_inner b) @ ms"
  using unreliable_exchange [OF assms, of addr] by blast

text \<open>Two messages from a fresh communicator to another one.\<close>

definition fresh_com :: communicator where
  "fresh_com = the (com_bind (Some demo_os))"

lemma fresh_com_ready: "ready demo_env d fresh_com" "unordered_recv_queue (com_inner fresh_com) = []"
proof -
  have "quiet demo_os" by (simp add: quiet_def demo_os_def)
  then obtain com where "com_bind (Some demo_os) = Some com" "ready demo_env d com"
    "unordered_recv_queue (com_inner com) = []"
    using com_bind_ready by blast
  then show "ready demo_env d fresh_com" "unordered_recv_queue (com_inner fresh_com) = []"
    by (simp_all add: fresh_com_def)
qed

lemma test_messages_ok:
  "queue_ok test_message [REnum 0 [], REnum 1 [RBits n]] = (n < 65536)"
  by (simp add: queue_ok_def test_message_def types)

theorem unreliable_arrives_witness:
  "\<exists>a' b'. com_tick demo_env demo_ctx (fold com_write [REnum 0 [], REnum 1 [RBits 9284]] fresh_com) = Returns (None, a')
    \<and> com_recv demo_env (REVERSE demo_ctx) (carry 1 a' fresh_com) = Returns b'
    \<and> unordered_recv_queue (com_inner b') = [REnum 0 [], REnum 1 [RBits 9284]]"
  using unreliable_arrives [OF _ fresh_com_ready(1) fresh_com_ready(1),
      of demo_ctx "[REnum 0 [], REnum 1 [RBits 9284]]" 1]
    test_message_lawful test_messages_ok [of 9284] fresh_com_ready(2)
  by (simp add: MAX_PACKET_DATA_LEN_def)

section \<open>The tests\<close>

text \<open>\<open>test_init\<close>: two communicators on two systems, connected to each other.\<close>

definition test_init :: "os \<Rightarrow> os \<Rightarrow> (communicator \<times> communicator) option" where
  "test_init os1 os2 =
     (case (Option.bind (com_bind (Some os1)) (com_connect True),
            Option.bind (com_bind (Some os2)) (com_connect True)) of
        (Some com1, Some com2) \<Rightarrow> Some (com1, com2)
      | _ \<Rightarrow> None)"

definition UdpCtx :: udp_context where
  "UdpCtx = \<lparr>SEND = test_message, RECV = test_message, PROTOCOL_VERSION = 0\<rparr>"

definition packet_roundtrip :: "crate_env \<Rightarrow> os \<Rightarrow> os \<Rightarrow> bool" where
  "packet_roundtrip env os1 os2 \<longleftrightarrow>
     (case test_init os1 os2 of
        None \<Rightarrow> False
      | Some (com1, com2) \<Rightarrow>
          (let m1 = REnum 0 []; m2 = REnum 1 [RBits 1394];
               com2 = com_write m2 (com_write m1 com2)
           in case com_tick env UdpCtx com2 of
                Returns (None, com2) \<Rightarrow>
                  (case com_tick env UdpCtx (carry 7201 com2 com1) of
                     Returns (None, com1) \<Rightarrow>
                       (let (read1, com1) = com_read com1; (read2, com1) = com_read com1;
                            (read3, com1) = com_read com1
                        in read1 = Some m1 \<and> read2 = Some m2 \<and> read3 = None)
                   | _ \<Rightarrow> False)
              | _ \<Rightarrow> False))"

text \<open>The sender has protocol version 1 and the receiver has version 2.\<close>

definition sender_ctx :: udp_context where
  "sender_ctx = \<lparr>SEND = impl_of string_field, RECV = impl_of VEmptyTuple, PROTOCOL_VERSION = 1\<rparr>"

definition receiver_ctx :: udp_context where
  "receiver_ctx = \<lparr>SEND = impl_of VEmptyTuple, RECV = impl_of string_field, PROTOCOL_VERSION = 2\<rparr>"

definition protocol_version_check :: "crate_env \<Rightarrow> os \<Rightarrow> os \<Rightarrow> bool" where
  "protocol_version_check env os1 os2 \<longleftrightarrow>
     (case (Option.bind (com_default (Some os1)) (com_connect True), com_bind (Some os2)) of
        (Some com1, Some com2) \<Rightarrow>
          (case com_send env sender_ctx (com_write (ascii ''Can you hear me?'') com1) of
             Returns (None, com1) \<Rightarrow>
               (case com_recv env receiver_ctx (carry 7212 com1 com2) of
                  Returns com2 \<Rightarrow> fst (com_read com2) = None
                | _ \<Rightarrow> False)
           | _ \<Rightarrow> False)
      | _ \<Rightarrow> False)"

text \<open>
  Three communicators write to one, which then has a connection for each of them; \<open>order\<close> is
  the order in which the hash map is iterated.
\<close>

definition unit_ctx :: udp_context where
  "unit_ctx = \<lparr>SEND = impl_of VEmptyTuple, RECV = impl_of VEmptyTuple, PROTOCOL_VERSION = 1\<rparr>"

definition arrived_from :: "socket_addr \<Rightarrow> communicator \<Rightarrow> (socket_addr \<times> u8 list) option list" where
  "arrived_from addr com = map (\<lambda>(_, f). Some (addr, f)) (outbox (os_socket (com_socket com)))"

fun remove_ports :: "socket_addr list \<Rightarrow> multi \<Rightarrow> socket_addr list \<Rightarrow> bool" where
  "remove_ports [] m ports = (ports = [])"
| "remove_ports (addr # order) m ports =
     (case iter_mut_next (addr # order) m of
        (Some com, _) \<Rightarrow> mut_addr com \<in> set ports \<and> remove_ports order m (remove1 (mut_addr com) ports)
      | (None, _) \<Rightarrow> False)"

definition multi_udp_communicator_iter_mut :: "crate_env \<Rightarrow> os \<Rightarrow> os \<Rightarrow> os \<Rightarrow> os \<Rightarrow> socket_addr list \<Rightarrow> bool" where
  "multi_udp_communicator_iter_mut env os0 os1 os2 os3 order \<longleftrightarrow>
     (case (multi_bind (Some os0), com_bind (Some os1), com_bind (Some os2), com_bind (Some os3)) of
        (Some multi, Some com1, Some com2, Some com3) \<Rightarrow>
          (case (com_send env unit_ctx (com_write_heartbeat com1), com_send env unit_ctx (com_write_heartbeat com2),
                 com_send env unit_ctx (com_write_heartbeat com3)) of
             (Returns (None, com1), Returns (None, com2), Returns (None, com3)) \<Rightarrow>
               (let multi = multi\<lparr>multi_socket := (multi_socket multi)\<lparr>os_socket := (os_socket (multi_socket multi))
                  \<lparr>inbox := arrived_from 7401 com1 @ arrived_from 7402 com2 @ arrived_from 7403 com3\<rparr>\<rparr>\<rparr>
                in case multi_recv env unit_ctx (closure_callback (\<lambda>_ com. ((), com))) order () multi of
                     Returns (_, multi) \<Rightarrow>
                       (enumerates order multi \<longrightarrow> remove_ports order multi [7401, 7402, 7403])
                   | _ \<Rightarrow> False)
           | _ \<Rightarrow> False)
      | _ \<Rightarrow> False)"

section \<open>They pass\<close>

lemma packet_roundtrip_passes:
  assumes "quiet os1" "quiet os2"
  shows "packet_roundtrip env os1 os2"
proof -
  let ?ms = "[REnum 0 [], REnum 1 [RBits 1394]]"
  have ctx: "SEND UdpCtx = test_message" "RECV UdpCtx = test_message" "REVERSE UdpCtx = UdpCtx"
    by (simp_all add: UdpCtx_def REVERSE_def)
  obtain com1 where com1: "com_bind (Some os1) = Some com1" "ready env test_message com1"
      "unordered_recv_queue (com_inner com1) = []"
    using com_bind_ready [OF assms(1)] by blast
  obtain com2 where com2: "com_bind (Some os2) = Some com2" "ready env test_message com2"
    using com_bind_ready [OF assms(2)] by blast
  obtain com2' com1' where sent: "com_tick env UdpCtx (fold com_write ?ms com2) = Returns (None, com2')"
      "com_recv env UdpCtx (carry 7201 com2' com1) = Returns com1'"
      "unordered_recv_queue (com_inner com1') = ?ms" "config_ok (com_socket com1')"
    using unreliable_exchange [of UdpCtx env com2 test_message com1 ?ms 7201] com1(2,3) com2(2)
      test_message_lawful test_messages_ok [of 1394] by (auto simp: ctx MAX_PACKET_DATA_LEN_def)
  have received: "receive env UdpCtx (com_inner com1) (com_socket (carry 7201 com2' com1)) =
      Returns (com_inner com1', com_socket com1')"
    using sent(2) by (auto simp: com_recv_def outcome_bind_Returns carry_def)
  have "inner_ok test_message (com_inner com1')" "unreliable_send_queue (com_inner com1') = []"
    using receive_ok [OF received] receive_queue [OF received] com1(2)
    by (auto simp: ready_def com_has_work_def has_work_def)
  then obtain c s where answer: "inner_send env UdpCtx None (com_inner com1') (com_socket com1') = Returns (None, c, s)"
    using inner_send_ok [of UdpCtx "com_inner com1'" "com_socket com1'" env None] test_message_lawful sent(4)
    by (auto simp: ctx)
  have "com_tick env UdpCtx (carry 7201 com2' com1) = Returns (None, \<lparr>com_socket = s, com_inner = c\<rparr>)"
    using sent(2) answer by (simp add: com_tick_def com_send_def)
  then show ?thesis
    using sent(1,3) inner_send_queue [OF answer] com1(1) com2(1)
    by (simp add: packet_roundtrip_def test_init_def com_connect_def com_read_def)
qed

lemma protocol_version_check_passes:
  assumes "quiet os1" "quiet os2" "\<not> feature_debug env"
    and "\<And>bs. CRC env sender_ctx bs \<noteq> CRC env receiver_ctx bs"
  shows "protocol_version_check env os1 os2"
proof -
  let ?ms = "[ascii ''Can you hear me?'']"
  have ctx: "lawful_repr (SEND sender_ctx)"
    using impl_of_lawful [of string_field] by (simp add: sender_ctx_def)
  obtain com1 where com1: "com_default (Some os1) = Some com1" "ready env (SEND sender_ctx) com1"
    using com_bind_ready [OF assms(1)] unfolding com_default_def com_bind_def by blast
  obtain com2 where com2: "com_bind (Some os2) = Some com2" "ready env test_message com2"
      "unordered_recv_queue (com_inner com2) = []"
    using com_bind_ready [OF assms(2)] by blast
  have ms: "queue_ok (SEND sender_ctx) ?ms" "\<forall>m \<in> set ?ms. byte_len (SEND sender_ctx) m \<le> MAX_PACKET_DATA_LEN"
    by (simp_all add: queue_ok_def sender_ctx_def derive_for_type ascii_def utf8_ascii MAX_PACKET_DATA_LEN_def)
  obtain com1' where sent: "com_send env sender_ctx (fold com_write ?ms com1) = Returns (None, com1')"
      "sends_messages env sender_ctx com1' ?ms"
    using com_send_idle [OF ctx com1(2) ms] by auto
  then obtain ps where ps: "outbox (os_socket (com_socket com1')) =
      map (\<lambda>p. (None, frame (SEND sender_ctx) (CRC env sender_ctx) p)) ps" "list_all (packet_ok (SEND sender_ctx)) ps"
    by (auto simp: sends_messages_def)
  let ?s = "com_socket (carry 7212 com1' com2)"
    and ?afs = "map (\<lambda>p. (7212, frame (SEND sender_ctx) (CRC env sender_ctx) p)) ps"
  have "mismatched env receiver_ctx (frame (SEND sender_ctx) (CRC env sender_ctx) p)" if "p \<in> set ps" for p
  proof -
    have "packet_ok (SEND sender_ctx) p" using ps(2) that by (simp add: list_all_iff)
    then show ?thesis
      using length_frame [OF ctx] length_frame_le [OF ctx] assms(4) [of "encode (packet_repr (SEND sender_ctx)) p"]
      by (simp add: mismatched_def frame_def crc_bytes)
  qed
  then have "list_all (\<lambda>(a, f). mismatched env receiver_ctx f) ?afs" by (auto simp: list_all_iff)
  moreover have "inbox (os_socket ?s) = map Some ?afs" "length (data_buffer ?s) = MAX_PACKET_LEN"
    using ps(1) com2(2) by (simp_all add: carry_def ready_def config_ok_def comp_def)
  ultimately obtain s where "receive_loop env receiver_ctx (com_inner com2) ?s = Returns (com_inner com2, s)"
    using receive_loop_mismatched [OF assms(3)] by blast
  then have "com_recv env receiver_ctx (carry 7212 com1' com2) = Returns \<lparr>com_socket = s, com_inner = com_inner com2\<rparr>"
    using assms(3) by (simp add: com_recv_def receive_def carry_def)
  then show ?thesis
    using sent(1) com1(1) com2(1,3)
    by (simp add: protocol_version_check_def com_connect_def com_read_def)
qed

lemma remove_ports_all:
  "distinct order \<Longrightarrow> distinct ports \<Longrightarrow> set ports = set order \<Longrightarrow> \<forall>a \<in> set order. coms m a \<noteq> None \<Longrightarrow>
    remove_ports order m ports"
proof (induction order arbitrary: ports)
  case (Cons addr order)
  then have "remove_ports order m (remove1 addr ports)" by (intro Cons.IH) auto
  then show ?case using Cons.prems by (auto simp: multi_get_mut_def)
qed simp

lemma heartbeat_sent:
  assumes "quiet o_s"
  shows "\<exists>com com' ps. com_bind (Some o_s) = Some com
    \<and> com_send env unit_ctx (com_write_heartbeat com) = Returns (None, com') \<and> ps \<noteq> []
    \<and> arrived_from addr com' = map (\<lambda>p. Some (addr, frame (SEND unit_ctx) (CRC env unit_ctx) p)) ps
    \<and> list_all (packet_ok (SEND unit_ctx)) ps"
proof -
  have "lawful_repr (SEND unit_ctx)"
    using impl_of_lawful [of VEmptyTuple] by (simp add: unit_ctx_def)
  then show ?thesis
    using com_bind_ready [OF assms, of env "SEND unit_ctx"] com_send_heartbeat [of unit_ctx env]
    unfolding arrived_from_def by fastforce
qed

lemma multi_recv_fresh:
  assumes "lawful_repr (SEND ctx)" "socket_bind (Some os0) = Some s" "list_all (\<lambda>(a, p). packet_ok (SEND ctx) p) aps"
    and "arrived = map (\<lambda>(a, p). Some (a, frame (SEND ctx) (CRC env ctx) p)) aps"
  defines "m \<equiv> \<lparr>multi_socket = s\<lparr>os_socket := (os_socket s)\<lparr>inbox := arrived\<rparr>\<rparr>, coms = Map.empty\<rparr>"
  shows "\<exists>m'. multi_recv env (REVERSE ctx) unit_callback order () m = Returns ((), m') \<and> separately aps m m'"
proof -
  have "no_faults env (multi_socket m)" using no_faults_bind [OF assms(2)] by (simp add: m_def)
  moreover have "length (data_buffer (multi_socket m)) = MAX_PACKET_LEN"
    using config_ok_bind [OF assms(2)] by (simp add: config_ok_def m_def)
  ultimately obtain m' where m': "multi_recv_loop env (REVERSE ctx) unit_callback () () m = Returns ((), (), m')"
      "no_faults env (multi_socket m')" "separately aps m m'"
    using multi_recv_loop_frames [OF assms(1,3), of env m] assms(4) by (auto simp: m_def)
  have "feature_debug env \<Longrightarrow> multi_delayed_loop env (REVERSE ctx) unit_callback () () m' = Returns ((), (), m')"
    using m'(2) by (subst multi_delayed_loop.simps) (simp add: no_faults_def read_delayed_def)
  then show ?thesis using m' by (auto simp: multi_recv_def unit_callback_def [unfolded callback.defs])
qed

lemma multi_udp_communicator_iter_mut_passes:
  assumes "quiet os0" "quiet os1" "quiet os2" "quiet os3"
  shows "multi_udp_communicator_iter_mut env os0 os1 os2 os3 order"
proof -
  let ?frames = "\<lambda>addr. map (\<lambda>p. Some (addr, frame (SEND unit_ctx) (CRC env unit_ctx) p))"
  have ctx: "lawful_repr (SEND unit_ctx)" "REVERSE unit_ctx = unit_ctx"
    using impl_of_lawful [of VEmptyTuple] by (simp_all add: unit_ctx_def REVERSE_def)
  have unit: "closure_callback Pair = unit_callback"
    by (simp add: closure_callback_def unit_callback_def)
  obtain s where s: "socket_bind (Some os0) = Some s" by (simp add: socket_bind_def)
  obtain com1 com1' ps1 where 1: "com_bind (Some os1) = Some com1"
      "com_send env unit_ctx (com_write_heartbeat com1) = Returns (None, com1')" "ps1 \<noteq> []"
      "arrived_from 7401 com1' = ?frames 7401 ps1" "list_all (packet_ok (SEND unit_ctx)) ps1"
    using heartbeat_sent [OF assms(2)] by blast
  obtain com2 com2' ps2 where 2: "com_bind (Some os2) = Some com2"
      "com_send env unit_ctx (com_write_heartbeat com2) = Returns (None, com2')" "ps2 \<noteq> []"
      "arrived_from 7402 com2' = ?frames 7402 ps2" "list_all (packet_ok (SEND unit_ctx)) ps2"
    using heartbeat_sent [OF assms(3)] by blast
  obtain com3 com3' ps3 where 3: "com_bind (Some os3) = Some com3"
      "com_send env unit_ctx (com_write_heartbeat com3) = Returns (None, com3')" "ps3 \<noteq> []"
      "arrived_from 7403 com3' = ?frames 7403 ps3" "list_all (packet_ok (SEND unit_ctx)) ps3"
    using heartbeat_sent [OF assms(4)] by blast
  let ?aps = "map (Pair (7401 :: socket_addr)) ps1 @ map (Pair 7402) ps2 @ map (Pair 7403) ps3"
  let ?m = "\<lparr>multi_socket = s\<lparr>os_socket := (os_socket s)
    \<lparr>inbox := arrived_from 7401 com1' @ arrived_from 7402 com2' @ arrived_from 7403 com3'\<rparr>\<rparr>, coms = Map.empty\<rparr>"
  have "list_all (\<lambda>(a, p). packet_ok (SEND unit_ctx) p) ?aps" using 1(5) 2(5) 3(5) by (auto simp: list_all_iff)
  moreover have "arrived_from 7401 com1' @ arrived_from 7402 com2' @ arrived_from 7403 com3' =
      map (\<lambda>(a, p). Some (a, frame (SEND unit_ctx) (CRC env unit_ctx) p)) ?aps"
    by (simp add: 1(4) 2(4) 3(4) comp_def)
  ultimately obtain m' where recv: "multi_recv env unit_ctx unit_callback order () ?m = Returns ((), m')"
      "separately ?aps ?m m'"
    using multi_recv_fresh [OF ctx(1) s, where aps = ?aps and env = env and order = order] ctx(2) by auto
  have "from_addr a ?aps = (if a = 7401 then ps1 else if a = 7402 then ps2 else if a = 7403 then ps3 else [])" for a
    by (simp add: from_addr_def filter_map comp_def)
  then have "coms m' a \<noteq> None \<longleftrightarrow> a \<in> {7401, 7402, 7403}" for a
    using spec [OF recv(2) [unfolded separately_def], of a] 1(3) 2(3) 3(3) by (auto split: if_splits)
  then have "enumerates order m' \<Longrightarrow> remove_ports order m' [7401, 7402, 7403]"
    by (intro remove_ports_all) (auto simp: enumerates_def dom_def)
  then show ?thesis
    using s 1(1,2) 2(1,2) 3(1,2) recv(1)
    by (simp add: multi_udp_communicator_iter_mut_def multi_bind_def unit)
qed

end
