(* ===== verification/Spec2Isabelle.thy ===== *)
theory Spec2Isabelle
  imports RingSpec CodecSpec SendSpec ReceiveSpec ServiceSpec SystemSpec MacroSpec ComTests
begin

text \<open>
  A verification development for \<open>mini_udp\<close>, a Rust library that sends messages over UDP
  unreliably, reliably, or reliably and in order, with its derive macro for \<open>ByteRepr\<close>.

  \<^bold>\<open>The program.\<close> A \<open>UdpCommunicatorSocket\<close> (\<open>src/mini_udp/src/communicator/socket.rs\<close>) holds
  the system socket, a buffer for one datagram and the settings. An \<open>InnerUdpCommunicator\<close>
  (\<open>communicator/inner.rs\<close>) is one connection: queues of messages to send, four ring buffers
  of 32 packets (\<open>ring_buffer.rs\<close>) that cache reliable packets sent and received, the number
  of the next ordered packet to deliver, and the queues of messages to read. Sending packs
  queued messages into packets (\<open>flush_messages\<close>) and puts the packets that are due on the
  socket (\<open>send_packets\<close>); receiving checks the checksum, decodes the packet, lets its
  acknowledgement (\<open>packet_ack.rs\<close>) remove packets from the send caches, recognises
  duplicates by the receive caches and delivers (\<open>read_packet\<close>). \<open>UdpCommunicator\<close>
  (\<open>communicator/mod.rs\<close>) joins one socket and one connection, \<open>MultiUdpCommunicator\<close>
  (\<open>communicator/multi.rs\<close>) one socket and a hash map of connections. Packets and messages are
  encoded by the trait \<open>ByteRepr\<close> (\<open>byte_repr.rs\<close>), whose implementations the macros of
  \<open>src/derive\<close> generate from the shape of a type.

  \<^bold>\<open>The theories\<close>, in the order of the code:

  \<^item> \<open>Prelude\<close>: machine-integer types, the outcome type \<open>res\<close> of a fallible routine, shared lemmas.
  \<^item> \<open>Wrapping\<close>: \<open>wrapping_range\<close> and \<open>wrapping_gt\<close> of \<open>ring_buffer.rs\<close>.
  \<^item> \<open>Store\<close>: the locales \<open>seq_store\<close> and \<open>seq_window\<close>, the contract of a packet cache.
  \<^item> \<open>Ring\<close>, \<open>RingIter\<close>, \<open>RingMut\<close>: \<open>RingBuffer\<close> with all its methods, its five iterators and
    \<open>retain\<close>; they interpret the contract. \<open>RingSpec\<close> states what the ring guarantees.
  \<^item> \<open>ByteRepr\<close>: the trait as a record of constants and functions, \<open>write_many\<close>, \<open>read_many\<close>, and
    the locale \<open>lawful_repr\<close> (what is written has the promised length and is read back).
  \<^item> \<open>Utf8\<close>: \<open>String::from_utf8_lossy\<close>. \<open>DeriveData\<close>: the code \<open>derive/src/data.rs\<close> emits for a
    field. \<open>DeriveGroup\<close>: \<open>data_group.rs\<close> and \<open>derive/src/lib.rs\<close>, the emitted implementation of
    structs, enums and \<open>derive_for!\<close>. \<open>DeriveCodec\<close>, \<open>DeriveLaws\<close>, \<open>DeriveImpls\<close> prove them
    lawful, \<open>DeriveTotal\<close> proves that reading arbitrary bytes does not panic (locale
    \<open>total_repr\<close>), \<open>DeriveTyped\<close> that it returns only values of the type (locale \<open>typed_repr\<close>);
    \<open>CodecSpec\<close> states the guarantees.
  \<^item> \<open>DeriveTypes\<close>: \<open>Value::from_type\<close> and \<open>Value::name\<close> on the syntax trees of \<open>syn\<close>. \<open>DeriveLength\<close> and
    \<open>LengthLaws\<close>: \<open>struct ByteLen\<close> with the tokens it splices, evaluated by the precedence of Rust; the length
    of an array is an expression of literals, named operands, parentheses and all the binary
    operators on integers.
    \<open>DeriveNames\<close>: the identifiers the macro makes up, and reading a struct with the names it
    binds. \<open>MacroSpec\<close> states that lengths and names come out right, and when they do not.
  \<^item> \<open>Packet\<close>: \<open>packet.rs\<close> and the type of \<open>packet_ack.rs\<close>. \<open>Ack\<close>: \<open>PacketAck::new\<close> and
    \<open>acknowledge\<close>, with the locale \<open>ack_channel\<close> on top of \<open>seq_window\<close>.
  \<^item> \<open>Socket\<close>: \<open>context.rs\<close>, \<open>socket.rs\<close> and the simulated delay of \<open>debug.rs\<close>.
  \<^item> \<open>Inner\<close>: the state and the sending half of \<open>inner.rs\<close>. \<open>Flush\<close>, \<open>Transmit\<close> and \<open>Sending\<close>
    prove its routines correct; \<open>Scenario\<close> is the environment the witnesses run in;
    \<open>SendSpec\<close> states the guarantees.
  \<^item> \<open>Receive\<close>: the receiving half of \<open>inner.rs\<close>, with the simulated loss and corruption of
    \<open>debug.rs\<close>. \<open>Window\<close> is the locale \<open>receive_window\<close>, which relates 16-bit numbers to
    unbounded ones; \<open>Deliver\<close>, \<open>Delivery\<close>, \<open>Runs\<close> and \<open>Intake\<close> prove delivery over whole runs
    of arrivals. \<open>Robust\<close> proves what holds whatever arrives, through the locale
    \<open>reading_invariant\<close> of \<open>Intake\<close>; \<open>ReceiveSpec\<close> states the guarantees.
  \<^item> \<open>Communicator\<close> and \<open>Multi\<close>: \<open>mod.rs\<close> and \<open>multi.rs\<close>; the trait \<open>Communicator\<close> is the locale
    \<open>communicator_trait\<close>, interpreted on both its implementations. \<open>ServiceSpec\<close> states what the
    public types guarantee.
  \<^item> \<open>System\<close> composes two peers and the network between them; \<open>Link\<close> is the invariant of one
    reliable direction, \<open>Patience\<close> follows the packets of a call of \<open>send\<close> in which nothing is
    given up, \<open>SystemInv\<close> proves the invariant of the whole system, and \<open>SystemSpec\<close> states what
    holds end to end. \<open>Exchange\<close> follows unreliable messages over a network that loses nothing.
  \<^item> \<open>RingTests\<close>, \<open>CodecTests\<close> and \<open>ComTests\<close>: the unit tests of the repository as the conjunction
    of their assertions, with the proof that the model passes them. The tests of the ring buffer
    and of the derive macro are all there; \<open>ComTests\<close> has those of the communicators that do not
    wait for time to pass, and states that unreliable messages arrive if nothing is lost.

  \<^bold>\<open>How the code is rendered.\<close> A struct is a record, an enum a datatype, \<open>u8\<close>, \<open>u16\<close> and \<open>u32\<close>
  are words with the code's wrapping operations, \<open>usize\<close> is \<open>nat\<close> (no length in the code comes
  near its bound). A fallible routine returns \<open>res\<close> (\<open>Ok\<close>, \<open>Err\<close>, \<open>Panic\<close>), a routine with
  effects threads the socket and returns \<open>outcome\<close> (\<open>Returns\<close>, \<open>Panics\<close>, \<open>Diverges\<close>). Every
  indexing, slice, unwrap and subtraction that can panic is a branch. A loop that may not end
  (\<open>flush_messages\<close>, \<open>read_many\<close>) is a \<open>partial_function (option)\<close>, and that it ends is proved
  or refuted; the other loops are recursive functions with a termination proof, so no fuel
  is used. A generic type of messages is a \<open>byte_repr\<close> on the universal values \<open>rval\<close>.

  \<^bold>\<open>The environment.\<close> The crate \<open>crc\<close> is the parameter \<open>crc_checksum\<close>; no property of it is
  assumed, except that the two sides compute the same function. The operating system is data
  of the socket: what each clock reading returns, which datagrams are waiting, which sends
  fail, and what the crate \<open>rand\<close> draws; its panic on a number that is no probability is a
  branch of the model. The order in which a hash map is iterated is an
  argument, constrained to enumerate the keys. \<open>cfg(feature = "debug")\<close> is a flag of the
  environment, so both builds are covered, and so is whether arithmetic overflow panics
  (\<open>overflow_checks\<close>), which matters for the retries that are left of a packet.

  \<^bold>\<open>The system.\<close> An \<open>endpoint\<close> is a \<open>UdpCommunicator\<close> with its history: what its application
  wrote and read, the packets \<open>flush_messages\<close> has made, and which packets of the peer have
  arrived. \<open>act\<close> is one call of a method of \<open>mod.rs\<close>, computed by its model in
  \<open>Communicator\<close>; the history is only recorded and never read by the code. The network may
  lose, repeat and reorder datagrams, so \<open>recv\<close> finds any list of datagrams that the peer has
  made and that are \<open>timely\<close>: at most 95 packets behind the newest that has arrived, with an
  acknowledgement made less than 65505 packets ago, which is as far as 16-bit numbers can be
  told apart. Messages are at most 1024 bytes long, and no packet is given up: for one
  that has used up \<open>max_reliable_unordered_retries\<close> or \<open>max_reliable_ordered_retries\<close> the library
  promises nothing. \<open>reachable\<close> is the closure of \<open>act\<close> on both sides
  from two fresh connections, for any number of packets, hence for any number of
  wrap-arounds. \<open>refines_channel\<close> relates the pair to a first-in first-out channel,
  \<open>one_good_round\<close> shows that it is never stuck: once the cached packets arrive, everything
  that has been packed can be read.

  \<^bold>\<open>Bounds.\<close> The caches hold 32 packets, and 32 acknowledgement bits cover exactly these.
  \<open>wrapping_gt\<close> with a distance of 64 decides age correctly when numbers differ by at most 64
  in the wrapped sense; \<open>may_arrive\<close> therefore asks of a packet that it is at most 95 behind and
  32 ahead of the newest. Outside of that range the code misjudges packets, which the last
  theorems of \<open>ReceiveSpec\<close> show. A packet carries at most 1024 bytes of messages.

  \<^bold>\<open>Not modelled.\<close> The parsing of macro input and the token plumbing of the derive crate
  (\<open>quote!\<close> beyond the expressions for lengths and the names of fields, spans, compile errors)
  have no behaviour at run time; the code emitted for enums of more than 256 variants does not
  compile. Raw identifiers are left out: the derive panics for a field \<open>r#type\<close>. Log output is
  dropped. The unit tests that sleep until packets are sent again, or compare measured times,
  are left out; \<open>SystemSpec\<close> and \<open>SendSpec\<close> state what they exercise for every schedule. Closures passed to \<open>retain\<close> and to the callbacks are functions that return.
\<close>

end
